(* ===== verification/Prelude.thy ===== *)
theory Prelude
  imports Main "HOL-Library.Word" "HOL-Library.Multiset"
begin

text \<open>
  Shared vocabulary of the development: the error codes the C functions store in
  \<^verbatim>\<open>errno\<close> or return, the result type of a fallible call, machine integer
  types, and the generic lemmas on linked chains, lists and words that the component
  theories use.
\<close>

named_theorems chain_rules \<open>rewrite rules for linked chains in an address space\<close>
named_theorems out_defs \<open>definitions of the small result and effect constructors\<close>

subsection \<open>Error codes and results\<close>

datatype errno =
    EBADF | EINVAL | EMSGSIZE | EAGAIN | EBUSY | EEXIST | ENOENT | ESRCH | ETIMEDOUT
  | ENOSPC | EAFNOSUPPORT | EINTR | ENOMEM | EACCES | EPIPE | ERANGE | EIO | EDEADLK
  | ECONNRESET | ECONNREFUSED | EHOSTUNREACH | EINPROGRESS

text \<open>
  A call that returns \<^verbatim>\<open>-1\<close> (or a null pointer) and sets \<^verbatim>\<open>errno\<close> is a
  left injection, a successful one a right injection.
\<close>

type_synonym 'a res = "errno + 'a"
type_synonym byte = "8 word"
type_synonym u16 = "16 word"
type_synonym u32 = "32 word"
type_synonym u64 = "64 word"

subsection \<open>Linked chains\<close>

text \<open>
  \<open>seg nx i xs j\<close>: following the link function \<open>nx\<close> from \<open>i\<close> visits exactly
  the addresses \<open>xs\<close> and arrives at \<open>j\<close>. \<open>chain nx nil i xs\<close> is a segment that
  ends at the null address and never meets it before.
\<close>

primrec seg :: "('a \<Rightarrow> 'a) \<Rightarrow> 'a \<Rightarrow> 'a list \<Rightarrow> 'a \<Rightarrow> bool" where
  "seg nx i [] j = (i = j)"
| "seg nx i (x # xs) j = (i = x \<and> seg nx (nx x) xs j)"

primrec chain :: "('a \<Rightarrow> 'a) \<Rightarrow> 'a \<Rightarrow> 'a \<Rightarrow> 'a list \<Rightarrow> bool" where
  "chain nx nil i [] = (i = nil)"
| "chain nx nil i (x # xs) = (i = x \<and> x \<noteq> nil \<and> chain nx nil (nx x) xs)"

lemma seg_append [chain_rules]: "seg nx i (xs @ ys) j = (\<exists>k. seg nx i xs k \<and> seg nx k ys j)"
  by (induction xs arbitrary: i) auto

lemma chain_append [chain_rules]:
  "chain nx nil i (xs @ ys) = (nil \<notin> set xs \<and> (\<exists>k. seg nx i xs k \<and> chain nx nil k ys))"
  by (induction xs arbitrary: i) auto

lemma chain_seg: "chain nx nil i xs = (nil \<notin> set xs \<and> seg nx i xs nil)"
  by (induction xs arbitrary: i) auto

lemma seg_cong: "(\<And>x. x \<in> set xs \<Longrightarrow> nx x = nx' x) \<Longrightarrow> seg nx i xs j = seg nx' i xs j"
  by (induction xs arbitrary: i) auto

lemma chain_cong: "(\<And>x. x \<in> set xs \<Longrightarrow> nx x = nx' x) \<Longrightarrow> chain nx nil i xs = chain nx' nil i xs"
  by (induction xs arbitrary: i) auto

lemma seg_upd [simp]: "u \<notin> set xs \<Longrightarrow> seg (nx(u := v)) i xs j = seg nx i xs j"
  by (rule seg_cong) auto

lemma chain_upd [simp]: "u \<notin> set xs \<Longrightarrow> chain (nx(u := v)) nil i xs = chain nx nil i xs"
  by (rule chain_cong) auto

lemma chain_nil [simp]: "chain nx nil nil xs = (xs = [])"
  by (cases xs) auto

lemma chain_head: "chain nx nil i xs \<Longrightarrow> i = (case xs of [] \<Rightarrow> nil | x # _ \<Rightarrow> x)"
  by (cases xs) auto

lemma chain_nonnil: "chain nx nil i xs \<Longrightarrow> nil \<notin> set xs"
  by (simp add: chain_seg)

lemma chain_unique: "chain nx nil i xs \<Longrightarrow> chain nx nil i ys \<Longrightarrow> xs = ys"
proof (induction xs arbitrary: i ys)
  case Nil
  then show ?case by simp
next
  case (Cons x xs)
  then show ?case by (cases ys) auto
qed

lemma chain_distinct: "chain nx nil i xs \<Longrightarrow> distinct xs"
proof (induction xs arbitrary: i)
  case Nil
  then show ?case by simp
next
  case (Cons x xs)
  have "x \<notin> set xs"
  proof
    assume "x \<in> set xs"
    then obtain as bs where xs: "xs = as @ x # bs" by (auto simp: in_set_conv_decomp)
    from Cons.prems have a: "chain nx nil (nx x) xs" by simp
    from a xs have "chain nx nil (nx x) bs" by (auto simp: chain_append)
    with a have "xs = bs" by (rule chain_unique)
    with xs show False by simp
  qed
  with Cons show ?case by auto
qed

lemma chain_nonempty: "chain nx nil i xs \<Longrightarrow> (i \<noteq> nil) = (xs \<noteq> [])"
  by (cases xs) auto

lemma seg_last: "seg nx i xs j \<Longrightarrow> xs \<noteq> [] \<Longrightarrow> nx (last xs) = j"
  by (induction xs arbitrary: i) (auto split: if_splits)

lemma seg_upd_last:
  assumes "seg nx i xs j" "xs \<noteq> []" "distinct xs"
  shows "seg (nx(last xs := k)) i xs k"
  using assms
proof (induction xs arbitrary: i)
  case Nil
  then show ?case by simp
next
  case (Cons x xs)
  show ?case
  proof (cases "xs = []")
    case True
    with Cons.prems show ?thesis by simp
  next
    case False
    with Cons.prems have "x \<noteq> last xs" using last_in_set by fastforce
    with False Cons show ?thesis by simp
  qed
qed

lemma chain_insert:
  assumes "chain nx nil h (as @ bs)" "f \<notin> set (as @ bs)" "f \<noteq> nil"
    and "i = (case bs of [] \<Rightarrow> nil | b # _ \<Rightarrow> b)"
  shows "as = [] \<Longrightarrow> chain (nx(f := i)) nil f (f # bs)"
    and "as \<noteq> [] \<Longrightarrow> chain (nx(f := i, last as := f)) nil h (as @ f # bs)"
proof -
  from assms(1) obtain k where k: "nil \<notin> set as" "seg nx h as k" "chain nx nil k bs"
    by (auto simp: chain_append)
  have ki: "k = i" using chain_head [OF k(3)] assms(4) by simp
  with k(3) assms(2,3) show "chain (nx(f := i)) nil f (f # bs)" by simp
  assume ne: "as \<noteq> []"
  have d: "distinct (as @ bs)" using chain_distinct [OF assms(1)] .
  with ne assms(2) have lb: "last as \<notin> set bs" "last as \<noteq> f"
    using last_in_set [of as] by (auto simp: disjoint_iff)
  have "seg (nx(f := i, last as := f)) h as f"
    using seg_upd_last [of "nx(f := i)" h as k f] k(2) ne d assms(2) by simp
  moreover have "chain (nx(f := i, last as := f)) nil f (f # bs)"
    using k(3) ki lb assms(2,3) by simp
  ultimately show "chain (nx(f := i, last as := f)) nil h (as @ f # bs)"
    using k(1) by (auto simp: chain_append)
qed

subsection \<open>Lists\<close>

lemma sorted_wrt_takeWhile: "sorted_wrt P xs \<Longrightarrow> sorted_wrt P (takeWhile Q xs)"
  by (metis sorted_wrt_append takeWhile_dropWhile_id)

lemma sorted_wrt_dropWhile: "sorted_wrt P xs \<Longrightarrow> sorted_wrt P (dropWhile Q xs)"
  by (metis sorted_wrt_append takeWhile_dropWhile_id)

lemma take_append_drop_same [simp]: "take (length xs) (xs @ drop n ys) = xs"
  by simp

lemma length_append_drop [simp]: "n \<le> length ys \<Longrightarrow> length xs = n \<Longrightarrow> length (xs @ drop n ys) = length ys"
  by simp

lemma sum_list_map_update:
  fixes f :: "'a \<Rightarrow> int"
  shows "i < length xs \<Longrightarrow> (\<Sum>x\<leftarrow>xs[i := y]. f x) = (\<Sum>x\<leftarrow>xs. f x) + f y - f (xs ! i)"
  by (induction xs arbitrary: i) (auto split: nat.split)

text \<open>The number of elements with a property, as the counters of the programs have it.\<close>

definition n_of :: "('a \<Rightarrow> bool) \<Rightarrow> 'a list \<Rightarrow> int" where
  "n_of P xs = (\<Sum>x\<leftarrow>xs. of_bool (P x))"

lemma n_of_simps [simp]: "n_of P [] = 0" "n_of P (x # xs) = of_bool (P x) + n_of P xs"
  by (simp_all add: n_of_def)

lemma n_of_update: "i < length xs \<Longrightarrow> n_of P (xs[i := y]) = n_of P xs - of_bool (P (xs ! i)) + of_bool (P y)"
  by (simp add: n_of_def sum_list_map_update)

lemma n_of_ge [simp]: "0 \<le> n_of P xs"
  by (induction xs) simp_all

lemma n_of_pos: "0 < n_of P xs \<longleftrightarrow> (\<exists>x \<in> set xs. P x)"
proof (induction xs)
  case (Cons x xs)
  then show ?case
    by (cases "P x") (auto simp: add_pos_nonneg)
qed simp

lemma n_of_lt: "n_of P xs \<le> int (length xs) \<and> (n_of P xs < int (length xs) \<longleftrightarrow> (\<exists>x \<in> set xs. \<not> P x))"
  by (induction xs) (auto simp: of_bool_def)

lemma n_of_replicate [simp]: "n_of P (replicate n x) = int n * of_bool (P x)"
  by (induction n) (auto simp: of_bool_def)

lemma sum_list_update_add:
  fixes f :: "'a \<Rightarrow> 'm::comm_monoid_add"
  shows "i < length xs \<Longrightarrow> f y = f (xs ! i) + d \<Longrightarrow> (\<Sum>x\<leftarrow>xs[i := y]. f x) = (\<Sum>x\<leftarrow>xs. f x) + d"
  by (induction xs arbitrary: i) (auto simp: ac_simps split: nat.split)

subsection \<open>Words\<close>

lemma uint_of_int_bounded:
  "0 \<le> n \<Longrightarrow> n < 2 ^ LENGTH('a::len) \<Longrightarrow> uint (word_of_int n :: 'a word) = n"
  by (simp add: uint_word_of_int_eq take_bit_int_eq_self)

lemma unat_plus_one: "unat x + 1 < 2 ^ LENGTH('a) \<Longrightarrow> unat (x + 1 :: 'a::len word) = Suc (unat x)"
  by (simp add: unat_word_ariths(1))

lemma unat_minus_one_Suc: "(x :: 'a::len word) \<noteq> 0 \<Longrightarrow> unat x = Suc (unat (x - 1))"
  by (simp add: unat_gt_0 unat_minus_one)

lemma unat_plus_one_le: "unat (x + 1 :: 'a::len word) \<le> Suc (unat x)"
  by (simp add: unat_word_ariths(1))

lemma of_nat_word_inj:
  "m < 2 ^ LENGTH('a) \<Longrightarrow> n < 2 ^ LENGTH('a) \<Longrightarrow> (of_nat m :: 'a::len word) = of_nat n \<Longrightarrow> m = n"
  by (metis mod_less unat_of_nat)

subsection \<open>Flags\<close>

text \<open>Constants of the platform's \<^verbatim>\<open>fcntl.h\<close> that several components test.\<close>

definition O_NONBLOCK :: int where
  "O_NONBLOCK = 2048"

definition O_CREAT :: int where
  "O_CREAT = 0x40"

definition O_EXCL :: int where
  "O_EXCL = 0x80"

definition O_RDWR :: int where
  "O_RDWR = 2"

end
