(* ===== verification/MsgQueueSpec.thy ===== *)
theory MsgQueueSpec
  imports Prelude
begin

text \<open>
  The contract of a Posix message queue as its clients use it: a bounded list of messages in
  decreasing priority. A new message is placed after every message of its own or a higher
  priority, and a receiver gets the first one. The interface is the locale
  \<open>priority_mq\<close>; inside it, a sequence of sends followed by receives is shown to deliver
  the messages by a stable sort on the priority.
\<close>

type_synonym pmsg = "u32 \<times> byte list"

fun prio_insert :: "pmsg \<Rightarrow> pmsg list \<Rightarrow> pmsg list" where
  "prio_insert x [] = [x]"
| "prio_insert x (y # ys) = (if fst y < fst x then x # y # ys else y # prio_insert x ys)"

text \<open>Clients: send a list of messages; receive a number of messages.\<close>

primrec mq_send_all :: "(byte list \<Rightarrow> u32 \<Rightarrow> 'q \<Rightarrow> 'q) \<Rightarrow> pmsg list \<Rightarrow> 'q \<Rightarrow> 'q" where
  "mq_send_all send [] q = q"
| "mq_send_all send (x # xs) q = mq_send_all send xs (send (snd x) (fst x) q)"

primrec mq_drain :: "('q \<Rightarrow> (pmsg \<times> 'q) option) \<Rightarrow> nat \<Rightarrow> 'q \<Rightarrow> pmsg list \<times> 'q" where
  "mq_drain recv 0 q = ([], q)"
| "mq_drain recv (Suc n) q =
     (case recv q of None \<Rightarrow> ([], q)
      | Some (x, q') \<Rightarrow> (case mq_drain recv n q' of (xs, q'') \<Rightarrow> (x # xs, q'')))"

lemma prio_insert_split:
  "prio_insert x ys =
     takeWhile (\<lambda>y. fst x \<le> fst y) ys @ x # dropWhile (\<lambda>y. fst x \<le> fst y) ys"
  by (induction ys) (auto simp: not_less)

lemma length_prio_insert [simp]: "length (prio_insert x ys) = Suc (length ys)"
  by (induction ys) auto

lemma mset_prio_insert [simp]: "mset (prio_insert x ys) = add_mset x (mset ys)"
  by (induction ys) auto

lemma set_prio_insert: "set (prio_insert x ys) = insert x (set ys)"
  by (induction ys) auto

abbreviation prio_key :: "pmsg \<Rightarrow> int" where
  "prio_key x \<equiv> - uint (fst x)"

lemma prio_key_le: "(prio_key x \<le> prio_key y) = (fst y \<le> fst x)"
  by (simp add: word_le_def)

lemma sorted_prio_insert: "sorted (map prio_key ys) \<Longrightarrow> sorted (map prio_key (prio_insert x ys))"
  by (induction ys) (auto simp: set_prio_insert word_le_def word_less_def)

lemma filter_prio_insert:
  assumes "sorted (map prio_key ys)"
  shows "filter (\<lambda>y. prio_key k = prio_key y) (prio_insert x ys) =
    filter (\<lambda>y. prio_key k = prio_key y) (ys @ [x])"
  using assms
proof (induction ys)
  case Nil
  then show ?case by simp
next
  case (Cons y ys)
  show ?case
  proof (cases "fst y < fst x \<and> prio_key k = prio_key x")
    case True
    then have "\<forall>z \<in> set (y # ys). prio_key k \<noteq> prio_key z"
      using Cons.prems by (fastforce simp: word_less_def)
    then have "filter (\<lambda>y. prio_key k = prio_key y) (y # ys) = []" by (simp add: filter_empty_conv)
    with True show ?thesis by (auto split: if_splits)
  next
    case False
    with Cons show ?thesis by auto
  qed
qed

lemma foldl_prio_insert_sorted:
  "sorted (map prio_key ys) \<Longrightarrow> sorted (map prio_key (foldl (\<lambda>q x. prio_insert x q) ys xs))"
  by (induction xs arbitrary: ys) (simp_all add: sorted_prio_insert)

lemma foldl_prio_insert_filter:
  "sorted (map prio_key ys) \<Longrightarrow>
     filter (\<lambda>y. prio_key k = prio_key y) (foldl (\<lambda>q x. prio_insert x q) ys xs) =
     filter (\<lambda>y. prio_key k = prio_key y) (ys @ xs)"
proof (induction xs arbitrary: ys)
  case Nil
  then show ?case by simp
next
  case (Cons x xs)
  show ?case using Cons.IH [OF sorted_prio_insert [OF Cons.prems]] filter_prio_insert [OF Cons.prems]
    by (simp add: filter_append)
qed

lemma foldl_prio_insert_mset: "mset (foldl (\<lambda>q x. prio_insert x q) ys xs) = mset ys + mset xs"
  by (induction xs arbitrary: ys) (simp_all add: mset_prio_insert)

lemma foldl_prio_insert_sort: "foldl (\<lambda>q x. prio_insert x q) [] xs = sort_key prio_key xs"
proof (rule sym, rule properties_for_sort_key)
  show "mset (foldl (\<lambda>q x. prio_insert x q) [] xs) = mset xs" by (simp add: foldl_prio_insert_mset)
  show "sorted (map prio_key (foldl (\<lambda>q x. prio_insert x q) [] xs))" by (simp add: foldl_prio_insert_sorted)
next
  fix k
  show "filter (\<lambda>x. prio_key k = prio_key x) (foldl (\<lambda>q x. prio_insert x q) [] xs) =
    filter (\<lambda>x. prio_key k = prio_key x) xs"
    using foldl_prio_insert_filter [of "[]" k xs] by simp
qed

locale priority_mq =
  fixes inv :: "'q \<Rightarrow> bool"
    and contents :: "'q \<Rightarrow> pmsg list"
    and capacity :: "'q \<Rightarrow> nat"
    and msgsize :: "'q \<Rightarrow> nat"
    and send :: "byte list \<Rightarrow> u32 \<Rightarrow> 'q \<Rightarrow> 'q"
    and recv :: "'q \<Rightarrow> (pmsg \<times> 'q) option"
  assumes send_law:
    "inv q \<Longrightarrow> length (contents q) < capacity q \<Longrightarrow> length b \<le> msgsize q \<Longrightarrow>
       inv (send b p q) \<and> contents (send b p q) = prio_insert (p, b) (contents q) \<and>
       capacity (send b p q) = capacity q \<and> msgsize (send b p q) = msgsize q"
    and recv_law:
    "inv q \<Longrightarrow> contents q = x # xs \<Longrightarrow> \<exists>q'. recv q = Some (x, q') \<and> inv q' \<and> contents q' = xs \<and>
       capacity q' = capacity q \<and> msgsize q' = msgsize q"
    and recv_empty: "inv q \<Longrightarrow> contents q = [] \<Longrightarrow> recv q = None"
begin

lemma send_all_contents:
  assumes "inv q" "length (contents q) + length xs \<le> capacity q" "\<forall>x \<in> set xs. length (snd x) \<le> msgsize q"
  shows "inv (mq_send_all send xs q) \<and>
    contents (mq_send_all send xs q) = foldl (\<lambda>q x. prio_insert x q) (contents q) xs"
  using assms
proof (induction xs arbitrary: q)
  case Nil
  then show ?case by simp
next
  case (Cons x xs)
  let ?q = "send (snd x) (fst x) q"
  have s: "inv ?q" "contents ?q = prio_insert x (contents q)" "capacity ?q = capacity q" "msgsize ?q = msgsize q"
    using send_law [of q "snd x" "fst x"] Cons.prems by simp_all
  show ?case using Cons.IH [OF s(1)] Cons.prems s by simp
qed

lemma drain_contents:
  "inv q \<Longrightarrow> \<exists>q'. mq_drain recv (length (contents q)) q = (contents q, q') \<and> inv q' \<and> contents q' = []"
proof (induction "contents q" arbitrary: q)
  case Nil
  then show ?case by simp
next
  case (Cons x xs)
  from recv_law [OF Cons.prems Cons.hyps(2) [symmetric]]
  obtain q' where q': "recv q = Some (x, q')" "inv q'" "contents q' = xs" by blast
  obtain q'' where "mq_drain recv (length xs) q' = (xs, q'')" "inv q''" "contents q'' = []"
    using Cons.hyps(1) [of q'] q' by auto
  with q' Cons.hyps(2) [symmetric] show ?case by auto
qed

lemma send_all_drain:
  assumes "inv q" "contents q = []" "length xs \<le> capacity q" "\<forall>x \<in> set xs. length (snd x) \<le> msgsize q"
  shows "\<exists>q'. mq_drain recv (length xs) (mq_send_all send xs q) = (sort_key prio_key xs, q') \<and>
    inv q' \<and> contents q' = []"
proof -
  let ?q = "mq_send_all send xs q"
  have s: "inv ?q" "contents ?q = sort_key prio_key xs"
    using send_all_contents [of q xs] assms by (simp_all add: foldl_prio_insert_sort)
  then show ?thesis using drain_contents [OF s(1)] by simp
qed

end

end
