(* ===== verification/MsgQueue.thy ===== *)
theory MsgQueue
  imports MsgQueueSpec
begin

unbundle bit_operations_syntax

text \<open>
  Posix message queues over a memory-mapped file (\<^verbatim>\<open>src/unixipc/my_pxmsg_mmap\<close>).
  The mapped file is a header followed by \<open>mq_maxmsg\<close> fixed-size slots; the messages on
  the queue and the free slots are two singly linked lists whose links are byte offsets
  into the file, zero being the null link. A call is one critical section under
  \<open>mqh_lock\<close>: it returns a value, blocks on the condition variable \<open>mqh_wait\<close>, or
  dumps core, and it may signal the condition variable or queue a signal to a process.
\<close>

subsection \<open>Data\<close>

record mymq_attr =
  mq_flags :: int
  mq_maxmsg :: int
  mq_msgsize :: int
  mq_curmsgs :: int

text \<open>The fields of the system's \<^verbatim>\<open>struct sigevent\<close> that the code reads.\<close>

record sigevent =
  sigev_notify :: int
  sigev_signo :: int
  sigev_val :: int

record mymq_hdr =
  mqh_attr :: mymq_attr
  mqh_head :: int
  mqh_free :: int
  mqh_nwait :: int
  mqh_pid :: int
  mqh_event :: sigevent

text \<open>A slot: the message header followed by the bytes of the message area.\<close>

record mymsg_hdr =
  msg_next :: int
  msg_len :: int
  msg_prio :: u32
  msg_data :: "byte list"

record mymq_info =
  mqi_magic :: int
  mqi_flags :: int

text \<open>The mapped region: \<open>mqi_hdr\<close> of the code points at it.\<close>

record mq_region =
  mq_hdr :: mymq_hdr
  mq_slot :: "int \<Rightarrow> mymsg_hdr"

text \<open>Structure sizes of the platform's C ABI.\<close>

record abi =
  sizeof_mymq_hdr :: int
  sizeof_mymsg_hdr :: int
  sizeof_long :: int

definition abi_ok :: "abi \<Rightarrow> bool" where
  "abi_ok a \<longleftrightarrow> 0 < sizeof_mymq_hdr a \<and> 0 < sizeof_mymsg_hdr a \<and> 0 < sizeof_long a"

definition MQI_MAGIC :: int where
  "MQI_MAGIC = 0x98765432"

definition SIGEV_SIGNAL :: int where
  "SIGEV_SIGNAL = 0"

definition MSGSIZE :: "abi \<Rightarrow> int \<Rightarrow> int" where
  "MSGSIZE a i = ((i + sizeof_long a - 1) div sizeof_long a) * sizeof_long a"

definition mq_stride :: "abi \<Rightarrow> int \<Rightarrow> int" where
  "mq_stride a msgsize = sizeof_mymsg_hdr a + MSGSIZE a msgsize"

text \<open>
  \<open>filesize\<close> of \<open>mymq_open\<close> and \<open>mymq_close\<close>: the operands of \<^verbatim>\<open>sizeof\<close> make it
  unsigned 64-bit arithmetic.
\<close>

definition mq_filesize :: "abi \<Rightarrow> mymq_attr \<Rightarrow> u64" where
  "mq_filesize a attr =
     word_of_int (sizeof_mymq_hdr a) +
     word_of_int (mq_maxmsg attr) *
       (word_of_int (sizeof_mymsg_hdr a) + word_of_int (MSGSIZE a (mq_msgsize attr)))"

definition defattr :: mymq_attr where
  "defattr = \<lparr>mq_flags = 0, mq_maxmsg = 128, mq_msgsize = 1024, mq_curmsgs = 0\<rparr>"

subsection \<open>Results and effects of a call\<close>

text \<open>
  \<open>MqRet\<close>: the call returned; \<open>MqWait\<close>: the calling thread is blocked in
  \<^verbatim>\<open>pthread_cond_wait\<close>; \<open>MqDump\<close>: \<^verbatim>\<open>err_dump\<close> was called; \<open>MqHang\<close>: the
  search loop never ends.
\<close>

datatype 'r mq_call = MqRet "errno + 'r" | MqWait | MqDump | MqHang

record mq_eff =
  eff_signal :: bool
  eff_sigqueue :: "(int \<times> int \<times> int) option"

definition no_eff :: mq_eff where
  [out_defs]: "no_eff = \<lparr>eff_signal = False, eff_sigqueue = None\<rparr>"

type_synonym 'r mq_out = "mq_region \<times> mq_eff \<times> 'r mq_call"

abbreviation mq_attr :: "mq_region \<Rightarrow> mymq_attr" where
  "mq_attr m \<equiv> mqh_attr (mq_hdr m)"

definition upd_hdr :: "(mymq_hdr \<Rightarrow> mymq_hdr) \<Rightarrow> mq_region \<Rightarrow> mq_region" where
  "upd_hdr f m = m\<lparr>mq_hdr := f (mq_hdr m)\<rparr>"

definition upd_slot :: "int \<Rightarrow> (mymsg_hdr \<Rightarrow> mymsg_hdr) \<Rightarrow> mq_region \<Rightarrow> mq_region" where
  "upd_slot i f m = m\<lparr>mq_slot := (mq_slot m)(i := f (mq_slot m i))\<rparr>"

definition add_curmsgs :: "int \<Rightarrow> mq_region \<Rightarrow> mq_region" where
  "add_curmsgs d = upd_hdr (\<lambda>h. h\<lparr>mqh_attr := (mqh_attr h)\<lparr>mq_curmsgs := mq_curmsgs (mqh_attr h) + d\<rparr>\<rparr>)"

subsection \<open>mq_open: initialisation of a new queue\<close>

text \<open>The loop that threads all slots onto the free list; the count is the iterations left.\<close>

fun mq_init_free :: "nat \<Rightarrow> int \<Rightarrow> int \<Rightarrow> mq_region \<Rightarrow> mq_region" where
  "mq_init_free 0 index stride m = upd_slot index (\<lambda>s. s\<lparr>msg_next := 0\<rparr>) m"
| "mq_init_free (Suc n) index stride m =
     mq_init_free n (index + stride) stride (upd_slot index (\<lambda>s. s\<lparr>msg_next := index + stride\<rparr>) m)"

definition mq_init :: "abi \<Rightarrow> mymq_attr \<Rightarrow> mq_region \<Rightarrow> mq_region" where
  "mq_init a attr m =
     (let index = sizeof_mymq_hdr a;
          m1 = upd_hdr (\<lambda>h. h\<lparr>mqh_attr := \<lparr>mq_flags = 0, mq_maxmsg = mq_maxmsg attr,
                                          mq_msgsize = mq_msgsize attr, mq_curmsgs = 0\<rparr>,
                              mqh_nwait := 0, mqh_pid := 0, mqh_head := 0, mqh_free := index\<rparr>) m
      in mq_init_free (nat (mq_maxmsg attr - 1)) index (mq_stride a (mq_msgsize attr)) m1)"

subsection \<open>mq_send\<close>

text \<open>
  \<open>pmsghdr\<close> points at the field that will be overwritten: the header's \<open>mqh_head\<close> or
  the \<open>msg_next\<close> of a slot.
\<close>

datatype mq_link = HeadLink | SlotLink int

fun set_next :: "mq_link \<Rightarrow> int \<Rightarrow> mq_region \<Rightarrow> mq_region" where
  "set_next HeadLink i m = upd_hdr (\<lambda>h. h\<lparr>mqh_head := i\<rparr>) m"
| "set_next (SlotLink j) i m = upd_slot j (\<lambda>s. s\<lparr>msg_next := i\<rparr>) m"

text \<open>The search loop: the index where the loop stops and the link before it.\<close>

partial_function (option) mq_find ::
  "u32 \<Rightarrow> (int \<Rightarrow> mymsg_hdr) \<Rightarrow> int \<Rightarrow> mq_link \<Rightarrow> (int \<times> mq_link) option" where
  "mq_find prio sl index p =
     (if index = 0 then Some (0, p)
      else if msg_prio (sl index) < prio then Some (index, p)
      else mq_find prio sl (msg_next (sl index)) (SlotLink index))"

declare mq_find.simps [code]

text \<open>The part of \<open>mymq_send\<close> after the wait for room (the second half of the function).\<close>

definition mq_send2 :: "byte list \<Rightarrow> u32 \<Rightarrow> mq_region \<Rightarrow> unit mq_out" where
  "mq_send2 msg prio m =
     (let freeindex = mqh_free (mq_hdr m) in
      if freeindex = 0 then (m, no_eff, MqDump)
      else
        let m1 = upd_slot freeindex
                   (\<lambda>s. s\<lparr>msg_prio := prio, msg_len := int (length msg),
                         msg_data := msg @ drop (length msg) (msg_data s)\<rparr>) m;
            m2 = upd_hdr (\<lambda>h. h\<lparr>mqh_free := msg_next (mq_slot m1 freeindex)\<rparr>) m1
        in case mq_find prio (mq_slot m2) (mqh_head (mq_hdr m2)) HeadLink of
             None \<Rightarrow> (m2, no_eff, MqHang)
           | Some (index, p) \<Rightarrow>
               let m3 = (if index \<noteq> 0
                         then set_next p freeindex (set_next (SlotLink freeindex) index m2)
                         else set_next (SlotLink freeindex) 0 (set_next p freeindex m2));
                   sig = (mq_curmsgs (mq_attr m3) = 0)
               in (add_curmsgs 1 m3, no_eff\<lparr>eff_signal := sig\<rparr>, MqRet (Inr ())))"

text \<open>
  \<open>mymq_send\<close> up to its first blocking point. \<open>lk\<close> is the outcome of
  \<^verbatim>\<open>pthread_mutex_lock\<close>. A thread woken up in \<^verbatim>\<open>pthread_cond_wait\<close> continues with
  \<open>mymq_send_resume\<close>.
\<close>

definition mymq_send_resume :: "byte list \<Rightarrow> u32 \<Rightarrow> mq_region \<Rightarrow> unit mq_out" where
  "mymq_send_resume msg prio m =
     (if mq_curmsgs (mq_attr m) \<ge> mq_maxmsg (mq_attr m) then (m, no_eff, MqWait)
      else mq_send2 msg prio m)"

definition mymq_send ::
  "mymq_info \<Rightarrow> errno option \<Rightarrow> byte list \<Rightarrow> u32 \<Rightarrow> mq_region \<Rightarrow> unit mq_out" where
  "mymq_send info lk msg prio m =
     (if mqi_magic info \<noteq> MQI_MAGIC then (m, no_eff, MqRet (Inl EBADF))
      else case lk of Some n \<Rightarrow> (m, no_eff, MqRet (Inl n)) | None \<Rightarrow>
      if int (length msg) > mq_msgsize (mq_attr m) then (m, no_eff, MqRet (Inl EMSGSIZE))
      else if mq_curmsgs (mq_attr m) = 0 then
        (if mqh_pid (mq_hdr m) \<noteq> 0 \<and> mqh_nwait (mq_hdr m) = 0 then
           let ev = mqh_event (mq_hdr m);
               sq = (if sigev_notify ev = SIGEV_SIGNAL
                     then Some (mqh_pid (mq_hdr m), sigev_signo ev, sigev_val ev) else None);
               (m', e, r) = mq_send2 msg prio (upd_hdr (\<lambda>h. h\<lparr>mqh_pid := 0\<rparr>) m)
           in (m', e\<lparr>eff_sigqueue := sq\<rparr>, r)
         else mq_send2 msg prio m)
      else if mq_curmsgs (mq_attr m) \<ge> mq_maxmsg (mq_attr m) then
        (if mqi_flags info AND O_NONBLOCK \<noteq> 0 then (m, no_eff, MqRet (Inl EAGAIN))
         else (m, no_eff, MqWait))
      else mq_send2 msg prio m)"

subsection \<open>mq_receive\<close>

text \<open>The part of \<open>mymq_receive\<close> after the wait for a message.\<close>

definition mq_receive2 :: "mq_region \<Rightarrow> (byte list \<times> u32) mq_out" where
  "mq_receive2 m =
     (let index = mqh_head (mq_hdr m) in
      if index = 0 then (m, no_eff, MqDump)
      else
        let s = mq_slot m index;
            m1 = upd_hdr (\<lambda>h. h\<lparr>mqh_head := msg_next s\<rparr>) m;
            r = (take (nat (msg_len s)) (msg_data s), msg_prio s);
            m2 = upd_slot index (\<lambda>t. t\<lparr>msg_next := mqh_free (mq_hdr m1)\<rparr>) m1;
            m3 = upd_hdr (\<lambda>h. h\<lparr>mqh_free := index\<rparr>) m2;
            sig = (mq_curmsgs (mq_attr m3) = mq_maxmsg (mq_attr m3))
        in (add_curmsgs (-1) m3, no_eff\<lparr>eff_signal := sig\<rparr>, MqRet (Inr r)))"

definition add_nwait :: "int \<Rightarrow> mq_region \<Rightarrow> mq_region" where
  "add_nwait d = upd_hdr (\<lambda>h. h\<lparr>mqh_nwait := mqh_nwait h + d\<rparr>)"

definition mymq_receive_resume :: "mq_region \<Rightarrow> (byte list \<times> u32) mq_out" where
  "mymq_receive_resume m =
     (if mq_curmsgs (mq_attr m) = 0 then (m, no_eff, MqWait)
      else mq_receive2 (add_nwait (-1) m))"

definition mymq_receive ::
  "mymq_info \<Rightarrow> errno option \<Rightarrow> nat \<Rightarrow> mq_region \<Rightarrow> (byte list \<times> u32) mq_out" where
  "mymq_receive info lk maxlen m =
     (if mqi_magic info \<noteq> MQI_MAGIC then (m, no_eff, MqRet (Inl EBADF))
      else case lk of Some n \<Rightarrow> (m, no_eff, MqRet (Inl n)) | None \<Rightarrow>
      if int maxlen < mq_msgsize (mq_attr m) then (m, no_eff, MqRet (Inl EMSGSIZE))
      else if mq_curmsgs (mq_attr m) = 0 then
        (if mqi_flags info AND O_NONBLOCK \<noteq> 0 then (m, no_eff, MqRet (Inl EAGAIN))
         else (add_nwait 1 m, no_eff, MqWait))
      else mq_receive2 m)"

subsection \<open>mq_getattr, mq_setattr, mq_notify, mq_close\<close>

definition mq_status :: "mymq_info \<Rightarrow> mq_region \<Rightarrow> mymq_attr" where
  "mq_status info m = (mq_attr m)\<lparr>mq_flags := mqi_flags info\<rparr>"

definition mymq_getattr :: "mymq_info \<Rightarrow> errno option \<Rightarrow> mq_region \<Rightarrow> mymq_attr res" where
  "mymq_getattr info lk m =
     (if mqi_magic info \<noteq> MQI_MAGIC then Inl EBADF
      else case lk of Some n \<Rightarrow> Inl n | None \<Rightarrow> Inr (mq_status info m))"

text \<open>The result is the previous attributes, stored when \<open>omqstat\<close> is not null.\<close>

definition mymq_setattr ::
  "mymq_info \<Rightarrow> errno option \<Rightarrow> mymq_attr \<Rightarrow> mq_region \<Rightarrow> mymq_info \<times> mymq_attr res" where
  "mymq_setattr info lk mqstat m =
     (if mqi_magic info \<noteq> MQI_MAGIC then (info, Inl EBADF)
      else case lk of Some n \<Rightarrow> (info, Inl n) | None \<Rightarrow>
        (info\<lparr>mqi_flags := (if mq_flags mqstat AND O_NONBLOCK \<noteq> 0
                           then mqi_flags info OR O_NONBLOCK
                           else mqi_flags info AND (NOT O_NONBLOCK))\<rparr>,
         Inr (mq_status info m)))"

text \<open>
  \<open>kill0\<close> is the outcome of \<^verbatim>\<open>kill(pid, 0)\<close> for the registered process: \<open>None\<close> when it
  succeeds, else the error code.
\<close>

definition mymq_notify ::
  "mymq_info \<Rightarrow> errno option \<Rightarrow> int \<Rightarrow> (int \<Rightarrow> errno option) \<Rightarrow> sigevent option \<Rightarrow> mq_region
     \<Rightarrow> mq_region \<times> unit res" where
  "mymq_notify info lk pid kill0 notification m =
     (if mqi_magic info \<noteq> MQI_MAGIC then (m, Inl EBADF)
      else case lk of Some n \<Rightarrow> (m, Inl n) | None \<Rightarrow>
      case notification of
        None \<Rightarrow>
          (if mqh_pid (mq_hdr m) = pid then (upd_hdr (\<lambda>h. h\<lparr>mqh_pid := 0\<rparr>) m, Inr ()) else (m, Inr ()))
      | Some ev \<Rightarrow>
          if mqh_pid (mq_hdr m) \<noteq> 0 \<and>
             (kill0 (mqh_pid (mq_hdr m)) = None \<or> kill0 (mqh_pid (mq_hdr m)) \<noteq> Some ESRCH)
          then (m, Inl EBUSY)
          else (upd_hdr (\<lambda>h. h\<lparr>mqh_pid := pid, mqh_event := ev\<rparr>) m, Inr ()))"

text \<open>
  The result carries the length passed to \<^verbatim>\<open>munmap\<close>; \<open>unmap\<close> is the outcome of
  \<^verbatim>\<open>munmap\<close>.
\<close>

definition mymq_close ::
  "abi \<Rightarrow> mymq_info \<Rightarrow> errno option \<Rightarrow> int \<Rightarrow> (int \<Rightarrow> errno option) \<Rightarrow> (u64 \<Rightarrow> errno option)
     \<Rightarrow> mq_region \<Rightarrow> mymq_info \<times> mq_region \<times> u64 res" where
  "mymq_close a info lk pid kill0 unmap m =
     (if mqi_magic info \<noteq> MQI_MAGIC then (info, m, Inl EBADF)
      else case mymq_notify info lk pid kill0 None m of
        (m', Inl e) \<Rightarrow> (info, m', Inl e)
      | (m', Inr _) \<Rightarrow>
          let filesize = mq_filesize a (mq_attr m') in
          case unmap filesize of
            Some e \<Rightarrow> (info, m', Inl e)
          | None \<Rightarrow> (info\<lparr>mqi_magic := 0\<rparr>, m', Inr filesize))"


subsection \<open>Abstract contents and the representation invariant\<close>

abbreviation mq_next :: "mq_region \<Rightarrow> int \<Rightarrow> int" where
  "mq_next m i \<equiv> msg_next (mq_slot m i)"

definition slot_msg :: "mymsg_hdr \<Rightarrow> pmsg" where
  "slot_msg s = (msg_prio s, take (nat (msg_len s)) (msg_data s))"

fun mq_walk :: "nat \<Rightarrow> (int \<Rightarrow> mymsg_hdr) \<Rightarrow> int \<Rightarrow> int list" where
  "mq_walk 0 sl i = []"
| "mq_walk (Suc n) sl i = (if i = 0 then [] else i # mq_walk n sl (msg_next (sl i)))"

text \<open>The messages on the queue, in the order the linked list has them.\<close>

definition mq_contents :: "mq_region \<Rightarrow> pmsg list" where
  "mq_contents m =
     map (slot_msg \<circ> mq_slot m) (mq_walk (nat (mq_maxmsg (mq_attr m))) (mq_slot m) (mqh_head (mq_hdr m)))"

definition slot_addrs :: "abi \<Rightarrow> mymq_attr \<Rightarrow> int list" where
  "slot_addrs a attr =
     map (\<lambda>k. sizeof_mymq_hdr a + int k * mq_stride a (mq_msgsize attr)) [0..<nat (mq_maxmsg attr)]"

text \<open>
  \<open>mq_rel a m qs fs\<close>: the message list of \<open>m\<close> visits the slots \<open>qs\<close>, the free list the
  slots \<open>fs\<close>; together they are all slots of the file, each once; the counters agree with
  the lists; the messages are in decreasing priority and fit their slots.
\<close>

definition mq_rel :: "abi \<Rightarrow> mq_region \<Rightarrow> int list \<Rightarrow> int list \<Rightarrow> bool" where
  "mq_rel a m qs fs \<longleftrightarrow>
     abi_ok a \<and> 0 < mq_maxmsg (mq_attr m) \<and> 0 < mq_msgsize (mq_attr m) \<and>
     chain (mq_next m) 0 (mqh_head (mq_hdr m)) qs \<and>
     chain (mq_next m) 0 (mqh_free (mq_hdr m)) fs \<and>
     mset (qs @ fs) = mset (slot_addrs a (mq_attr m)) \<and>
     mq_curmsgs (mq_attr m) = int (length qs) \<and>
     sorted_wrt (\<lambda>i j. msg_prio (mq_slot m j) \<le> msg_prio (mq_slot m i)) qs \<and>
     (\<forall>i \<in> set qs. 0 \<le> msg_len (mq_slot m i) \<and> msg_len (mq_slot m i) \<le> mq_msgsize (mq_attr m)) \<and>
     (\<forall>i \<in> set (qs @ fs). int (length (msg_data (mq_slot m i))) = MSGSIZE a (mq_msgsize (mq_attr m)))"

definition mq_inv :: "abi \<Rightarrow> mq_region \<Rightarrow> bool" where
  "mq_inv a m \<longleftrightarrow> (\<exists>qs fs. mq_rel a m qs fs)"

subsection \<open>Layout of the file\<close>

lemma MSGSIZE_bounds:
  assumes "0 < sizeof_long a"
  shows "i \<le> MSGSIZE a i" "MSGSIZE a i < i + sizeof_long a"
proof -
  let ?L = "sizeof_long a" and ?n = "i + sizeof_long a - 1"
  have "?n div ?L * ?L = ?n - ?n mod ?L" by (simp add: minus_mod_eq_div_mult [symmetric])
  moreover have "0 \<le> ?n mod ?L" "?n mod ?L < ?L" using assms by auto
  ultimately show "i \<le> MSGSIZE a i" "MSGSIZE a i < i + sizeof_long a"
    by (simp_all add: MSGSIZE_def)
qed

lemma MSGSIZE_dvd: "sizeof_long a dvd MSGSIZE a i"
  by (simp add: MSGSIZE_def)

lemma mq_stride_pos: "abi_ok a \<Longrightarrow> 0 < i \<Longrightarrow> 0 < mq_stride a i"
  using MSGSIZE_bounds(1) [of a i] by (simp add: abi_ok_def mq_stride_def)

lemma slot_addrs_pos: "abi_ok a \<Longrightarrow> 0 < mq_msgsize attr \<Longrightarrow> i \<in> set (slot_addrs a attr) \<Longrightarrow> 0 < i"
  using mq_stride_pos [of a "mq_msgsize attr"]
  by (auto simp: slot_addrs_def abi_ok_def intro: add_pos_nonneg)

lemma slot_addrs_distinct: "abi_ok a \<Longrightarrow> 0 < mq_msgsize attr \<Longrightarrow> distinct (slot_addrs a attr)"
  using mq_stride_pos [of a "mq_msgsize attr"]
  by (auto simp: slot_addrs_def distinct_map inj_on_def)

lemma length_slot_addrs [simp]: "length (slot_addrs a attr) = nat (mq_maxmsg attr)"
  by (simp add: slot_addrs_def)

lemma slot_addrs_range:
  assumes "abi_ok a" "0 < mq_msgsize attr" "i \<in> set (slot_addrs a attr)"
  shows "sizeof_mymq_hdr a \<le> i \<and>
    i + mq_stride a (mq_msgsize attr) \<le> sizeof_mymq_hdr a + mq_maxmsg attr * mq_stride a (mq_msgsize attr)"
proof -
  let ?st = "mq_stride a (mq_msgsize attr)"
  have st: "0 < ?st" by (rule mq_stride_pos [OF assms(1,2)])
  from assms(3) obtain k where k: "i = sizeof_mymq_hdr a + int k * ?st" "k \<in> set [0..<nat (mq_maxmsg attr)]"
    unfolding slot_addrs_def set_map by (rule imageE)
  then have k1: "int k + 1 \<le> mq_maxmsg attr" by simp
  have "(int k + 1) * ?st \<le> mq_maxmsg attr * ?st" using k1 st by (intro mult_right_mono) auto
  then show ?thesis using k(1) st by (simp add: algebra_simps)
qed

lemma mq_filesize_exact:
  assumes "abi_ok a" "0 < mq_maxmsg attr" "0 < mq_msgsize attr"
    and "sizeof_mymq_hdr a + mq_maxmsg attr * mq_stride a (mq_msgsize attr) < 2 ^ 64"
  shows "uint (mq_filesize a attr) = sizeof_mymq_hdr a + mq_maxmsg attr * mq_stride a (mq_msgsize attr)"
proof -
  let ?n = "sizeof_mymq_hdr a + mq_maxmsg attr * mq_stride a (mq_msgsize attr)"
  have "mq_filesize a attr = word_of_int ?n"
    by (simp add: mq_filesize_def mq_stride_def)
  moreover have "0 \<le> ?n"
    using assms(1,2) mq_stride_pos [OF assms(1,3)] by (simp add: abi_ok_def)
  ultimately show ?thesis using assms(4) uint_of_int_bounded [of ?n, where 'a = 64] by simp
qed

lemma upd_simps [simp]:
  "mq_slot (upd_hdr f m) = mq_slot m"
  "mq_hdr (upd_hdr f m) = f (mq_hdr m)"
  "mq_hdr (upd_slot i g m) = mq_hdr m"
  "mq_slot (upd_slot i g m) = (mq_slot m)(i := g (mq_slot m i))"
  by (simp_all add: upd_hdr_def upd_slot_def)

lemma add_curmsgs_simps [simp]:
  "mq_slot (add_curmsgs d m) = mq_slot m"
  "mqh_head (mq_hdr (add_curmsgs d m)) = mqh_head (mq_hdr m)"
  "mqh_free (mq_hdr (add_curmsgs d m)) = mqh_free (mq_hdr m)"
  "mqh_pid (mq_hdr (add_curmsgs d m)) = mqh_pid (mq_hdr m)"
  "mqh_event (mq_hdr (add_curmsgs d m)) = mqh_event (mq_hdr m)"
  "mqh_nwait (mq_hdr (add_curmsgs d m)) = mqh_nwait (mq_hdr m)"
  "mqh_attr (mq_hdr (add_curmsgs d m)) = (mq_attr m)\<lparr>mq_curmsgs := mq_curmsgs (mq_attr m) + d\<rparr>"
  by (simp_all add: add_curmsgs_def)

lemma add_nwait_simps [simp]:
  "mq_slot (add_nwait d m) = mq_slot m"
  "mqh_head (mq_hdr (add_nwait d m)) = mqh_head (mq_hdr m)"
  "mqh_free (mq_hdr (add_nwait d m)) = mqh_free (mq_hdr m)"
  "mqh_attr (mq_hdr (add_nwait d m)) = mq_attr m"
  "mqh_nwait (mq_hdr (add_nwait d m)) = mqh_nwait (mq_hdr m) + d"
  by (simp_all add: add_nwait_def)

lemma slot_addrs_curmsgs [simp]: "slot_addrs a (attr\<lparr>mq_curmsgs := c\<rparr>) = slot_addrs a attr"
  by (simp add: slot_addrs_def)

subsection \<open>Walking the lists\<close>

lemma mq_walk_chain:
  "chain (\<lambda>i. msg_next (sl i)) 0 i xs \<Longrightarrow> length xs \<le> n \<Longrightarrow> mq_walk n sl i = xs"
proof (induction xs arbitrary: i n)
  case Nil
  then show ?case by (cases n) auto
next
  case (Cons x xs)
  then show ?case by (cases n) auto
qed

lemma mq_rel_length: "mq_rel a m qs fs \<Longrightarrow> length qs + length fs = nat (mq_maxmsg (mq_attr m))"
  unfolding mq_rel_def by (metis length_append length_slot_addrs size_mset)

lemma mq_rel_distinct: "mq_rel a m qs fs \<Longrightarrow> distinct (qs @ fs)"
  unfolding mq_rel_def using slot_addrs_distinct mset_eq_imp_distinct_iff by metis

lemma mq_rel_contents:
  assumes "mq_rel a m qs fs"
  shows "mq_contents m = map (slot_msg \<circ> mq_slot m) qs"
proof -
  have "length qs \<le> nat (mq_maxmsg (mq_attr m))" using mq_rel_length [OF assms] by simp
  then have "mq_walk (nat (mq_maxmsg (mq_attr m))) (mq_slot m) (mqh_head (mq_hdr m)) = qs"
    using assms by (intro mq_walk_chain) (auto simp: mq_rel_def)
  then show ?thesis by (simp add: mq_contents_def)
qed

lemma mq_inv_curmsgs: "mq_inv a m \<Longrightarrow> mq_curmsgs (mq_attr m) = int (length (mq_contents m))"
  unfolding mq_inv_def using mq_rel_contents by (fastforce simp: mq_rel_def)

lemma mq_inv_bound: "mq_inv a m \<Longrightarrow> mq_curmsgs (mq_attr m) \<le> mq_maxmsg (mq_attr m)"
proof -
  assume "mq_inv a m"
  then obtain qs fs where r: "mq_rel a m qs fs" by (auto simp: mq_inv_def)
  then have "mq_curmsgs (mq_attr m) = int (length qs)" "0 < mq_maxmsg (mq_attr m)"
    by (simp_all add: mq_rel_def)
  then show ?thesis using mq_rel_length [OF r] by linarith
qed

lemma mq_find_chain:
  assumes "chain (\<lambda>i. msg_next (sl i)) 0 i xs"
  shows "mq_find prio sl i p =
    (let as = takeWhile (\<lambda>j. prio \<le> msg_prio (sl j)) xs; bs = dropWhile (\<lambda>j. prio \<le> msg_prio (sl j)) xs
     in Some (case bs of [] \<Rightarrow> 0 | b # _ \<Rightarrow> b, if as = [] then p else SlotLink (last as)))"
  using assms
proof (induction xs arbitrary: i p)
  case Nil
  then show ?case by (simp add: mq_find.simps)
next
  case (Cons x xs)
  then have i: "i = x" "x \<noteq> 0" and ch: "chain (\<lambda>i. msg_next (sl i)) 0 (msg_next (sl x)) xs" by auto
  show ?case
  proof (cases "msg_prio (sl x) < prio")
    case True
    then have "\<not> prio \<le> msg_prio (sl x)" by auto
    with True i show ?thesis by (simp add: mq_find.simps [of prio sl x])
  next
    case False
    then have le: "prio \<le> msg_prio (sl x)" by auto
    from False i have "mq_find prio sl i p = mq_find prio sl (msg_next (sl x)) (SlotLink x)"
      by (simp add: mq_find.simps [of prio sl x])
    with Cons.IH [OF ch] le show ?thesis by (simp add: Let_def)
  qed
qed

subsection \<open>Correctness of send and receive\<close>

lemma mq_rel_free_mem:
  assumes "mq_rel a m qs (f # fs)"
  shows "f \<notin> set qs" "f \<notin> set fs" "f \<noteq> 0" "mqh_free (mq_hdr m) = f"
    "chain (mq_next m) 0 (mq_next m f) fs"
  using assms mq_rel_distinct [OF assms] by (auto simp: mq_rel_def)

lemma mq_rel_room:
  assumes "mq_rel a m qs fs" "mq_curmsgs (mq_attr m) < mq_maxmsg (mq_attr m)"
  obtains f fs' where "fs = f # fs'"
proof -
  have "mq_curmsgs (mq_attr m) = int (length qs)" "0 < mq_maxmsg (mq_attr m)"
    using assms(1) by (simp_all add: mq_rel_def)
  then have "length fs \<noteq> 0" using assms(2) mq_rel_length [OF assms(1)] by linarith
  then show thesis using that by (cases fs) auto
qed

lemma takeWhile_slot_upd:
  assumes "f \<notin> set qs"
  shows "takeWhile (\<lambda>j. p \<le> msg_prio ((sl(f := s)) j)) qs = takeWhile (\<lambda>j. p \<le> msg_prio (sl j)) qs"
    and "dropWhile (\<lambda>j. p \<le> msg_prio ((sl(f := s)) j)) qs = dropWhile (\<lambda>j. p \<le> msg_prio (sl j)) qs"
  using assms by (auto intro!: takeWhile_cong dropWhile_cong)

text \<open>The region after a message has been written to slot \<open>f\<close> and linked before \<open>bs\<close>.\<close>

definition mq_linked :: "byte list \<Rightarrow> u32 \<Rightarrow> int \<Rightarrow> int list \<Rightarrow> int list \<Rightarrow> mq_region \<Rightarrow> mq_region" where
  "mq_linked msg prio f as bs m =
     add_curmsgs 1
       (upd_hdr (\<lambda>h. h\<lparr>mqh_free := mq_next m f, mqh_head := (if as = [] then f else mqh_head h)\<rparr>)
         (m\<lparr>mq_slot :=
             (let s = (mq_slot m)(f := (mq_slot m f)
                        \<lparr>msg_prio := prio, msg_len := int (length msg),
                         msg_data := msg @ drop (length msg) (msg_data (mq_slot m f)),
                         msg_next := (case bs of [] \<Rightarrow> 0 | b # _ \<Rightarrow> b)\<rparr>)
              in if as = [] then s else s(last as := (s (last as))\<lparr>msg_next := f\<rparr>))\<rparr>))"

lemma mq_send2_eq:
  assumes r: "mq_rel a m qs (f # fs)"
    and ab: "as = takeWhile (\<lambda>j. prio \<le> msg_prio (mq_slot m j)) qs"
      "bs = dropWhile (\<lambda>j. prio \<le> msg_prio (mq_slot m j)) qs"
  shows "mq_send2 msg prio m =
    (mq_linked msg prio f as bs m, no_eff\<lparr>eff_signal := (qs = [])\<rparr>, MqRet (Inr ()))"
proof -
  note f = mq_rel_free_mem [OF r]
  have ne: "as \<noteq> [] \<Longrightarrow> last as \<noteq> f"
    using f(1) ab(1) last_in_set set_takeWhileD by metis
  let ?s = "(mq_slot m f)\<lparr>msg_prio := prio, msg_len := int (length msg),
              msg_data := msg @ drop (length msg) (msg_data (mq_slot m f))\<rparr>"
  let ?sl = "(mq_slot m)(f := ?s)"
  have "(\<lambda>i. msg_next (?sl i)) = mq_next m" by auto
  then have ch: "chain (\<lambda>i. msg_next (?sl i)) 0 (mqh_head (mq_hdr m)) qs"
    using r by (simp add: mq_rel_def)
  have find: "mq_find prio ?sl (mqh_head (mq_hdr m)) HeadLink =
      Some (case bs of [] \<Rightarrow> 0 | b # _ \<Rightarrow> b, if as = [] then HeadLink else SlotLink (last as))"
    unfolding mq_find_chain [OF ch] takeWhile_slot_upd [OF f(1)] ab Let_def by (rule refl)
  have bs0: "0 \<notin> set bs"
    using r ab(2) chain_nonnil set_dropWhileD unfolding mq_rel_def by metis
  have cur: "(mq_curmsgs (mq_attr m) = 0) = (qs = [])" using r by (auto simp: mq_rel_def)
  show ?thesis
    using f(3,4) find bs0 ne cur
    by (cases "as = []"; cases bs)
      (simp_all add: mq_send2_def mq_linked_def Let_def upd_hdr_def upd_slot_def add_curmsgs_def
        fun_upd_twist fun_upd_def fun_eq_iff)
qed


lemma mq_linked_next:
  assumes "mq_rel a m qs (f # fs)" "qs = as @ bs"
  shows "mq_next (mq_linked msg prio f as bs m) =
    (let nx = (mq_next m)(f := (case bs of [] \<Rightarrow> 0 | b # _ \<Rightarrow> b))
     in if as = [] then nx else nx(last as := f))"
  using assms mq_rel_free_mem(1) [OF assms(1)]
  by (auto simp: mq_linked_def fun_eq_iff Let_def)

lemma mq_linked_prio:
  assumes "mq_rel a m qs (f # fs)" "qs = as @ bs"
  shows "msg_prio (mq_slot (mq_linked msg prio f as bs m) j) = (if j = f then prio else msg_prio (mq_slot m j))"
    and "msg_len (mq_slot (mq_linked msg prio f as bs m) j) = (if j = f then int (length msg) else msg_len (mq_slot m j))"
    and "msg_data (mq_slot (mq_linked msg prio f as bs m) j) =
       (if j = f then msg @ drop (length msg) (msg_data (mq_slot m f)) else msg_data (mq_slot m j))"
  using assms mq_rel_free_mem(1) [OF assms(1)] by (auto simp: mq_linked_def Let_def)

lemma mq_linked_hdr [simp]:
  "mqh_attr (mq_hdr (mq_linked msg prio f as bs m)) = (mq_attr m)\<lparr>mq_curmsgs := mq_curmsgs (mq_attr m) + 1\<rparr>"
  "mqh_head (mq_hdr (mq_linked msg prio f as bs m)) = (if as = [] then f else mqh_head (mq_hdr m))"
  "mqh_free (mq_hdr (mq_linked msg prio f as bs m)) = mq_next m f"
  "mqh_pid (mq_hdr (mq_linked msg prio f as bs m)) = mqh_pid (mq_hdr m)"
  "mqh_event (mq_hdr (mq_linked msg prio f as bs m)) = mqh_event (mq_hdr m)"
  "mqh_nwait (mq_hdr (mq_linked msg prio f as bs m)) = mqh_nwait (mq_hdr m)"
  by (simp_all add: mq_linked_def)

lemma sorted_wrt_insert_prio:
  fixes pr :: "'i \<Rightarrow> 'p::linorder"
  assumes "sorted_wrt (\<lambda>i j. pr j \<le> pr i) (as @ bs)"
    and "\<forall>j \<in> set as. p \<le> pr j" "bs \<noteq> [] \<Longrightarrow> \<not> p \<le> pr (hd bs)" "f \<notin> set (as @ bs)"
  shows "sorted_wrt (\<lambda>i j. (pr(f := p)) j \<le> (pr(f := p)) i) (as @ f # bs)"
proof -
  have hb: "\<forall>j \<in> set bs. pr j \<le> p"
  proof (cases bs)
    case (Cons b bs')
    then have "pr b \<le> p" "\<forall>j \<in> set bs'. pr j \<le> pr b"
      using assms(1,3) by (auto simp: sorted_wrt_append)
    then show ?thesis using Cons by auto
  qed simp
  have "sorted_wrt (\<lambda>i j. (pr(f := p)) j \<le> (pr(f := p)) i) (as @ bs)"
    using assms(1,4) by (auto intro: sorted_wrt_mono_rel [rotated])
  then show ?thesis using hb assms(2,4) by (auto simp: sorted_wrt_append)
qed


lemma mq_linked_rel:
  assumes r: "mq_rel a m qs (f # fs)"
    and ab: "as = takeWhile (\<lambda>j. prio \<le> msg_prio (mq_slot m j)) qs"
      "bs = dropWhile (\<lambda>j. prio \<le> msg_prio (mq_slot m j)) qs"
    and len: "int (length msg) \<le> mq_msgsize (mq_attr m)"
  shows "mq_rel a (mq_linked msg prio f as bs m) (as @ f # bs) fs"
proof -
  let ?m = "mq_linked msg prio f as bs m"
  note f = mq_rel_free_mem [OF r]
  have q: "qs = as @ bs" using ab by simp
  note sl = mq_linked_prio [OF r q] and nx = mq_linked_next [OF r q]
  have d: "distinct (as @ bs @ f # fs)" using mq_rel_distinct [OF r] q by simp
  have ch: "chain (mq_next m) 0 (mqh_head (mq_hdr m)) (as @ bs)" using r q by (simp add: mq_rel_def)
  have fn: "f \<notin> set (as @ bs)" using f(1) q by simp
  have c1: "chain (mq_next ?m) 0 (mqh_head (mq_hdr ?m)) (as @ f # bs)"
    unfolding nx Let_def using chain_insert [OF ch fn f(3) refl] by simp
  have c2: "chain (mq_next ?m) 0 (mqh_free (mq_hdr ?m)) fs"
  proof -
    have "last as \<notin> set fs" if "as \<noteq> []" using d that last_in_set [of as] by (auto simp: disjoint_iff)
    then show ?thesis unfolding nx Let_def using f(2,5) by simp
  qed
  have pr: "(\<lambda>j. msg_prio (mq_slot ?m j)) = (\<lambda>j. msg_prio (mq_slot m j))(f := prio)"
    by (simp add: sl fun_eq_iff)
  have so: "sorted_wrt (\<lambda>i j. msg_prio (mq_slot ?m j) \<le> msg_prio (mq_slot ?m i)) (as @ f # bs)"
  proof -
    have "sorted_wrt (\<lambda>i j. msg_prio (mq_slot m j) \<le> msg_prio (mq_slot m i)) (as @ bs)"
      using r q by (simp add: mq_rel_def)
    moreover have "\<forall>j \<in> set as. prio \<le> msg_prio (mq_slot m j)" using ab(1) by (auto dest: set_takeWhileD)
    moreover have "bs \<noteq> [] \<Longrightarrow> \<not> prio \<le> msg_prio (mq_slot m (hd bs))" using ab(2) hd_dropWhile by metis
    ultimately show ?thesis using sorted_wrt_insert_prio [OF _ _ _ fn, of "\<lambda>j. msg_prio (mq_slot m j)" prio]
      by (simp add: pr [THEN fun_cong, simplified])
  qed
  have "int (length msg) \<le> MSGSIZE a (mq_msgsize (mq_attr m))"
    using len MSGSIZE_bounds(1) [of a "mq_msgsize (mq_attr m)"] r by (simp add: mq_rel_def abi_ok_def)
  then have le: "length msg \<le> length (msg_data (mq_slot m f))" using r by (simp add: mq_rel_def)
  show ?thesis
    using r c1 c2 so q len le by (auto simp: mq_rel_def sl)
qed

lemma mq_linked_contents:
  assumes r: "mq_rel a m qs (f # fs)"
    and ab: "as = takeWhile (\<lambda>j. prio \<le> msg_prio (mq_slot m j)) qs"
      "bs = dropWhile (\<lambda>j. prio \<le> msg_prio (mq_slot m j)) qs"
    and len: "int (length msg) \<le> mq_msgsize (mq_attr m)"
  shows "mq_contents (mq_linked msg prio f as bs m) = prio_insert (prio, msg) (mq_contents m)"
proof -
  let ?m = "mq_linked msg prio f as bs m"
  have q: "qs = as @ bs" using ab by simp
  note sl = mq_linked_prio [OF r q]
  have same: "slot_msg (mq_slot ?m j) = slot_msg (mq_slot m j)" if "j \<in> set qs" for j
    using that mq_rel_free_mem(1) [OF r] by (auto simp: slot_msg_def sl)
  have f: "slot_msg (mq_slot ?m f) = (prio, msg)" by (simp add: slot_msg_def sl)
  have "mq_contents ?m = map (slot_msg \<circ> mq_slot m) as @ (prio, msg) # map (slot_msg \<circ> mq_slot m) bs"
    using mq_rel_contents [OF mq_linked_rel [OF r ab len]] same q f by simp
  also have "\<dots> = prio_insert (prio, msg) (mq_contents m)"
    by (simp add: mq_rel_contents [OF r] prio_insert_split ab takeWhile_map dropWhile_map comp_def slot_msg_def)
  finally show ?thesis .
qed


lemma mq_send2_ok:
  assumes "mq_inv a m" "mq_curmsgs (mq_attr m) < mq_maxmsg (mq_attr m)"
    "int (length msg) \<le> mq_msgsize (mq_attr m)"
  obtains m' where
    "mq_send2 msg prio m = (m', no_eff\<lparr>eff_signal := (mq_contents m = [])\<rparr>, MqRet (Inr ()))"
    "mq_inv a m'" "mq_contents m' = prio_insert (prio, msg) (mq_contents m)"
    "mq_attr m' = (mq_attr m)\<lparr>mq_curmsgs := mq_curmsgs (mq_attr m) + 1\<rparr>"
    "mqh_pid (mq_hdr m') = mqh_pid (mq_hdr m)" "mqh_nwait (mq_hdr m') = mqh_nwait (mq_hdr m)"
proof -
  from assms(1) obtain qs fs0 where r0: "mq_rel a m qs fs0" by (auto simp: mq_inv_def)
  then obtain f fs where "fs0 = f # fs" using mq_rel_room assms(2) by blast
  with r0 have r: "mq_rel a m qs (f # fs)" by simp
  let ?as = "takeWhile (\<lambda>j. prio \<le> msg_prio (mq_slot m j)) qs"
  let ?bs = "dropWhile (\<lambda>j. prio \<le> msg_prio (mq_slot m j)) qs"
  let ?m = "mq_linked msg prio f ?as ?bs m"
  have "(mq_contents m = []) = (qs = [])" by (simp add: mq_rel_contents [OF r])
  then show thesis
    using that [of ?m] mq_send2_eq [OF r refl refl, of msg] mq_linked_rel [OF r refl refl assms(3)]
      mq_linked_contents [OF r refl refl assms(3)]
    by (auto simp: mq_inv_def)
qed

lemma mq_receive2_ok:
  assumes "mq_inv a m" "mq_contents m = x # xs"
  obtains m' where
    "mq_receive2 m = (m', no_eff\<lparr>eff_signal := (mq_curmsgs (mq_attr m) = mq_maxmsg (mq_attr m))\<rparr>,
                      MqRet (Inr (snd x, fst x)))"
    "mq_inv a m'" "mq_contents m' = xs"
    "mq_attr m' = (mq_attr m)\<lparr>mq_curmsgs := mq_curmsgs (mq_attr m) - 1\<rparr>"
    "mqh_nwait (mq_hdr m') = mqh_nwait (mq_hdr m)"
proof -
  from assms(1) obtain qs0 fs where r0: "mq_rel a m qs0 fs" by (auto simp: mq_inv_def)
  with assms(2) obtain i qs where "qs0 = i # qs" using mq_rel_contents by fastforce
  with r0 have r: "mq_rel a m (i # qs) fs" by simp
  then have i: "mqh_head (mq_hdr m) = i" "i \<noteq> 0" "chain (mq_next m) 0 (mq_next m i) qs"
    "chain (mq_next m) 0 (mqh_free (mq_hdr m)) fs" by (auto simp: mq_rel_def)
  have d: "i \<notin> set qs" "i \<notin> set fs" using mq_rel_distinct [OF r] by auto
  define m' where "m' = add_curmsgs (-1)
    (upd_hdr (\<lambda>h. h\<lparr>mqh_head := mq_next m i, mqh_free := i\<rparr>)
      (upd_slot i (\<lambda>t. t\<lparr>msg_next := mqh_free (mq_hdr m)\<rparr>) m))"
  have x: "x = slot_msg (mq_slot m i)" "xs = map (slot_msg \<circ> mq_slot m) qs"
    using mq_rel_contents [OF r] assms(2) by auto
  have eq: "mq_receive2 m = (m', no_eff\<lparr>eff_signal := (mq_curmsgs (mq_attr m) = mq_maxmsg (mq_attr m))\<rparr>,
      MqRet (Inr (snd x, fst x)))"
    using i(1,2) by (simp add: mq_receive2_def m'_def Let_def x slot_msg_def upd_hdr_def upd_slot_def add_curmsgs_def)
  have nx: "mq_next m' = (mq_next m)(i := mqh_free (mq_hdr m))" by (auto simp: m'_def)
  have sl: "msg_prio (mq_slot m' j) = msg_prio (mq_slot m j)" "msg_len (mq_slot m' j) = msg_len (mq_slot m j)"
    "msg_data (mq_slot m' j) = msg_data (mq_slot m j)" for j by (auto simp: m'_def)
  have ch: "chain (mq_next m') 0 (mqh_head (mq_hdr m')) qs" "chain (mq_next m') 0 (mqh_free (mq_hdr m')) (i # fs)"
    unfolding nx using i d by (simp_all add: m'_def)
  have at: "mq_attr m' = (mq_attr m)\<lparr>mq_curmsgs := mq_curmsgs (mq_attr m) - 1\<rparr>" by (simp add: m'_def)
  have r': "mq_rel a m' qs (i # fs)" using r ch by (auto simp: mq_rel_def sl at)
  have "mq_contents m' = xs"
    using mq_rel_contents [OF r'] by (simp add: x slot_msg_def sl comp_def)
  then show thesis using that [OF eq] r' at by (auto simp: mq_inv_def m'_def)
qed

lemma mq_send_room:
  assumes "mq_inv a m" "mqi_magic info = MQI_MAGIC" "length (mq_contents m) < nat (mq_maxmsg (mq_attr m))"
    "int (length msg) \<le> mq_msgsize (mq_attr m)"
  obtains m' e where "mymq_send info None msg prio m = (m', e, MqRet (Inr ()))"
    "mq_inv a m'" "mq_contents m' = prio_insert (prio, msg) (mq_contents m)"
    "mq_attr m' = (mq_attr m)\<lparr>mq_curmsgs := mq_curmsgs (mq_attr m) + 1\<rparr>"
    "eff_signal e = (mq_contents m = [])" "mqh_nwait (mq_hdr m') = mqh_nwait (mq_hdr m)"
    "eff_sigqueue e = (if mq_contents m = [] \<and> mqh_pid (mq_hdr m) \<noteq> 0 \<and> mqh_nwait (mq_hdr m) = 0 \<and>
        sigev_notify (mqh_event (mq_hdr m)) = SIGEV_SIGNAL
      then Some (mqh_pid (mq_hdr m), sigev_signo (mqh_event (mq_hdr m)), sigev_val (mqh_event (mq_hdr m)))
      else None)"
    "mqh_pid (mq_hdr m') = (if mq_contents m = [] \<and> mqh_nwait (mq_hdr m) = 0 then 0 else mqh_pid (mq_hdr m))"
proof -
  have cur: "mq_curmsgs (mq_attr m) = int (length (mq_contents m))" by (rule mq_inv_curmsgs [OF assms(1)])
  have lt: "mq_curmsgs (mq_attr m) < mq_maxmsg (mq_attr m)" using assms(3) cur by linarith
  let ?u = "upd_hdr (\<lambda>h. h\<lparr>mqh_pid := 0\<rparr>) m"
  have u: "mq_inv a ?u" "mq_contents ?u = mq_contents m"
    using assms(1) by (auto simp: mq_inv_def mq_rel_def mq_contents_def)
  show thesis
  proof (cases "mq_contents m = [] \<and> mqh_pid (mq_hdr m) \<noteq> 0 \<and> mqh_nwait (mq_hdr m) = 0")
    case True
    obtain m' where m': "mq_send2 msg prio ?u = (m', no_eff\<lparr>eff_signal := (mq_contents ?u = [])\<rparr>, MqRet (Inr ()))"
      "mq_inv a m'" "mq_contents m' = prio_insert (prio, msg) (mq_contents ?u)"
      "mq_attr m' = (mq_attr ?u)\<lparr>mq_curmsgs := mq_curmsgs (mq_attr ?u) + 1\<rparr>"
      "mqh_pid (mq_hdr m') = mqh_pid (mq_hdr ?u)" "mqh_nwait (mq_hdr m') = mqh_nwait (mq_hdr ?u)"
      using mq_send2_ok [OF u(1), of msg prio] lt assms(4) by auto
    let ?e = "no_eff\<lparr>eff_signal := True, eff_sigqueue :=
      (if sigev_notify (mqh_event (mq_hdr m)) = SIGEV_SIGNAL
       then Some (mqh_pid (mq_hdr m), sigev_signo (mqh_event (mq_hdr m)), sigev_val (mqh_event (mq_hdr m)))
       else None)\<rparr>"
    have "mymq_send info None msg prio m = (m', ?e, MqRet (Inr ()))"
      using True assms(2,4) cur u(2) m'(1) by (simp add: mymq_send_def Let_def no_eff_def)
    then show ?thesis by (rule that) (use True m' u(2) in simp_all)
  next
    case False
    obtain m' where m': "mq_send2 msg prio m = (m', no_eff\<lparr>eff_signal := (mq_contents m = [])\<rparr>, MqRet (Inr ()))"
      "mq_inv a m'" "mq_contents m' = prio_insert (prio, msg) (mq_contents m)"
      "mq_attr m' = (mq_attr m)\<lparr>mq_curmsgs := mq_curmsgs (mq_attr m) + 1\<rparr>"
      "mqh_pid (mq_hdr m') = mqh_pid (mq_hdr m)" "mqh_nwait (mq_hdr m') = mqh_nwait (mq_hdr m)"
      using mq_send2_ok [OF assms(1) lt assms(4), of prio] by blast
    have "mymq_send info None msg prio m = mq_send2 msg prio m"
      using False assms(2,4) cur lt by (auto simp: mymq_send_def)
    with m'(1) have "mymq_send info None msg prio m =
        (m', no_eff\<lparr>eff_signal := (mq_contents m = [])\<rparr>, MqRet (Inr ()))" by simp
    then show ?thesis by (rule that) (use False m' in \<open>auto simp: no_eff_def\<close>)
  qed
qed


subsection \<open>Initialisation\<close>

lemma mq_init_free_frame [simp]: "mq_hdr (mq_init_free n i st m) = mq_hdr m"
  by (induction n i st m rule: mq_init_free.induct) auto

lemma mq_init_free_fields [simp]:
  "msg_prio (mq_slot (mq_init_free n i st m) j) = msg_prio (mq_slot m j)"
  "msg_len (mq_slot (mq_init_free n i st m) j) = msg_len (mq_slot m j)"
  "msg_data (mq_slot (mq_init_free n i st m) j) = msg_data (mq_slot m j)"
  by (induction n i st m rule: mq_init_free.induct) auto

lemma mq_init_free_below:
  "0 < st \<Longrightarrow> j < i \<Longrightarrow> mq_slot (mq_init_free n i st m) j = mq_slot m j"
  by (induction n i st m rule: mq_init_free.induct) auto

lemma mq_init_free_chain:
  "0 < st \<Longrightarrow> 0 < i \<Longrightarrow>
     chain (mq_next (mq_init_free n i st m)) 0 i (map (\<lambda>k. i + int k * st) [0..<Suc n])"
proof (induction n i st m rule: mq_init_free.induct)
  case (1 index stride m)
  then show ?case by simp
next
  case (2 n index stride m)
  let ?m = "upd_slot index (\<lambda>s. s\<lparr>msg_next := index + stride\<rparr>) m"
  have eq: "map (\<lambda>k. index + int k * stride) [0..<Suc (Suc n)] =
      index # map (\<lambda>k. (index + stride) + int k * stride) [0..<Suc n]"
    unfolding upt_conv_Cons [OF zero_less_Suc] map_Suc_upt [symmetric]
    by (simp add: algebra_simps del: upt_Suc)
  have "mq_next (mq_init_free n (index + stride) stride ?m) index = index + stride"
    using "2.prems" by (simp add: mq_init_free_below)
  with 2 show ?case unfolding eq by (simp del: upt_Suc)
qed

lemma mq_init_inv:
  assumes "abi_ok a" "0 < mq_maxmsg attr" "0 < mq_msgsize attr"
    and "\<forall>i \<in> set (slot_addrs a attr). int (length (msg_data (mq_slot m i))) = MSGSIZE a (mq_msgsize attr)"
  shows "mq_rel a (mq_init a attr m) [] (slot_addrs a attr)"
proof -
  have n: "nat (mq_maxmsg attr) = Suc (nat (mq_maxmsg attr - 1))" using assms(2) by simp
  have st: "0 < mq_stride a (mq_msgsize attr)" by (rule mq_stride_pos [OF assms(1,3)])
  have h: "0 < sizeof_mymq_hdr a" using assms(1) by (simp add: abi_ok_def)
  show ?thesis
    using assms mq_init_free_chain [OF st h]
    by (simp add: mq_rel_def mq_init_def Let_def slot_addrs_def n del: upt_Suc)
qed


subsection \<open>The queue implements the contract\<close>

text \<open>The state after a send, and the message and state after a receive that returns one.\<close>

definition mq_send_state :: "mymq_info \<Rightarrow> byte list \<Rightarrow> u32 \<Rightarrow> mq_region \<Rightarrow> mq_region" where
  "mq_send_state info msg prio m = fst (mymq_send info None msg prio m)"

definition mq_recv_state :: "mymq_info \<Rightarrow> mq_region \<Rightarrow> (pmsg \<times> mq_region) option" where
  "mq_recv_state info m =
     (case mymq_receive info None (nat (mq_msgsize (mq_attr m))) m of
        (m', _, MqRet (Inr (b, p))) \<Rightarrow> Some ((p, b), m')
      | _ \<Rightarrow> None)"

definition mq_handle :: "int \<Rightarrow> mymq_info" where
  "mq_handle fl = \<lparr>mqi_magic = MQI_MAGIC, mqi_flags = fl\<rparr>"

lemma mq_receive_some:
  assumes "mq_inv a m" "mqi_magic info = MQI_MAGIC" "mq_contents m = x # xs"
    "mq_msgsize (mq_attr m) \<le> int maxlen"
  obtains m' e where "mymq_receive info None maxlen m = (m', e, MqRet (Inr (snd x, fst x)))"
    "mq_inv a m'" "mq_contents m' = xs"
    "mq_attr m' = (mq_attr m)\<lparr>mq_curmsgs := mq_curmsgs (mq_attr m) - 1\<rparr>"
    "eff_signal e = (mq_curmsgs (mq_attr m) = mq_maxmsg (mq_attr m))"
    "mqh_nwait (mq_hdr m') = mqh_nwait (mq_hdr m)"
proof -
  have "mq_curmsgs (mq_attr m) \<noteq> 0" using mq_inv_curmsgs [OF assms(1)] assms(3) by simp
  then have "mymq_receive info None maxlen m = mq_receive2 m"
    using assms(2,4) by (simp add: mymq_receive_def)
  moreover obtain m' where m': "mq_receive2 m = (m', no_eff\<lparr>eff_signal :=
        (mq_curmsgs (mq_attr m) = mq_maxmsg (mq_attr m))\<rparr>, MqRet (Inr (snd x, fst x)))"
    "mq_inv a m'" "mq_contents m' = xs"
    "mq_attr m' = (mq_attr m)\<lparr>mq_curmsgs := mq_curmsgs (mq_attr m) - 1\<rparr>"
    "mqh_nwait (mq_hdr m') = mqh_nwait (mq_hdr m)"
    by (rule mq_receive2_ok [OF assms(1,3)])
  ultimately have "mymq_receive info None maxlen m = (m', no_eff\<lparr>eff_signal :=
        (mq_curmsgs (mq_attr m) = mq_maxmsg (mq_attr m))\<rparr>, MqRet (Inr (snd x, fst x)))" by simp
  then show thesis by (rule that) (use m' in simp_all)
qed

lemma mq_inv_msgsize: "mq_inv a m \<Longrightarrow> 0 < mq_msgsize (mq_attr m)"
  by (auto simp: mq_inv_def mq_rel_def)

interpretation mymq: priority_mq "mq_inv a" mq_contents "\<lambda>m. nat (mq_maxmsg (mq_attr m))"
  "\<lambda>m. nat (mq_msgsize (mq_attr m))" "mq_send_state (mq_handle fl)" "mq_recv_state (mq_handle fl)" for a fl
proof (unfold_locales, goal_cases)
  case (1 q b p)
  have "mqi_magic (mq_handle fl) = MQI_MAGIC" "int (length b) \<le> mq_msgsize (mq_attr q)"
    using 1(3) mq_inv_msgsize [OF 1(1)] by (simp_all add: mq_handle_def)
  then obtain m' e where "mymq_send (mq_handle fl) None b p q = (m', e, MqRet (Inr ()))"
    "mq_inv a m'" "mq_contents m' = prio_insert (p, b) (mq_contents q)"
    "mq_attr m' = (mq_attr q)\<lparr>mq_curmsgs := mq_curmsgs (mq_attr q) + 1\<rparr>"
    using mq_send_room [OF 1(1) _ 1(2)] by metis
  then show ?case by (simp add: mq_send_state_def)
next
  case (2 q x xs)
  have h: "mqi_magic (mq_handle fl) = MQI_MAGIC"
    "mq_msgsize (mq_attr q) \<le> int (nat (mq_msgsize (mq_attr q)))" by (simp_all add: mq_handle_def)
  obtain m' e where "mymq_receive (mq_handle fl) None (nat (mq_msgsize (mq_attr q))) q =
      (m', e, MqRet (Inr (snd x, fst x)))" "mq_inv a m'" "mq_contents m' = xs"
    "mq_attr m' = (mq_attr q)\<lparr>mq_curmsgs := mq_curmsgs (mq_attr q) - 1\<rparr>"
    using mq_receive_some [OF 2(1) h(1) 2(2) h(2)] by metis
  then show ?case by (simp add: mq_recv_state_def)
next
  case (3 q)
  then have "mq_curmsgs (mq_attr q) = 0" by (simp add: mq_inv_curmsgs)
  then show ?case by (simp add: mq_recv_state_def mymq_receive_def mq_handle_def)
qed

subsection \<open>Calls that do not complete\<close>

lemma mq_contents_upd [simp]:
  "mq_contents (add_nwait d m) = mq_contents m"
  "mq_contents (upd_hdr (\<lambda>h. h\<lparr>mqh_pid := p\<rparr>) m) = mq_contents m"
  "mq_contents (upd_hdr (\<lambda>h. h\<lparr>mqh_pid := p, mqh_event := ev\<rparr>) m) = mq_contents m"
  by (simp_all add: mq_contents_def)

lemma mq_inv_upd [simp]:
  "mq_inv a (add_nwait d m) = mq_inv a m"
  "mq_inv a (upd_hdr (\<lambda>h. h\<lparr>mqh_pid := p\<rparr>) m) = mq_inv a m"
  "mq_inv a (upd_hdr (\<lambda>h. h\<lparr>mqh_pid := p, mqh_event := ev\<rparr>) m) = mq_inv a m"
  by (simp_all add: mq_inv_def mq_rel_def)

text \<open>The invariant is kept, and the messages change only with a successful result.\<close>

definition mq_safe :: "abi \<Rightarrow> mq_region \<Rightarrow> 'r mq_out \<Rightarrow> bool" where
  "mq_safe a m out = (case out of (m', e, r) \<Rightarrow>
     mq_inv a m' \<and> r \<noteq> MqDump \<and> r \<noteq> MqHang \<and>
     (case r of MqRet (Inr _) \<Rightarrow> True
      | _ \<Rightarrow> mq_contents m' = mq_contents m \<and> eff_signal e = False \<and> eff_sigqueue e = None))"

lemma mq_safe_unchanged [simp]:
  "mq_inv a m \<Longrightarrow> mq_safe a m (m, no_eff, MqRet (Inl n))"
  "mq_inv a m \<Longrightarrow> mq_safe a m (m, no_eff, MqWait)"
  "mq_inv a m \<Longrightarrow> mq_safe a m (add_nwait d m, no_eff, MqWait)"
  by (simp_all add: mq_safe_def no_eff_def)

lemma mq_safe_send2:
  assumes "mq_inv a m" "mq_curmsgs (mq_attr m) < mq_maxmsg (mq_attr m)"
    "int (length msg) \<le> mq_msgsize (mq_attr m)"
  shows "mq_safe a m (mq_send2 msg prio m)"
  by (rule mq_send2_ok [OF assms, where prio = prio]) (simp add: mq_safe_def)

lemma mq_safe_receive2:
  assumes "mq_inv a m" "mq_curmsgs (mq_attr m) \<noteq> 0"
  shows "mq_safe a m0 (mq_receive2 m)"
proof -
  obtain x xs where "mq_contents m = x # xs"
    using assms mq_inv_curmsgs [OF assms(1)] by (cases "mq_contents m") auto
  then show ?thesis by (rule mq_receive2_ok [OF assms(1)]) (simp add: mq_safe_def)
qed

lemma mq_safe_send:
  assumes "mq_inv a m"
  shows "mq_safe a m (mymq_send info lk msg prio m)"
proof (cases "mqi_magic info = MQI_MAGIC \<and> lk = None \<and> int (length msg) \<le> mq_msgsize (mq_attr m) \<and>
    mq_curmsgs (mq_attr m) < mq_maxmsg (mq_attr m)")
  case True
  then have room: "length (mq_contents m) < nat (mq_maxmsg (mq_attr m))"
    using mq_inv_curmsgs [OF assms] by linarith
  show ?thesis
    by (rule mq_send_room [OF assms _ room, of info msg prio]) (use True in \<open>simp_all add: mq_safe_def\<close>)
next
  case False
  have pos: "0 < mq_maxmsg (mq_attr m)" using assms by (auto simp: mq_inv_def mq_rel_def)
  consider "mqi_magic info \<noteq> MQI_MAGIC" | n where "mqi_magic info = MQI_MAGIC" "lk = Some n"
    | "mqi_magic info = MQI_MAGIC" "lk = None" "mq_msgsize (mq_attr m) < int (length msg)"
    | "mqi_magic info = MQI_MAGIC" "lk = None" "\<not> mq_msgsize (mq_attr m) < int (length msg)"
      "mq_maxmsg (mq_attr m) \<le> mq_curmsgs (mq_attr m)"
    using False by (metis not_less option.exhaust)
  then show ?thesis using assms pos by cases (simp_all add: mymq_send_def)
qed

lemma mq_safe_receive:
  assumes "mq_inv a m"
  shows "mq_safe a m (mymq_receive info lk maxlen m)"
proof (cases "mqi_magic info = MQI_MAGIC \<and> lk = None \<and> mq_msgsize (mq_attr m) \<le> int maxlen \<and>
    mq_curmsgs (mq_attr m) \<noteq> 0")
  case True
  then show ?thesis using mq_safe_receive2 [OF assms, of m] by (simp add: mymq_receive_def)
next
  case False
  then show ?thesis using assms by (cases lk) (simp_all add: mymq_receive_def)
qed

subsection \<open>Properties\<close>

text \<open>A queue of two slots of up to 16 bytes on a 64-bit platform, for the examples.\<close>

definition lp64 :: abi where
  "lp64 = \<lparr>sizeof_mymq_hdr = 216, sizeof_mymsg_hdr = 24, sizeof_long = 8\<rparr>"

definition small_attr :: mymq_attr where
  "small_attr = \<lparr>mq_flags = 0, mq_maxmsg = 2, mq_msgsize = 16, mq_curmsgs = 0\<rparr>"

definition zero_region :: mq_region where
  "zero_region =
     \<lparr>mq_hdr = \<lparr>mqh_attr = \<lparr>mq_flags = 0, mq_maxmsg = 0, mq_msgsize = 0, mq_curmsgs = 0\<rparr>,
               mqh_head = 0, mqh_free = 0, mqh_nwait = 0, mqh_pid = 0,
               mqh_event = \<lparr>sigev_notify = 0, sigev_signo = 0, sigev_val = 0\<rparr>\<rparr>,
      mq_slot = (\<lambda>_. \<lparr>msg_next = 0, msg_len = 0, msg_prio = 0, msg_data = replicate 16 0\<rparr>)\<rparr>"

definition small_mq :: mq_region where
  "small_mq = mq_init lp64 small_attr zero_region"

lemma small_mq_rel: "mq_rel lp64 small_mq [] (slot_addrs lp64 small_attr)"
  unfolding small_mq_def
  by (rule mq_init_inv) (simp_all add: abi_ok_def lp64_def small_attr_def zero_region_def MSGSIZE_def)

lemma small_mq [simp]:
  "mq_inv lp64 small_mq" "mq_contents small_mq = []" "mq_maxmsg (mq_attr small_mq) = 2"
  "mq_msgsize (mq_attr small_mq) = 16" "mq_curmsgs (mq_attr small_mq) = 0"
  "mqh_nwait (mq_hdr small_mq) = 0" "mqh_pid (mq_hdr small_mq) = 0"
  using small_mq_rel mq_rel_contents [OF small_mq_rel]
  by (auto simp: mq_inv_def small_mq_def mq_init_def Let_def small_attr_def)

definition one_mq :: mq_region where
  "one_mq = mq_send_state (mq_handle 0) [1, 2] 7 small_mq"

lemma one_mq [simp]:
  "mq_inv lp64 one_mq" "mq_contents one_mq = [(7, [1, 2])]" "mq_maxmsg (mq_attr one_mq) = 2"
  "mq_msgsize (mq_attr one_mq) = 16"
proof -
  note s = mymq.send_law [of lp64 small_mq "[1, 2]" 0 7, folded one_mq_def, simplified]
  show "mq_inv lp64 one_mq" "mq_contents one_mq = [(7, [1, 2])]" using s by simp_all
  have "nat (mq_maxmsg (mq_attr one_mq)) = 2" "nat (mq_msgsize (mq_attr one_mq)) = 16" using s by simp_all
  then show "mq_maxmsg (mq_attr one_mq) = 2" "mq_msgsize (mq_attr one_mq) = 16" by linarith+
qed

text \<open>
  C1. \<open>mymq_send\<close> on an open queue with room, of a message that fits, returns 0, keeps the
  invariant and inserts the message after all messages of the same or a higher priority. The
  condition variable is signalled iff the queue was empty. The registered process is sent its
  signal iff the queue was empty and no receiver is blocked, and it is deregistered then.
\<close>

theorem mymq_send_refines:
  assumes "mq_inv a m" "mqi_magic info = MQI_MAGIC" "length (mq_contents m) < nat (mq_maxmsg (mq_attr m))"
    "int (length msg) \<le> mq_msgsize (mq_attr m)"
  shows "\<exists>m' e. mymq_send info None msg prio m = (m', e, MqRet (Inr ())) \<and>
    mq_inv a m' \<and> mq_contents m' = prio_insert (prio, msg) (mq_contents m) \<and>
    mq_attr m' = (mq_attr m)\<lparr>mq_curmsgs := mq_curmsgs (mq_attr m) + 1\<rparr> \<and>
    eff_signal e = (mq_contents m = []) \<and>
    eff_sigqueue e = (if mq_contents m = [] \<and> mqh_pid (mq_hdr m) \<noteq> 0 \<and> mqh_nwait (mq_hdr m) = 0 \<and>
        sigev_notify (mqh_event (mq_hdr m)) = SIGEV_SIGNAL
      then Some (mqh_pid (mq_hdr m), sigev_signo (mqh_event (mq_hdr m)), sigev_val (mqh_event (mq_hdr m)))
      else None) \<and>
    mqh_pid (mq_hdr m') = (if mq_contents m = [] \<and> mqh_nwait (mq_hdr m) = 0 then 0 else mqh_pid (mq_hdr m))"
  by (rule mq_send_room [OF assms, where prio = prio]) blast

theorem mymq_send_refines_witness:
  "\<exists>m' e. mymq_send (mq_handle 0) None [1, 2] 7 small_mq = (m', e, MqRet (Inr ())) \<and>
     mq_contents m' = [(7, [1, 2])] \<and> eff_signal e"
  using mymq_send_refines [of lp64 small_mq "mq_handle 0" "[1, 2]" 7]
  by (auto simp: mq_handle_def)

text \<open>
  C5. \<open>mymq_receive\<close> on a queue with messages returns the first one (the oldest of the
  highest priority), removes exactly it, and signals the condition variable iff the queue was full.
\<close>

theorem mymq_receive_refines:
  assumes "mq_inv a m" "mqi_magic info = MQI_MAGIC" "mq_contents m = (prio, msg) # rest"
    "mq_msgsize (mq_attr m) \<le> int maxlen"
  shows "\<exists>m' e. mymq_receive info None maxlen m = (m', e, MqRet (Inr (msg, prio))) \<and>
    mq_inv a m' \<and> mq_contents m' = rest \<and>
    mq_attr m' = (mq_attr m)\<lparr>mq_curmsgs := mq_curmsgs (mq_attr m) - 1\<rparr> \<and>
    eff_signal e = (length (mq_contents m) = nat (mq_maxmsg (mq_attr m)))"
proof (rule mq_receive_some [OF assms])
  have "eff_signal e = (mq_curmsgs (mq_attr m) = mq_maxmsg (mq_attr m)) \<Longrightarrow>
      eff_signal e = (length (mq_contents m) = nat (mq_maxmsg (mq_attr m)))" for e
    using mq_inv_curmsgs [OF assms(1)] mq_inv_bound [OF assms(1)] by auto
  then show "mymq_receive info None maxlen m = (m', e, MqRet (Inr (snd (prio, msg), fst (prio, msg)))) \<Longrightarrow>
      mq_inv a m' \<Longrightarrow> mq_contents m' = rest \<Longrightarrow>
      mq_attr m' = (mq_attr m)\<lparr>mq_curmsgs := mq_curmsgs (mq_attr m) - 1\<rparr> \<Longrightarrow>
      eff_signal e = (mq_curmsgs (mq_attr m) = mq_maxmsg (mq_attr m)) \<Longrightarrow> ?thesis" for m' e by auto
qed

theorem mymq_receive_refines_witness:
  "\<exists>m' e. mymq_receive (mq_handle 0) None 16 one_mq = (m', e, MqRet (Inr ([1, 2], 7))) \<and>
     mq_contents m' = [] \<and> \<not> eff_signal e"
  using mymq_receive_refines [of lp64 one_mq "mq_handle 0" 7 "[1, 2]" "[]" 16]
  by (auto simp: mq_handle_def)

text \<open>
  C29. Messages sent to an empty queue and then all received come out stably sorted by
  decreasing priority: first by priority, then in the order they were sent.
\<close>

theorem mymq_priority_fifo:
  assumes "mq_inv a m" "mq_contents m = []" "length xs \<le> nat (mq_maxmsg (mq_attr m))"
    "\<forall>x \<in> set xs. length (snd x) \<le> nat (mq_msgsize (mq_attr m))"
  shows "\<exists>m'. mq_drain (mq_recv_state (mq_handle fl)) (length xs)
      (mq_send_all (mq_send_state (mq_handle fl)) xs m) = (sort_key prio_key xs, m') \<and>
    mq_inv a m' \<and> mq_contents m' = []"
  by (rule mymq.send_all_drain [OF assms])

theorem mymq_priority_fifo_witness:
  "\<exists>m'. mq_drain (mq_recv_state (mq_handle 0)) (Suc (Suc 0))
     (mq_send_all (mq_send_state (mq_handle 0)) [(1, [10]), (5, [20])] small_mq) =
     ([(5, [20]), (1, [10])], m') \<and> mq_contents m' = []"
  using mymq_priority_fifo [of lp64 small_mq "[(1, [10]), (5, [20])]" 0] by auto

text \<open>
  C28. A failed or blocked send or receive, first call or continuation after a wait, changes no
  message and has no effect; no call on a valid queue reaches \<^verbatim>\<open>err_dump\<close> or an
  endless search, and all keep the invariant.
\<close>

theorem mymq_calls_safe:
  assumes "mq_inv a m" "int (length waiting) \<le> mq_msgsize (mq_attr m)"
  shows "mq_safe a m (mymq_send info lk msg prio m) \<and> mq_safe a m (mymq_receive info lk maxlen m) \<and>
    mq_safe a m (mymq_send_resume waiting prio m) \<and> mq_safe a m (mymq_receive_resume m)"
proof (intro conjI)
  show "mq_safe a m (mymq_send info lk msg prio m)" by (rule mq_safe_send [OF assms(1)])
  show "mq_safe a m (mymq_receive info lk maxlen m)" by (rule mq_safe_receive [OF assms(1)])
  show "mq_safe a m (mymq_send_resume waiting prio m)"
    using assms(1) mq_safe_send2 [OF assms(1) _ assms(2)] by (simp add: mymq_send_resume_def)
  show "mq_safe a m (mymq_receive_resume m)"
    using assms(1) mq_safe_receive2 [of a "add_nwait (-1) m" m] by (simp add: mymq_receive_resume_def)
qed

theorem mymq_calls_safe_witness:
  "mq_safe lp64 small_mq (mymq_send (mq_handle 0) (Some EINVAL) [1] 0 small_mq) \<and>
   mq_safe lp64 small_mq (mymq_receive (mq_handle 0) (Some EINVAL) 16 small_mq) \<and>
   mq_safe lp64 small_mq (mymq_send_resume [2] 0 small_mq) \<and>
   mq_safe lp64 small_mq (mymq_receive_resume small_mq)"
  by (rule mymq_calls_safe) simp_all




text \<open>
  \<open>mymq_setattr\<close> changes only the non-blocking flag of the handle, to the value asked for, and
  returns the attributes that \<open>mymq_getattr\<close> gave before.
\<close>

theorem mymq_setattr_getattr:
  assumes "mqi_magic info = MQI_MAGIC"
  shows "\<exists>info'. mymq_setattr info None st m = (info', mymq_getattr info None m) \<and>
    mymq_getattr info' None m = Inr ((mq_attr m)\<lparr>mq_flags := mqi_flags info'\<rparr>) \<and>
    (mqi_flags info' AND O_NONBLOCK \<noteq> 0) = (mq_flags st AND O_NONBLOCK \<noteq> 0) \<and>
    mqi_flags info' AND NOT O_NONBLOCK = mqi_flags info AND NOT O_NONBLOCK"
proof -
  have "(f OR O_NONBLOCK) AND O_NONBLOCK = O_NONBLOCK" "(f AND NOT O_NONBLOCK) AND O_NONBLOCK = 0"
    "(f OR O_NONBLOCK) AND NOT O_NONBLOCK = f AND NOT O_NONBLOCK" for f :: int
    by (auto simp: bit_eq_iff bit_and_iff bit_or_iff bit_not_iff)
  moreover have "O_NONBLOCK \<noteq> 0" by (simp add: O_NONBLOCK_def)
  ultimately show ?thesis using assms
    by (auto simp: mymq_setattr_def mymq_getattr_def mq_status_def)
qed

theorem mymq_setattr_getattr_witness:
  "\<exists>info'. mymq_setattr (mq_handle 0) None (small_attr\<lparr>mq_flags := O_NONBLOCK\<rparr>) small_mq =
      (info', mymq_getattr (mq_handle 0) None small_mq) \<and> mqi_flags info' AND O_NONBLOCK \<noteq> 0"
  using mymq_setattr_getattr [of "mq_handle 0" "small_attr\<lparr>mq_flags := O_NONBLOCK\<rparr>" small_mq]
  by (auto simp: mq_handle_def O_NONBLOCK_def)

text \<open>
  Notification is one-shot: a process that registers on an empty queue with no blocked
  receiver gets its signal, with its value, from the first send, and the second send
  delivers nothing.
\<close>

theorem mymq_notify_once:
  assumes "mq_inv a m" "mqi_magic info = MQI_MAGIC" "mq_contents m = []" "2 \<le> mq_maxmsg (mq_attr m)"
    and "mqh_nwait (mq_hdr m) = 0" "mqh_pid (mq_hdr m) = 0" "pid \<noteq> 0" "sigev_notify ev = SIGEV_SIGNAL"
    and "int (length msg1) \<le> mq_msgsize (mq_attr m)" "int (length msg2) \<le> mq_msgsize (mq_attr m)"
  shows "\<exists>m1 m2 e2 m3 e3. mymq_notify info None pid kill0 (Some ev) m = (m1, Inr ()) \<and>
    mymq_send info None msg1 p1 m1 = (m2, e2, MqRet (Inr ())) \<and>
    eff_sigqueue e2 = Some (pid, sigev_signo ev, sigev_val ev) \<and>
    mymq_send info None msg2 p2 m2 = (m3, e3, MqRet (Inr ())) \<and> eff_sigqueue e3 = None"
proof -
  define m1 where "m1 = upd_hdr (\<lambda>h. h\<lparr>mqh_pid := pid, mqh_event := ev\<rparr>) m"
  have m1: "mymq_notify info None pid kill0 (Some ev) m = (m1, Inr ())" "mq_inv a m1" "mq_contents m1 = []"
    "mq_attr m1 = mq_attr m" "mqh_nwait (mq_hdr m1) = 0" "mqh_pid (mq_hdr m1) = pid" "mqh_event (mq_hdr m1) = ev"
    using assms by (simp_all add: m1_def mymq_notify_def)
  have r1: "length (mq_contents m1) < nat (mq_maxmsg (mq_attr m1))" using m1 assms(4) by simp
  show ?thesis
  proof (rule mq_send_room [OF m1(2) assms(2) r1, of msg1 p1])
    fix m2 e2
    assume s2: "mymq_send info None msg1 p1 m1 = (m2, e2, MqRet (Inr ()))" "mq_inv a m2"
      "mq_contents m2 = prio_insert (p1, msg1) (mq_contents m1)"
      "mq_attr m2 = (mq_attr m1)\<lparr>mq_curmsgs := mq_curmsgs (mq_attr m1) + 1\<rparr>"
      "eff_sigqueue e2 = (if mq_contents m1 = [] \<and> mqh_pid (mq_hdr m1) \<noteq> 0 \<and> mqh_nwait (mq_hdr m1) = 0 \<and>
        sigev_notify (mqh_event (mq_hdr m1)) = SIGEV_SIGNAL
      then Some (mqh_pid (mq_hdr m1), sigev_signo (mqh_event (mq_hdr m1)), sigev_val (mqh_event (mq_hdr m1)))
      else None)"
    have r2: "length (mq_contents m2) < nat (mq_maxmsg (mq_attr m2))" using m1 s2(3,4) assms(4) by simp
    show ?thesis
      by (rule mq_send_room [OF s2(2) assms(2) r2, of msg2 p2]) (use m1 s2 assms in auto)
  qed (use m1 assms in simp)
qed

theorem mymq_notify_once_witness:
  "\<exists>m1 m2 e2. mymq_notify (mq_handle 0) None 77 (\<lambda>_. None)
      (Some \<lparr>sigev_notify = SIGEV_SIGNAL, sigev_signo = 10, sigev_val = 5\<rparr>) small_mq = (m1, Inr ()) \<and>
    mymq_send (mq_handle 0) None [1] 0 m1 = (m2, e2, MqRet (Inr ())) \<and> eff_sigqueue e2 = Some (77, 10, 5)"
  using mymq_notify_once [of lp64 small_mq "mq_handle 0" 77
      "\<lparr>sigev_notify = SIGEV_SIGNAL, sigev_signo = 10, sigev_val = 5\<rparr>" "[1]" "[2]" "\<lambda>_. None" 0 0]
  by (auto simp: mq_handle_def)

end
