(* ===== verification/Monitor.thy ===== *)
theory Monitor
  imports Prelude
begin

text \<open>
  Threads that share a structure protected by one mutex and wait on condition variables.
  Every call of the IPC libraries modelled here (message queue, semaphore, read-write lock) runs
  with its mutex held from its start to its end, apart from the calls of
  \<^verbatim>\<open>pthread_cond_wait\<close>: an execution is a sequence of atomic pieces, \<open>enter\<close> from the
  start of a call up to its return or its first wait, and \<open>resume\<close> from a return of
  \<^verbatim>\<open>pthread_cond_wait\<close> up to the return of the call or the next wait. The theory
  defines the interleavings of such pieces and contracts, as locales, whose
  lemmas the components use: invariants of the shared state, counters of waiting threads, and one signal for each item that threads wait for.
\<close>

subsection \<open>Steps\<close>

text \<open>What a piece does to the condition variables, and how it ends.\<close>

datatype 'c wake = NoWake | Signal 'c | Broadcast 'c

datatype ('c, 'r) outcome = Block 'c | Return 'r

text \<open>A woken thread has left its condition variable and waits for the mutex.\<close>

datatype 'c status = Running | Blocked 'c | Woken

text \<open>
  A thread has done some calls (the latest first) and has others to do; the first of these is
  under way when the status is not \<open>Running\<close>.
\<close>

record ('c, 'op, 'r) thread =
  t_stat :: "'c status"
  t_done :: "('op \<times> 'r) list"
  t_todo :: "'op list"

type_synonym ('s, 'c, 'op, 'r) piece = "'op \<Rightarrow> 's \<Rightarrow> 's \<times> 'c wake \<times> ('c, 'r) outcome"

definition fresh_thread :: "'op list \<Rightarrow> ('c, 'op, 'r) thread" where
  "fresh_thread ops = \<lparr>t_stat = Running, t_done = [], t_todo = ops\<rparr>"

fun after_piece :: "('c, 'r) outcome \<Rightarrow> ('c, 'op, 'r) thread \<Rightarrow> ('c, 'op, 'r) thread" where
  "after_piece (Block c) t = t\<lparr>t_stat := Blocked c\<rparr>"
| "after_piece (Return r) t =
     t\<lparr>t_stat := Running, t_done := (hd (t_todo t), r) # t_done t, t_todo := tl (t_todo t)\<rparr>"

definition wake_if :: "'c \<Rightarrow> ('c, 'op, 'r) thread \<Rightarrow> ('c, 'op, 'r) thread" where
  "wake_if c t = (if t_stat t = Blocked c then t\<lparr>t_stat := Woken\<rparr> else t)"

text \<open>\<open>Signal\<close> wakes any one thread of the condition variable, if there is one.\<close>

inductive wakes :: "'c wake \<Rightarrow> ('c, 'op, 'r) thread list \<Rightarrow> ('c, 'op, 'r) thread list \<Rightarrow> bool" where
  no_wake: "wakes NoWake ts ts"
| signal: "j < length ts \<Longrightarrow> t_stat (ts ! j) = Blocked c \<Longrightarrow> wakes (Signal c) ts (ts[j := wake_if c (ts ! j)])"
| nobody: "(\<forall>t \<in> set ts. t_stat t \<noteq> Blocked c) \<Longrightarrow> wakes (Signal c) ts ts"
| broadcast: "wakes (Broadcast c) ts (map (wake_if c) ts)"

text \<open>
  A step of the system. \<open>sp\<close> says whether \<^verbatim>\<open>pthread_cond_wait\<close> may return without a signal,
  as POSIX allows.
\<close>

inductive mon_step ::
  "bool \<Rightarrow> ('s, 'c, 'op, 'r) piece \<Rightarrow> ('s, 'c, 'op, 'r) piece \<Rightarrow>
     's \<times> ('c, 'op, 'r) thread list \<Rightarrow> 's \<times> ('c, 'op, 'r) thread list \<Rightarrow> bool"
  for sp enter resume where
  Enter: "i < length ts \<Longrightarrow> t_stat (ts ! i) = Running \<Longrightarrow> t_todo (ts ! i) = op # ops \<Longrightarrow>
    enter op s = (s', w, out) \<Longrightarrow> wakes w (ts[i := after_piece out (ts ! i)]) ts' \<Longrightarrow>
    mon_step sp enter resume (s, ts) (s', ts')"
| Resume: "i < length ts \<Longrightarrow> t_stat (ts ! i) = Woken \<Longrightarrow> t_todo (ts ! i) = op # ops \<Longrightarrow>
    resume op s = (s', w, out) \<Longrightarrow> wakes w (ts[i := after_piece out (ts ! i)]) ts' \<Longrightarrow>
    mon_step sp enter resume (s, ts) (s', ts')"
| Spurious: "sp \<Longrightarrow> i < length ts \<Longrightarrow> t_stat (ts ! i) = Blocked c \<Longrightarrow>
    mon_step sp enter resume (s, ts) (s, ts[i := wake_if c (ts ! i)])"

inductive mon_reach ::
  "bool \<Rightarrow> ('s, 'c, 'op, 'r) piece \<Rightarrow> ('s, 'c, 'op, 'r) piece \<Rightarrow> 's \<Rightarrow> 'op list list \<Rightarrow>
     's \<times> ('c, 'op, 'r) thread list \<Rightarrow> bool"
  for sp enter resume s0 progs where
  start: "mon_reach sp enter resume s0 progs (s0, map fresh_thread progs)"
| step: "mon_reach sp enter resume s0 progs st \<Longrightarrow> mon_step sp enter resume st st' \<Longrightarrow>
    mon_reach sp enter resume s0 progs st'"

text \<open>No thread can run: each is blocked or has finished.\<close>

definition quiescent :: "('c, 'op, 'r) thread list \<Rightarrow> bool" where
  "quiescent ts \<longleftrightarrow> (\<forall>t \<in> set ts. case t_stat t of Running \<Rightarrow> t_todo t = [] | Blocked _ \<Rightarrow> True | Woken \<Rightarrow> False)"

inductive_cases wakes_cases: "wakes w ts ts'"
inductive_cases mon_step_cases: "mon_step sp enter resume st st'"

lemma quiescent_no_step:
  assumes "quiescent ts"
  shows "\<not> mon_step False enter resume (s, ts) st'"
proof
  assume "mon_step False enter resume (s, ts) st'"
  then show False
    by (rule mon_step_cases) (use assms in \<open>auto simp: quiescent_def dest!: nth_mem\<close>)
qed

text \<open>
  A schedule executed: each entry is the thread that runs next and the thread that a signal
  of its piece wakes.
\<close>

fun exec_wake :: "'c wake \<Rightarrow> nat \<Rightarrow> ('c, 'op, 'r) thread list \<Rightarrow> ('c, 'op, 'r) thread list option" where
  "exec_wake NoWake j ts = Some ts"
| "exec_wake (Signal c) j ts =
     (if list_all (\<lambda>t. t_stat t \<noteq> Blocked c) ts then Some ts
      else if j < length ts \<and> t_stat (ts ! j) = Blocked c then Some (ts[j := wake_if c (ts ! j)])
      else None)"
| "exec_wake (Broadcast c) j ts = Some (map (wake_if c) ts)"

definition exec_piece ::
  "('s, 'c, 'op, 'r) piece \<Rightarrow> nat \<Rightarrow> nat \<Rightarrow> 's \<Rightarrow> ('c, 'op, 'r) thread list
     \<Rightarrow> ('s \<times> ('c, 'op, 'r) thread list) option" where
  "exec_piece f i j s ts =
     (case t_todo (ts ! i) of [] \<Rightarrow> None
      | op # _ \<Rightarrow> (case f op s of (s', w, out) \<Rightarrow>
          map_option (Pair s') (exec_wake w j (ts[i := after_piece out (ts ! i)]))))"

fun exec_schedule ::
  "('s, 'c, 'op, 'r) piece \<Rightarrow> ('s, 'c, 'op, 'r) piece \<Rightarrow> (nat \<times> nat) list \<Rightarrow>
     's \<times> ('c, 'op, 'r) thread list \<Rightarrow> ('s \<times> ('c, 'op, 'r) thread list) option" where
  "exec_schedule enter resume [] st = Some st"
| "exec_schedule enter resume ((i, j) # sched) (s, ts) =
     (if i < length ts then
        (case (case t_stat (ts ! i) of Running \<Rightarrow> exec_piece enter i j s ts
               | Woken \<Rightarrow> exec_piece resume i j s ts | Blocked _ \<Rightarrow> None) of
           None \<Rightarrow> None | Some st \<Rightarrow> exec_schedule enter resume sched st)
      else None)"

lemma exec_wake_wakes: "exec_wake w j ts = Some ts' \<Longrightarrow> wakes w ts ts'"
  by (cases w) (auto simp: list_all_iff split: if_splits intro: wakes.intros)

lemma exec_piece_step:
  assumes "exec_piece f i j s ts = Some (s', ts')"
  obtains op ops w out where "t_todo (ts ! i) = op # ops" "f op s = (s', w, out)"
    "wakes w (ts[i := after_piece out (ts ! i)]) ts'"
  using assms exec_wake_wakes
  by (fastforce simp: exec_piece_def split: list.splits prod.splits)

lemma exec_schedule_reach:
  "exec_schedule enter resume sched st = Some st' \<Longrightarrow> mon_reach sp enter resume s0 progs st \<Longrightarrow>
     mon_reach sp enter resume s0 progs st'"
proof (induction enter resume sched st rule: exec_schedule.induct)
  case (1 enter resume st)
  then show ?case by simp
next
  case (2 enter resume i j sched s ts)
  then obtain f s1 ts1 where f: "exec_piece f i j s ts = Some (s1, ts1)"
      "(t_stat (ts ! i) = Running \<and> f = enter) \<or> (t_stat (ts ! i) = Woken \<and> f = resume)"
    and rest: "i < length ts" "exec_schedule enter resume sched (s1, ts1) = Some st'"
    by (auto split: if_splits status.splits option.splits)
  obtain op ops w out where "t_todo (ts ! i) = op # ops" "f op s = (s1, w, out)"
    "wakes w (ts[i := after_piece out (ts ! i)]) ts1"
    using exec_piece_step [OF f(1)] by blast
  with f(2) rest(1) have "mon_step sp enter resume (s, ts) (s1, ts1)" by (auto intro: mon_step.intros)
  then have "mon_reach sp enter resume s0 progs (s1, ts1)"
    by (rule mon_reach.step [OF "2.prems"(2)])
  then show ?case using 2(1-3) f rest by (auto split: status.splits)
qed

lemma exec_schedule_start:
  "exec_schedule enter resume sched (s0, map fresh_thread progs) = Some st \<Longrightarrow> mon_reach sp enter resume s0 progs st"
  by (rule exec_schedule_reach [OF _ mon_reach.start])

subsection \<open>What a wake-up changes\<close>

lemma wake_if_simps [simp]:
  "t_done (wake_if c t) = t_done t" "t_todo (wake_if c t) = t_todo t"
  by (simp_all add: wake_if_def)

lemma wakes_length: "wakes w ts ts' \<Longrightarrow> length ts' = length ts"
  by (erule wakes_cases) auto

text \<open>A wake-up turns some blocked threads into woken ones.\<close>

lemma wakes_nth:
  assumes "wakes w ts ts'" "i < length ts"
  shows "ts' ! i = ts ! i \<or> (\<exists>c. t_stat (ts ! i) = Blocked c \<and> ts' ! i = (ts ! i)\<lparr>t_stat := Woken\<rparr>)"
  using assms by (cases rule: wakes.cases) (auto simp: wake_if_def nth_list_update)

lemma wakes_map:
  assumes "wakes w ts ts'" "\<And>t c. t_stat t = Blocked c \<Longrightarrow> f (t\<lparr>t_stat := Woken\<rparr>) = f t"
  shows "map f ts' = map f ts"
proof (rule nth_equalityI)
  show "length (map f ts') = length (map f ts)" using wakes_length [OF assms(1)] by simp
  show "map f ts' ! i = map f ts ! i" if "i < length (map f ts')" for i
    using wakes_nth [OF assms(1), of i] assms(2) that wakes_length [OF assms(1)] by auto
qed

text \<open>Threads that have started a call and not finished it.\<close>

definition in_call :: "('op \<Rightarrow> bool) \<Rightarrow> ('c, 'op, 'r) thread \<Rightarrow> bool" where
  "in_call P t \<longleftrightarrow> t_stat t \<noteq> Running \<and> P (hd (t_todo t))"

definition n_threads :: "(('c, 'op, 'r) thread \<Rightarrow> bool) \<Rightarrow> ('c, 'op, 'r) thread list \<Rightarrow> int" where
  "n_threads P ts = (\<Sum>t\<leftarrow>ts. of_bool (P t))"

abbreviation n_in_call :: "('op \<Rightarrow> bool) \<Rightarrow> ('c, 'op, 'r) thread list \<Rightarrow> int" where
  "n_in_call P \<equiv> n_threads (in_call P)"

lemma in_call_woken: "t_stat t = Blocked c \<Longrightarrow> in_call P (t\<lparr>t_stat := Woken\<rparr>) = in_call P t"
  by (simp add: in_call_def)

lemma n_threads_wakes:
  "wakes w ts ts' \<Longrightarrow> (\<And>t c. t_stat t = Blocked c \<Longrightarrow> P (t\<lparr>t_stat := Woken\<rparr>) = P t) \<Longrightarrow> n_threads P ts' = n_threads P ts"
  unfolding n_threads_def by (drule wakes_map [where f = "\<lambda>t. of_bool (P t) :: int"]) simp_all

lemma n_in_call_wakes: "wakes w ts ts' \<Longrightarrow> n_in_call P ts' = n_in_call P ts"
  by (erule n_threads_wakes) (rule in_call_woken)

lemma n_threads_update:
  "i < length ts \<Longrightarrow> n_threads P (ts[i := t]) = n_threads P ts + of_bool (P t) - of_bool (P (ts ! i))"
  by (simp add: n_threads_def sum_list_map_update)

lemma n_threads_nonneg: "0 \<le> n_threads P ts"
  unfolding n_threads_def by (rule sum_list_nonneg) auto

lemma n_threads_pos_iff: "0 < n_threads P ts \<longleftrightarrow> (\<exists>t \<in> set ts. P t)"
proof (induction ts)
  case Nil
  then show ?case by (simp add: n_threads_def)
next
  case (Cons t ts)
  then show ?case using n_threads_nonneg [of P ts] by (auto simp: n_threads_def)
qed

lemma n_threads_zero_iff: "n_threads P ts = 0 \<longleftrightarrow> (\<forall>t \<in> set ts. \<not> P t)"
  using n_threads_pos_iff [of P ts] n_threads_nonneg [of P ts] by auto

lemma n_in_call_fresh [simp]: "n_in_call P (map fresh_thread progs) = 0"
  by (simp add: n_threads_zero_iff in_call_def fresh_thread_def)

subsection \<open>Invariants of the shared state\<close>

text \<open>
  \<open>inv\<close> holds of the shared state whenever the mutex is free; \<open>wok s op\<close> is what a waiting call
  \<open>op\<close> relies on while it waits.
\<close>

locale monitor =
  fixes enter :: "('s, 'c, 'op, 'r) piece"
    and resume :: "('s, 'c, 'op, 'r) piece"
    and inv :: "'s \<Rightarrow> bool"
    and wok :: "'s \<Rightarrow> 'op \<Rightarrow> bool"
  assumes enter_inv: "inv s \<Longrightarrow> enter op s = (s', w, out) \<Longrightarrow> inv s' \<and> (\<forall>c. out = Block c \<longrightarrow> wok s' op)"
    and resume_inv:
      "inv s \<Longrightarrow> wok s op \<Longrightarrow> resume op s = (s', w, out) \<Longrightarrow> inv s' \<and> (\<forall>c. out = Block c \<longrightarrow> wok s' op)"
    and enter_wok: "inv s \<Longrightarrow> enter op s = (s', w, out) \<Longrightarrow> wok s op' \<Longrightarrow> wok s' op'"
    and resume_wok: "inv s \<Longrightarrow> wok s op \<Longrightarrow> resume op s = (s', w, out) \<Longrightarrow> wok s op' \<Longrightarrow> wok s' op'"
begin

definition thread_ok :: "'s \<Rightarrow> ('c, 'op, 'r) thread \<Rightarrow> bool" where
  "thread_ok s t \<longleftrightarrow> (t_stat t \<noteq> Running \<longrightarrow> t_todo t \<noteq> [] \<and> wok s (hd (t_todo t)))"

definition cfg_ok :: "'s \<times> ('c, 'op, 'r) thread list \<Rightarrow> bool" where
  "cfg_ok st \<longleftrightarrow> inv (fst st) \<and> (\<forall>t \<in> set (snd st). thread_ok (fst st) t)"

lemma threads_after:
  assumes "\<forall>t \<in> set ts. thread_ok s' t" "thread_ok s' t'" "wakes w (ts[i := t']) ts'"
  shows "\<forall>t \<in> set ts'. thread_ok s' t"
proof
  fix t
  assume "t \<in> set ts'"
  then obtain j where j: "j < length ts'" "t = ts' ! j" by (auto simp: in_set_conv_nth)
  have "\<forall>t \<in> set (ts[i := t']). thread_ok s' t" using assms(1,2) set_update_subset_insert by fastforce
  moreover have l: "j < length (ts[i := t'])" using j wakes_length [OF assms(3)] by simp
  ultimately have ok: "thread_ok s' (ts[i := t'] ! j)" using nth_mem by blast
  from wakes_nth [OF assms(3) l] show "thread_ok s' t"
    using ok j(2) by (elim disjE exE conjE) (simp_all add: thread_ok_def)
qed

lemma step_ok:
  assumes "mon_step sp enter resume st st'" "cfg_ok st"
  shows "cfg_ok st'"
  using assms(1)
proof cases
  case (Enter i ts op ops s s' w out ts')
  have inv: "inv s" and ok: "\<forall>t \<in> set ts. thread_ok s t" using assms(2) Enter(1) by (simp_all add: cfg_ok_def)
  note e = enter_inv [OF inv Enter(6)]
  have "\<forall>t \<in> set ts. thread_ok s' t" using ok enter_wok [OF inv Enter(6)] by (simp add: thread_ok_def)
  moreover have "thread_ok s' (after_piece out (ts ! i))"
    using e Enter(5) by (cases out) (simp_all add: thread_ok_def)
  ultimately have "\<forall>t \<in> set ts'. thread_ok s' t" by (rule threads_after [OF _ _ Enter(7)])
  then show ?thesis using e Enter(2) by (simp add: cfg_ok_def)
next
  case (Resume i ts op ops s s' w out ts')
  have inv: "inv s" and ok: "\<forall>t \<in> set ts. thread_ok s t" using assms(2) Resume(1) by (simp_all add: cfg_ok_def)
  have "thread_ok s (ts ! i)" using ok Resume(3) by simp
  then have wok: "wok s op" using Resume(4,5) by (simp add: thread_ok_def)
  note e = resume_inv [OF inv wok Resume(6)]
  have "\<forall>t \<in> set ts. thread_ok s' t" using ok resume_wok [OF inv wok Resume(6)] by (simp add: thread_ok_def)
  moreover have "thread_ok s' (after_piece out (ts ! i))"
    using e Resume(5) by (cases out) (simp_all add: thread_ok_def)
  ultimately have "\<forall>t \<in> set ts'. thread_ok s' t" by (rule threads_after [OF _ _ Resume(7)])
  then show ?thesis using e Resume(2) by (simp add: cfg_ok_def)
next
  case (Spurious i ts c s)
  have ok: "\<forall>t \<in> set ts. thread_ok s t" using assms(2) Spurious(1) by (simp add: cfg_ok_def)
  then have "thread_ok s (ts ! i)" using Spurious(4) by simp
  then have "thread_ok s (wake_if c (ts ! i))" using Spurious(5) by (simp add: thread_ok_def wake_if_def)
  then have "\<forall>t \<in> set (ts[i := wake_if c (ts ! i)]). thread_ok s t"
    by (rule threads_after [OF ok _ no_wake])
  then show ?thesis using assms(2) Spurious(1,2) by (simp add: cfg_ok_def)
qed

lemma reach_ok:
  assumes "mon_reach sp enter resume s0 progs st" "inv s0"
  shows "cfg_ok st"
  using assms(1)
proof induction
  case start
  then show ?case using assms(2) by (auto simp: cfg_ok_def thread_ok_def fresh_thread_def)
next
  case (step st st')
  then show ?case using step_ok by blast
qed

lemma reach_inv: "mon_reach sp enter resume s0 progs (s, ts) \<Longrightarrow> inv s0 \<Longrightarrow> inv s"
  using reach_ok by (fastforce simp: cfg_ok_def)

end

subsection \<open>Counters of waiting threads\<close>

fun is_block :: "('c, 'r) outcome \<Rightarrow> bool" where
  "is_block (Block c) = True"
| "is_block (Return r) = False"

text \<open>\<open>cnt\<close> is kept by the calls that \<open>isw\<close> selects: it counts those that wait.\<close>

locale monitor_count = monitor enter resume inv wok
  for enter :: "('s, 'c, 'op, 'r) piece" and resume and inv and wok +
  fixes cnt :: "'s \<Rightarrow> int"
    and isw :: "'op \<Rightarrow> bool"
  assumes enter_cnt: "inv s \<Longrightarrow> enter op s = (s', w, out) \<Longrightarrow> cnt s' = cnt s + of_bool (isw op \<and> is_block out)"
    and resume_cnt:
      "inv s \<Longrightarrow> wok s op \<Longrightarrow> resume op s = (s', w, out) \<Longrightarrow> cnt s' = cnt s - of_bool (isw op \<and> \<not> is_block out)"
begin

lemma step_cnt:
  assumes "mon_step sp enter resume st st'" "cfg_ok st"
  shows "cnt (fst st') - n_in_call isw (snd st') = cnt (fst st) - n_in_call isw (snd st)"
  using assms(1)
proof cases
  case (Enter i ts op ops s s' w out ts')
  have inv: "inv s" using assms(2) Enter(1) by (simp add: cfg_ok_def)
  have "in_call isw (after_piece out (ts ! i)) = (isw op \<and> is_block out)"
    using Enter(4,5) by (cases out) (simp_all add: in_call_def)
  moreover have "\<not> in_call isw (ts ! i)" using Enter(4) by (simp add: in_call_def)
  ultimately show ?thesis
    using enter_cnt [OF inv Enter(6)] Enter(1-3) n_in_call_wakes [OF Enter(7), of isw] by (simp add: n_threads_update)
next
  case (Resume i ts op ops s s' w out ts')
  have inv: "inv s" "thread_ok s (ts ! i)" using assms(2) Resume(1,3) by (simp_all add: cfg_ok_def)
  then have wok: "wok s op" using Resume(4,5) by (simp add: thread_ok_def)
  have "in_call isw (after_piece out (ts ! i)) = (isw op \<and> is_block out)"
    using Resume(5) by (cases out) (simp_all add: in_call_def)
  moreover have "in_call isw (ts ! i) = isw op" using Resume(4,5) by (simp add: in_call_def)
  ultimately show ?thesis
    using resume_cnt [OF inv(1) wok Resume(6)] Resume(1-3) n_in_call_wakes [OF Resume(7), of isw]
    by (simp add: n_threads_update)
next
  case (Spurious i ts c s)
  then show ?thesis by (simp add: n_threads_update wake_if_def in_call_woken)
qed

lemma reach_cnt:
  assumes "mon_reach sp enter resume s0 progs st" "inv s0"
  shows "cnt (fst st) = cnt s0 + n_in_call isw (snd st)"
  using assms(1)
proof induction
  case start
  then show ?case by simp
next
  case (step st st')
  then show ?case using step_cnt [OF step.hyps(2) reach_ok [OF step.hyps(1) assms(2)]] by simp
qed

end

subsection \<open>Conservation\<close>

text \<open>The sum of \<open>f\<close> over all finished calls.\<close>

definition ledger :: "('op \<times> 'r \<Rightarrow> 'm::comm_monoid_add) \<Rightarrow> ('c, 'op, 'r) thread list \<Rightarrow> 'm" where
  "ledger f ts = (\<Sum>t\<leftarrow>ts. \<Sum>d\<leftarrow>t_done t. f d)"

lemma ledger_wakes: "wakes w ts ts' \<Longrightarrow> ledger f ts' = ledger f ts"
  unfolding ledger_def by (drule wakes_map [where f = "\<lambda>t. \<Sum>d\<leftarrow>t_done t. f d"]) simp_all

lemma ledger_return:
  assumes "i < length ts" "t_todo (ts ! i) = op # ops"
  shows "ledger f (ts[i := after_piece (Return r) (ts ! i)]) = ledger f ts + f (op, r)"
  unfolding ledger_def by (rule sum_list_update_add [OF assms(1)]) (simp add: assms(2) ac_simps)

lemma ledger_block:
  assumes "i < length ts" "t_done t = t_done (ts ! i)"
  shows "ledger f (ts[i := t]) = ledger f ts"
  unfolding ledger_def
  using sum_list_update_add [OF assms(1), where d = 0 and f = "\<lambda>t. \<Sum>d\<leftarrow>t_done t. f d" and y = t] assms(2) by simp

lemma ledger_fresh [simp]: "ledger f (map fresh_thread progs) = 0"
  by (induction progs) (simp_all add: ledger_def fresh_thread_def)

lemma ledger_of_nat: "ledger (\<lambda>d. of_nat (f d)) ts = (of_nat (ledger f ts) :: 'm::semiring_1)"
proof -
  have "(\<Sum>d\<leftarrow>ds. of_nat (f d)) = (of_nat (\<Sum>d\<leftarrow>ds. f d) :: 'm)" for ds by (induction ds) simp_all
  then show ?thesis unfolding ledger_def by (induction ts) simp_all
qed

text \<open>
  \<open>amount\<close> measures what the shared structure holds; a finished call puts \<open>inp\<close> in and takes
  \<open>outp\<close> out, and a call that waits changes nothing. The two sides are compared by \<open>rel\<close>, equality
  or an order.
\<close>

locale monitor_ledger = monitor enter resume inv wok
  for enter :: "('s, 'c, 'op, 'r) piece" and resume and inv and wok +
  fixes rel :: "'m::comm_monoid_add \<Rightarrow> 'm \<Rightarrow> bool"
    and amount :: "'s \<Rightarrow> 'm"
    and inp :: "'op \<times> 'r \<Rightarrow> 'm"
    and outp :: "'op \<times> 'r \<Rightarrow> 'm"
  assumes rel_refl: "rel x x"
    and rel_trans: "rel x y \<Longrightarrow> rel y z \<Longrightarrow> rel x z"
    and rel_add: "rel x y \<Longrightarrow> rel (x + z) (y + z)"
    and enter_amount: "inv s \<Longrightarrow> enter op s = (s', w, out) \<Longrightarrow>
      (case out of Block c \<Rightarrow> rel (amount s') (amount s)
       | Return r \<Rightarrow> rel (amount s' + outp (op, r)) (amount s + inp (op, r)))"
    and resume_amount: "inv s \<Longrightarrow> wok s op \<Longrightarrow> resume op s = (s', w, out) \<Longrightarrow>
      (case out of Block c \<Rightarrow> rel (amount s') (amount s)
       | Return r \<Rightarrow> rel (amount s' + outp (op, r)) (amount s + inp (op, r)))"
begin

lemma balance_after:
  assumes "i < length ts" "t_todo (ts ! i) = op # ops" "wakes w (ts[i := after_piece out (ts ! i)]) ts'"
    and "case out of Block c \<Rightarrow> rel (amount s') (amount s)
       | Return r \<Rightarrow> rel (amount s' + outp (op, r)) (amount s + inp (op, r))"
    and "rel (amount s + ledger outp ts) (b + ledger inp ts)"
  shows "rel (amount s' + ledger outp ts') (b + ledger inp ts')"
proof (cases out)
  case (Block c)
  then have "rel (amount s' + ledger outp ts) (amount s + ledger outp ts)" using assms(4) rel_add by simp
  then have "rel (amount s' + ledger outp ts) (b + ledger inp ts)" using assms(5) by (rule rel_trans)
  then show ?thesis using Block assms(1) by (simp add: ledger_wakes [OF assms(3)] ledger_block)
next
  case (Return r)
  have "rel (amount s' + outp (op, r) + ledger outp ts) (amount s + inp (op, r) + ledger outp ts)"
    using assms(4) Return rel_add by simp
  moreover have "rel (amount s + ledger outp ts + inp (op, r)) (b + ledger inp ts + inp (op, r))"
    using assms(5) by (rule rel_add)
  then have "rel (amount s + inp (op, r) + ledger outp ts) (b + (ledger inp ts + inp (op, r)))"
    by (simp add: ac_simps)
  ultimately have "rel (amount s' + outp (op, r) + ledger outp ts) (b + (ledger inp ts + inp (op, r)))"
    by (rule rel_trans)
  then show ?thesis
    by (simp add: ledger_wakes [OF assms(3)] Return ledger_return [OF assms(1,2)] ac_simps del: after_piece.simps)
qed

lemma step_balance:
  assumes "mon_step sp enter resume st st'" "cfg_ok st"
    and "rel (amount (fst st) + ledger outp (snd st)) (b + ledger inp (snd st))"
  shows "rel (amount (fst st') + ledger outp (snd st')) (b + ledger inp (snd st'))"
  using assms(1)
proof cases
  case (Enter i ts op ops s s' w out ts')
  have inv: "inv s" using assms(2) Enter(1) by (simp add: cfg_ok_def)
  have "rel (amount s + ledger outp ts) (b + ledger inp ts)" using assms(3) Enter(1) by simp
  from balance_after [OF Enter(3,5,7) enter_amount [OF inv Enter(6)] this] show ?thesis using Enter(2) by simp
next
  case (Resume i ts op ops s s' w out ts')
  have inv: "inv s" "thread_ok s (ts ! i)" using assms(2) Resume(1,3) by (simp_all add: cfg_ok_def)
  then have wok: "wok s op" using Resume(4,5) by (simp add: thread_ok_def)
  have "rel (amount s + ledger outp ts) (b + ledger inp ts)" using assms(3) Resume(1) by simp
  from balance_after [OF Resume(3,5,7) resume_amount [OF inv(1) wok Resume(6)] this] show ?thesis
    using Resume(2) by simp
next
  case (Spurious i ts c s)
  then show ?thesis using assms(3) by (simp add: ledger_block)
qed

lemma reach_balance:
  assumes "mon_reach sp enter resume s0 progs st" "inv s0"
  shows "rel (amount (fst st) + ledger outp (snd st)) (amount s0 + ledger inp (snd st))"
  using assms(1)
proof induction
  case start
  then show ?case by (simp add: rel_refl)
next
  case (step st st')
  then show ?case by (intro step_balance [OF step.hyps(2) reach_ok [OF step.hyps(1) assms(2)]])
qed

end

subsection \<open>One waiting thread\<close>

text \<open>
  The pattern of signalling only when the waiting condition \<open>guard\<close> turns false: no wake-up is
  lost as long as one thread only makes calls that wait (those that \<open>wop\<close> selects).
\<close>

locale single_waiter =
  fixes enter :: "('s, 'c, 'op, 'r) piece"
    and resume :: "('s, 'c, 'op, 'r) piece"
    and cond :: 'c
    and guard :: "'s \<Rightarrow> bool"
    and wop :: "'op \<Rightarrow> bool"
  assumes enter_blocks: "enter op s = (s', w, Block c) \<Longrightarrow> wop op \<and> c = cond \<and> guard s'"
    and resume_blocks: "resume op s = (s', w, Block c) \<Longrightarrow> c = cond \<and> guard s'"
    and enter_signals: "enter op s = (s', w, out) \<Longrightarrow> guard s \<Longrightarrow> \<not> guard s' \<Longrightarrow> w = Signal cond \<or> w = Broadcast cond"
begin

text \<open>Threads other than \<open>k\<close> never wait; if \<open>k\<close> is blocked, its condition holds.\<close>

definition waiter_ok :: "nat \<Rightarrow> 's \<times> ('c, 'op, 'r) thread list \<Rightarrow> bool" where
  "waiter_ok k st \<longleftrightarrow>
     (\<forall>i < length (snd st). i \<noteq> k \<longrightarrow> t_stat (snd st ! i) = Running \<and> (\<forall>op \<in> set (t_todo (snd st ! i)). \<not> wop op)) \<and>
     (\<forall>c. k < length (snd st) \<and> t_stat (snd st ! k) = Blocked c \<longrightarrow> c = cond \<and> guard (fst st))"

lemma wakes_other:
  assumes "wakes w ts ts'" "i < length ts" "t_stat (ts ! i) = Running"
  shows "ts' ! i = ts ! i"
  using wakes_nth [OF assms(1,2)] assms(3) by auto

lemma wakes_waiter:
  assumes "wakes w ts ts'" "w = Signal cond \<or> w = Broadcast cond" "k < length ts"
    and "\<forall>i < length ts. i \<noteq> k \<longrightarrow> t_stat (ts ! i) = Running"
  shows "t_stat (ts' ! k) \<noteq> Blocked cond"
  using assms(1)
proof cases
  case (signal j c)
  then have "j = k" using assms(4) by auto
  then show ?thesis using signal assms(2,3) by (auto simp: wake_if_def)
next
  case (nobody c)
  then show ?thesis using assms(2,3) by auto
next
  case (broadcast c)
  then show ?thesis using assms(2,3) by (auto simp: wake_if_def)
qed (use assms(2) in auto)

text \<open>The thread that ran, and the one the piece may have woken.\<close>

lemma waiter_ok_after:
  assumes ok: "waiter_ok k (s, ts)" and i: "i < length ts" and w: "wakes w (ts[i := t]) ts'"
    and t: "i \<noteq> k \<Longrightarrow> t_stat t = Running \<and> (\<forall>op \<in> set (t_todo t). \<not> wop op)"
      "\<And>c. i = k \<Longrightarrow> t_stat t = Blocked c \<Longrightarrow> c = cond \<and> guard s'"
    and sig: "i \<noteq> k \<Longrightarrow> guard s \<Longrightarrow> \<not> guard s' \<Longrightarrow> w = Signal cond \<or> w = Broadcast cond"
  shows "waiter_ok k (s', ts')"
proof -
  have len: "length ts' = length ts" using wakes_length [OF w] by simp
  have others: "j < length ts \<Longrightarrow> j \<noteq> k \<Longrightarrow>
      t_stat (ts[i := t] ! j) = Running \<and> (\<forall>op \<in> set (t_todo (ts[i := t] ! j)). \<not> wop op)" for j
    using ok t(1) i by (cases "j = i") (auto simp: waiter_ok_def)
  then have others': "j < length ts \<Longrightarrow> j \<noteq> k \<Longrightarrow> ts' ! j = ts[i := t] ! j" for j
    using wakes_other [OF w, of j] by simp
  have "c = cond \<and> guard s'" if k: "k < length ts" "t_stat (ts' ! k) = Blocked c" for c
  proof -
    have b: "t_stat (ts[i := t] ! k) = Blocked c" using wakes_nth [OF w, of k] k by auto
    show ?thesis
    proof (cases "i = k")
      case True
      then show ?thesis using b t(2) [of c] i by simp
    next
      case False
      then have g: "c = cond" "guard s" using ok b k(1) by (auto simp: waiter_ok_def)
      then have "guard s'" using sig [OF False] wakes_waiter [OF w, of k] k others by auto
      with g show ?thesis by simp
    qed
  qed
  then show ?thesis using others others' len by (simp add: waiter_ok_def)
qed

lemma step_waiter_ok:
  assumes "mon_step sp enter resume st st'" "waiter_ok k st"
  shows "waiter_ok k st'"
  using assms(1)
proof cases
  case (Enter i ts op ops s s' w out ts')
  have ok: "waiter_ok k (s, ts)" using assms(2) Enter(1) by simp
  have other: "\<not> wop op \<and> (\<forall>op \<in> set ops. \<not> wop op)" if "i \<noteq> k"
    using ok that Enter(3,5) by (auto simp: waiter_ok_def)
  have "waiter_ok k (s', ts')"
  proof (rule waiter_ok_after [OF ok Enter(3,7)])
    show "t_stat (after_piece out (ts ! i)) = Running \<and> (\<forall>op \<in> set (t_todo (after_piece out (ts ! i))). \<not> wop op)"
      if "i \<noteq> k" using other [OF that] enter_blocks Enter(5,6) by (cases out) auto
    show "c = cond \<and> guard s'" if "t_stat (after_piece out (ts ! i)) = Blocked c" for c
      using that enter_blocks Enter(6) by (cases out) auto
  qed (use enter_signals [OF Enter(6)] in blast)
  then show ?thesis using Enter(2) by simp
next
  case (Resume i ts op ops s s' w out ts')
  have ok: "waiter_ok k (s, ts)" using assms(2) Resume(1) by simp
  have "i = k" using ok Resume(3,4) by (auto simp: waiter_ok_def)
  have "waiter_ok k (s', ts')"
  proof (rule waiter_ok_after [OF ok Resume(3,7)])
    show "c = cond \<and> guard s'" if "t_stat (after_piece out (ts ! i)) = Blocked c" for c
      using that resume_blocks Resume(6) by (cases out) auto
  qed (use \<open>i = k\<close> in simp_all)
  then show ?thesis using Resume(2) by simp
next
  case (Spurious i ts c s)
  have ok: "waiter_ok k (s, ts)" using assms(2) Spurious(1) by simp
  have "i = k" using ok Spurious(4,5) by (auto simp: waiter_ok_def)
  have "waiter_ok k (s, ts[i := wake_if c (ts ! i)])"
    by (rule waiter_ok_after [OF ok Spurious(4) no_wake]) (use \<open>i = k\<close> Spurious(5) in \<open>simp_all add: wake_if_def\<close>)
  then show ?thesis using Spurious(2) by simp
qed

lemma reach_waiter_ok:
  assumes "mon_reach sp enter resume s0 progs st"
    and "\<forall>i < length progs. i \<noteq> k \<longrightarrow> (\<forall>op \<in> set (progs ! i). \<not> wop op)"
  shows "waiter_ok k st"
  using assms(1)
proof induction
  case start
  then show ?case using assms(2) by (auto simp: waiter_ok_def fresh_thread_def)
next
  case (step st st')
  then show ?case using step_waiter_ok by blast
qed

lemma no_lost_wakeup:
  assumes "mon_reach sp enter resume s0 progs (s, ts)"
    and "\<forall>i < length progs. i \<noteq> k \<longrightarrow> (\<forall>op \<in> set (progs ! i). \<not> wop op)"
    and "i < length ts" "t_stat (ts ! i) = Blocked c"
  shows "guard s"
  using reach_waiter_ok [OF assms(1,2)] assms(3,4) by (cases "i = k") (auto simp: waiter_ok_def)

end

subsection \<open>One signal for each item\<close>

text \<open>
  The pattern of a signal with every item put: \<open>avail\<close> counts the items, a call waits only when there is none, and a woken call takes one.
  Then no wake-up is lost, however many threads wait.
\<close>

definition is_woken :: "('c, 'op, 'r) thread \<Rightarrow> bool" where
  "is_woken t \<longleftrightarrow> t_stat t = Woken"

definition is_blocked :: "('c, 'op, 'r) thread \<Rightarrow> bool" where
  "is_blocked t \<longleftrightarrow> (\<exists>c. t_stat t = Blocked c)"

lemma wake_if_counts:
  "is_blocked (wake_if c t) \<Longrightarrow> is_blocked t" "is_woken t \<Longrightarrow> is_woken (wake_if c t)"
  by (auto simp: is_blocked_def is_woken_def wake_if_def split: if_splits)

lemma wakes_counts:
  assumes "wakes w ts ts'"
  shows "n_threads is_woken ts \<le> n_threads is_woken ts'" "0 < n_threads is_blocked ts' \<Longrightarrow> 0 < n_threads is_blocked ts"
proof -
  have "n_threads is_woken ts \<le> n_threads is_woken (map (wake_if c) ts)" for c
    by (induction ts) (auto simp: n_threads_def dest: wake_if_counts)
  moreover have "n_threads is_woken ts \<le> n_threads is_woken (ts[j := wake_if c (ts ! j)])" if "j < length ts" for c j
    using wake_if_counts(2) [of "ts ! j" c] that by (auto simp: n_threads_update)
  ultimately show "n_threads is_woken ts \<le> n_threads is_woken ts'"
    using assms by (auto elim!: wakes_cases)
  show "0 < n_threads is_blocked ts" if "0 < n_threads is_blocked ts'"
    using that wakes_length [OF assms] wakes_nth [OF assms]
    by (fastforce simp: n_threads_pos_iff in_set_conv_nth is_blocked_def)
qed

locale signal_each = monitor enter resume inv wok
  for enter :: "('s, 'c, 'op, 'r) piece" and resume and inv and wok +
  fixes cond :: 'c
    and avail :: "'s \<Rightarrow> nat"
  assumes enter_waits: "inv s \<Longrightarrow> enter op s = (s', w, Block c) \<Longrightarrow> c = cond \<and> avail s' = 0"
    and resume_waits: "inv s \<Longrightarrow> wok s op \<Longrightarrow> resume op s = (s', w, Block c) \<Longrightarrow> c = cond \<and> avail s' = 0"
    and enter_puts: "inv s \<Longrightarrow> enter op s = (s', w, out) \<Longrightarrow> avail s' \<le> avail s \<or> avail s' \<le> avail s + 1 \<and> w = Signal cond"
    and resume_takes: "inv s \<Longrightarrow> wok s op \<Longrightarrow> resume op s = (s', w, Return r) \<Longrightarrow> avail s' \<le> avail s - 1"
begin

definition woken_ok :: "'s \<times> ('c, 'op, 'r) thread list \<Rightarrow> bool" where
  "woken_ok st \<longleftrightarrow> (\<forall>t \<in> set (snd st). \<forall>c. t_stat t = Blocked c \<longrightarrow> c = cond) \<and>
     (0 < n_threads is_blocked (snd st) \<longrightarrow> int (avail (fst st)) \<le> n_threads is_woken (snd st))"

lemma conds_after:
  assumes "\<forall>t \<in> set ts. \<forall>c. t_stat t = Blocked c \<longrightarrow> c = cond" "\<forall>c. t_stat t = Blocked c \<longrightarrow> c = cond" "wakes w (ts[i := t]) ts'"
  shows "\<forall>t \<in> set ts'. \<forall>c. t_stat t = Blocked c \<longrightarrow> c = cond"
proof (intro ballI allI impI)
  fix u c
  assume "u \<in> set ts'" "t_stat u = Blocked c"
  then obtain j where "j < length (ts[i := t])" "t_stat (ts[i := t] ! j) = Blocked c"
    using wakes_nth [OF assms(3)] wakes_length [OF assms(3)] by (fastforce simp: in_set_conv_nth)
  moreover from this have "ts[i := t] ! j \<in> insert t (set ts)"
    using set_update_subset_insert [of ts i t] nth_mem by blast
  ultimately show "c = cond"
    using assms(1,2) by auto
qed

text \<open>A signal with a blocked thread wakes one more.\<close>

lemma signal_wakes_one:
  assumes "wakes (Signal cond) ts ts'" "\<forall>t \<in> set ts. \<forall>c. t_stat t = Blocked c \<longrightarrow> c = cond" "0 < n_threads is_blocked ts"
  shows "n_threads is_woken ts' = n_threads is_woken ts + 1"
  using assms(1)
proof cases
  case (signal j)
  then show ?thesis
    by (simp add: n_threads_update is_woken_def wake_if_def)
next
  case nobody
  then show ?thesis
    using assms(2,3) by (auto simp: n_threads_pos_iff is_blocked_def)
qed

lemma step_woken_ok:
  assumes "mon_step sp enter resume st st'" "cfg_ok st" "woken_ok st"
  shows "woken_ok st'"
  using assms(1)
proof cases
  case (Enter i ts op ops s s' w out ts')
  let ?t = "after_piece out (ts ! i)"
  have ok: "woken_ok (s, ts)" using assms(3) Enter(1) by simp
  have inv: "inv s" using assms(2) Enter(1) by (simp add: cfg_ok_def)
  have cond: "\<forall>c. t_stat ?t = Blocked c \<longrightarrow> c = cond" using enter_waits [OF inv] Enter(6) by (cases out) auto
  have conds: "\<forall>t \<in> set ts'. \<forall>c. t_stat t = Blocked c \<longrightarrow> c = cond"
    using ok by (intro conds_after [OF _ cond Enter(7)]) (simp add: woken_ok_def)
  have conds1: "\<forall>t \<in> set (ts[i := ?t]). \<forall>c. t_stat t = Blocked c \<longrightarrow> c = cond"
    using ok by (intro conds_after [OF _ cond no_wake]) (simp add: woken_ok_def)
  have "int (avail s') \<le> n_threads is_woken ts'" if b: "0 < n_threads is_blocked ts'"
  proof (cases "is_block out")
    case True
    then show ?thesis using enter_waits [OF inv] Enter(6) n_threads_nonneg [of is_woken ts'] by (cases out) auto
  next
    case False
    then have run: "t_stat ?t = Running" by (cases out) simp_all
    then have same: "n_threads is_woken (ts[i := ?t]) = n_threads is_woken ts" "n_threads is_blocked (ts[i := ?t]) = n_threads is_blocked ts"
      using Enter(3,4) by (simp_all add: n_threads_update is_woken_def is_blocked_def)
    have b1: "0 < n_threads is_blocked (ts[i := ?t])" using wakes_counts(2) [OF Enter(7) b] .
    then have le: "int (avail s) \<le> n_threads is_woken ts" using ok same by (simp add: woken_ok_def)
    show ?thesis
    proof (cases "w = Signal cond")
      case True
      then have "n_threads is_woken ts' = n_threads is_woken (ts[i := ?t]) + 1"
        using signal_wakes_one [OF _ conds1 b1] Enter(7) by simp
      then show ?thesis using enter_puts [OF inv Enter(6)] le same by auto
    next
      case False
      then show ?thesis using enter_puts [OF inv Enter(6)] le same wakes_counts(1) [OF Enter(7)] by auto
    qed
  qed
  then show ?thesis using conds Enter(2) by (simp add: woken_ok_def)
next
  case (Resume i ts op ops s s' w out ts')
  let ?t = "after_piece out (ts ! i)"
  have ok: "woken_ok (s, ts)" using assms(3) Resume(1) by simp
  have inv: "inv s" "thread_ok s (ts ! i)" using assms(2) Resume(1,3) by (simp_all add: cfg_ok_def)
  then have wok: "wok s op" using Resume(4,5) by (simp add: thread_ok_def)
  have cond: "\<forall>c. t_stat ?t = Blocked c \<longrightarrow> c = cond" using resume_waits [OF inv(1) wok] Resume(6) by (cases out) auto
  have conds: "\<forall>t \<in> set ts'. \<forall>c. t_stat t = Blocked c \<longrightarrow> c = cond"
    using ok by (intro conds_after [OF _ cond Resume(7)]) (simp add: woken_ok_def)
  have "int (avail s') \<le> n_threads is_woken ts'" if b: "0 < n_threads is_blocked ts'"
  proof (cases out)
    case (Block c)
    then show ?thesis using resume_waits [OF inv(1) wok] Resume(6) n_threads_nonneg [of is_woken ts'] by auto
  next
    case (Return r)
    then have same: "n_threads is_woken (ts[i := ?t]) = n_threads is_woken ts - 1" "n_threads is_blocked (ts[i := ?t]) = n_threads is_blocked ts"
      using Resume(3,4) by (simp_all add: n_threads_update is_woken_def is_blocked_def)
    have "int (avail s) \<le> n_threads is_woken ts" using ok same wakes_counts(2) [OF Resume(7) b] by (simp add: woken_ok_def)
    moreover have "0 < n_threads is_woken ts" using Resume(3,4) by (auto simp: n_threads_pos_iff is_woken_def)
    ultimately show ?thesis using resume_takes [OF inv(1) wok] Resume(6) Return same wakes_counts(1) [OF Resume(7)] by auto
  qed
  then show ?thesis using conds Resume(2) by (simp add: woken_ok_def)
next
  case (Spurious i ts c s)
  have ok: "woken_ok (s, ts)" using assms(3) Spurious(1) by simp
  have "\<forall>d. t_stat (wake_if c (ts ! i)) = Blocked d \<longrightarrow> d = cond" using Spurious(5) by (simp add: wake_if_def)
  then have "\<forall>t \<in> set (ts[i := wake_if c (ts ! i)]). \<forall>c. t_stat t = Blocked c \<longrightarrow> c = cond"
    using ok by (intro conds_after [OF _ _ no_wake]) (simp_all add: woken_ok_def)
  moreover have "n_threads is_woken (ts[i := wake_if c (ts ! i)]) = n_threads is_woken ts + 1"
    "n_threads is_blocked (ts[i := wake_if c (ts ! i)]) = n_threads is_blocked ts - 1"
    using Spurious(4,5) by (simp_all add: n_threads_update is_woken_def is_blocked_def wake_if_def)
  ultimately show ?thesis using ok Spurious(2) by (auto simp: woken_ok_def)
qed

lemma no_item_waits:
  assumes "mon_reach sp enter resume s0 progs (s, ts)" "inv s0" "quiescent ts" "t \<in> set ts" "t_stat t = Blocked c"
  shows "avail s = 0"
proof -
  have "woken_ok st" if "mon_reach sp enter resume s0 progs st" for st
    using that
  proof induction
    case start
    then show ?case by (auto simp: woken_ok_def fresh_thread_def n_threads_pos_iff is_blocked_def)
  next
    case (step st st')
    then show ?case using step_woken_ok [OF step.hyps(2) reach_ok [OF step.hyps(1) assms(2)]] by blast
  qed
  then have "woken_ok (s, ts)" using assms(1) by blast
  moreover have "n_threads is_woken ts = 0"
    using assms(3) by (auto simp: n_threads_zero_iff quiescent_def is_woken_def split: status.splits)
  moreover have "0 < n_threads is_blocked ts"
    using assms(4,5) by (auto simp: n_threads_pos_iff is_blocked_def)
  ultimately show ?thesis by (simp add: woken_ok_def)
qed

end

end
