(* ===== verification/MsgQueueConc.thy ===== *)
theory MsgQueueConc
  imports MsgQueue Monitor
begin

text \<open>
  Several processes that send to and receive from one queue of
  \<^verbatim>\<open>src/unixipc/my_pxmsg_mmap\<close> at the same time: the calls of \<open>MsgQueue\<close> as the pieces
  of a \<open>Monitor\<close>, the mutex being \<open>mqh_lock\<close> and the only condition variable \<open>mqh_wait\<close>.
\<close>

subsection \<open>The calls as monitor pieces\<close>

datatype mq_op = SendOp mymq_info "byte list" u32 | RecvOp mymq_info nat

datatype mq_result = SendRes "unit res" | RecvRes "(byte list \<times> u32) res" | MqFatal

fun mq_piece :: "('r res \<Rightarrow> mq_result) \<Rightarrow> 'r mq_out \<Rightarrow> mq_region \<times> unit wake \<times> (unit, mq_result) outcome" where
  "mq_piece f (m, e, r) =
     (m, if eff_signal e then Signal () else NoWake,
      case r of MqRet x \<Rightarrow> Return (f x) | MqWait \<Rightarrow> Block () | MqDump \<Rightarrow> Return MqFatal | MqHang \<Rightarrow> Return MqFatal)"

fun mq_enter :: "(mq_region, unit, mq_op, mq_result) piece" where
  "mq_enter (SendOp info msg prio) m = mq_piece SendRes (mymq_send info None msg prio m)"
| "mq_enter (RecvOp info maxlen) m = mq_piece RecvRes (mymq_receive info None maxlen m)"

fun mq_resume :: "(mq_region, unit, mq_op, mq_result) piece" where
  "mq_resume (SendOp info msg prio) m = mq_piece SendRes (mymq_send_resume msg prio m)"
| "mq_resume (RecvOp info maxlen) m = mq_piece RecvRes (mymq_receive_resume m)"

fun is_recv :: "mq_op \<Rightarrow> bool" where
  "is_recv (RecvOp _ _) = True"
| "is_recv (SendOp _ _ _) = False"

text \<open>A sender waits with a message that fits.\<close>

fun mq_wok :: "mq_region \<Rightarrow> mq_op \<Rightarrow> bool" where
  "mq_wok m (SendOp info msg prio) = (int (length msg) \<le> mq_msgsize (mq_attr m))"
| "mq_wok m (RecvOp info maxlen) = True"

text \<open>The messages that finished calls have put into the queue and taken out of it.\<close>

fun mq_put :: "mq_op \<times> mq_result \<Rightarrow> pmsg multiset" where
  "mq_put (SendOp info msg prio, SendRes (Inr _)) = {#(prio, msg)#}"
| "mq_put _ = {#}"

fun mq_got :: "mq_op \<times> mq_result \<Rightarrow> pmsg multiset" where
  "mq_got (RecvOp info maxlen, RecvRes (Inr (msg, prio))) = {#(prio, msg)#}"
| "mq_got _ = {#}"

subsection \<open>What one piece does\<close>

text \<open>The cases of a piece on a valid queue.\<close>

definition mq_piece_ok :: "abi \<Rightarrow> mq_op \<Rightarrow> mq_region \<Rightarrow> int \<Rightarrow> mq_region \<times> unit wake \<times> (unit, mq_result) outcome \<Rightarrow> bool" where
  "mq_piece_ok a op m waiting p = (case p of (m', w, out) \<Rightarrow>
     mq_inv a m' \<and> mq_msgsize (mq_attr m') = mq_msgsize (mq_attr m) \<and>
     mqh_nwait (mq_hdr m') = mqh_nwait (mq_hdr m) - waiting + of_bool (is_recv op \<and> is_block out) \<and>
     (case out of Block _ \<Rightarrow> mq_contents m' = mq_contents m \<and> mq_wok m op
      | Return r \<Rightarrow> r \<noteq> MqFatal \<and>
          mset (mq_contents m') + mq_got (op, r) = mset (mq_contents m) + mq_put (op, r)))"

lemma mq_send2_piece:
  assumes "mq_inv a m" "mq_curmsgs (mq_attr m) < mq_maxmsg (mq_attr m)"
    "int (length msg) \<le> mq_msgsize (mq_attr m)"
  shows "mq_piece_ok a (SendOp info msg prio) m 0 (mq_piece SendRes (mq_send2 msg prio m))"
  by (rule mq_send2_ok [OF assms, where prio = prio]) (simp add: mq_piece_ok_def)

lemma mq_receive2_piece:
  assumes "mq_inv a m" "mq_curmsgs (mq_attr m) \<noteq> 0"
  shows "mq_piece_ok a (RecvOp info maxlen) m 0 (mq_piece RecvRes (mq_receive2 m))"
proof -
  obtain x xs where c: "mq_contents m = x # xs"
    using assms mq_inv_curmsgs [OF assms(1)] by (cases "mq_contents m") auto
  then show ?thesis by (rule mq_receive2_ok [OF assms(1)]) (simp add: mq_piece_ok_def c)
qed

lemma mq_piece_ok_error [simp]:
  "mq_inv a m \<Longrightarrow> mq_piece_ok a (SendOp info msg prio) m 0 (mq_piece SendRes (m, no_eff, MqRet (Inl n)))"
  "mq_inv a m \<Longrightarrow> mq_piece_ok a (RecvOp info maxlen) m 0 (mq_piece RecvRes (m, no_eff, MqRet (Inl n)))"
  by (simp_all add: mq_piece_ok_def)

lemma mq_enter_ok:
  assumes "mq_inv a m"
  shows "mq_piece_ok a op m 0 (mq_enter op m)"
proof (cases op)
  case (SendOp info msg prio)
  show ?thesis
  proof (cases "mqi_magic info = MQI_MAGIC \<and> int (length msg) \<le> mq_msgsize (mq_attr m) \<and>
      length (mq_contents m) < nat (mq_maxmsg (mq_attr m))")
    case True
    then have r: "mqi_magic info = MQI_MAGIC" "length (mq_contents m) < nat (mq_maxmsg (mq_attr m))"
      "int (length msg) \<le> mq_msgsize (mq_attr m)" by simp_all
    show ?thesis
      by (rule mq_send_room [OF assms r, where prio = prio]) (simp add: SendOp mq_piece_ok_def)
  next
    case False
    have pos: "0 < mq_maxmsg (mq_attr m)" using assms by (auto simp: mq_inv_def mq_rel_def)
    have "mqi_magic info \<noteq> MQI_MAGIC \<or> mq_msgsize (mq_attr m) < int (length msg) \<or>
        mqi_magic info = MQI_MAGIC \<and> \<not> mq_msgsize (mq_attr m) < int (length msg) \<and>
        mq_maxmsg (mq_attr m) \<le> mq_curmsgs (mq_attr m)"
      using False mq_inv_curmsgs [OF assms] by linarith
    then show ?thesis using assms pos
      by (elim disjE conjE) (simp_all add: SendOp mymq_send_def mq_piece_ok_def no_eff_def)
  qed
next
  case (RecvOp info maxlen)
  show ?thesis
  proof (cases "mqi_magic info = MQI_MAGIC \<and> mq_msgsize (mq_attr m) \<le> int maxlen \<and> mq_curmsgs (mq_attr m) \<noteq> 0")
    case True
    then show ?thesis using mq_receive2_piece [OF assms] by (simp add: RecvOp mymq_receive_def)
  next
    case False
    then show ?thesis using assms by (simp add: RecvOp mymq_receive_def mq_piece_ok_def no_eff_def)
  qed
qed

lemma mq_resume_ok:
  assumes "mq_inv a m" "mq_wok m op"
  shows "mq_piece_ok a op m (of_bool (is_recv op)) (mq_resume op m)"
proof (cases op)
  case (SendOp info msg prio)
  then show ?thesis using assms mq_send2_piece [OF assms(1), of msg info prio]
    by (auto simp: mymq_send_resume_def mq_piece_ok_def no_eff_def)
next
  case (RecvOp info maxlen)
  then show ?thesis using assms mq_receive2_piece [of a "add_nwait (-1) m" info maxlen]
    by (auto simp: mymq_receive_resume_def mq_piece_ok_def no_eff_def split: outcome.splits)
qed

lemma mq_wok_msgsize: "mq_msgsize (mq_attr m') = mq_msgsize (mq_attr m) \<Longrightarrow> mq_wok m' op = mq_wok m op"
  by (cases op) simp_all

subsection \<open>The queue is a monitor\<close>

interpretation mqm: monitor_count mq_enter mq_resume "mq_inv a" mq_wok "\<lambda>m. mqh_nwait (mq_hdr m)" is_recv for a
proof (unfold_locales, goal_cases)
  case (1 s op s' w out)
  then show ?case using mq_enter_ok [OF 1(1), of op] mq_wok_msgsize [of s' s op]
    by (auto simp: mq_piece_ok_def)
next
  case (2 s op s' w out)
  then show ?case using mq_resume_ok [OF 2(1,2)] mq_wok_msgsize [of s' s op]
    by (auto simp: mq_piece_ok_def)
next
  case (3 s op s' w out op')
  then show ?case using mq_enter_ok [OF 3(1), of op] mq_wok_msgsize [of s' s op'] by (simp add: mq_piece_ok_def)
next
  case (4 s op s' w out op')
  then show ?case using mq_resume_ok [OF 4(1,2)] mq_wok_msgsize [of s' s op'] by (simp add: mq_piece_ok_def)
next
  case (5 s op s' w out)
  then show ?case using mq_enter_ok [OF 5(1), of op] by (simp add: mq_piece_ok_def)
next
  case (6 s op s' w out)
  then show ?case using mq_resume_ok [OF 6(1,2)] by (auto simp: mq_piece_ok_def)
qed

interpretation mql: monitor_ledger mq_enter mq_resume "mq_inv a" mq_wok "(=)"
  "\<lambda>m. mset (mq_contents m)" mq_put mq_got for a
proof (unfold_locales, goal_cases)
  case (4 s op s' w out)
  then show ?case using mq_enter_ok [OF 4(1), of op] by (simp add: mq_piece_ok_def split: outcome.splits)
next
  case (5 s op s' w out)
  then show ?case using mq_resume_ok [OF 5(1,2)] by (simp add: mq_piece_ok_def split: outcome.splits)
qed simp_all

subsection \<open>An execution with two receivers\<close>

text \<open>A queue of three slots, two receivers and one thread that sends two messages.\<close>

definition three_mq :: mq_region where
  "three_mq = mq_init lp64 (small_attr\<lparr>mq_maxmsg := 3\<rparr>) zero_region"

lemma three_mq_inv: "mq_inv lp64 three_mq" "mq_contents three_mq = []"
proof -
  have "mq_rel lp64 three_mq [] (slot_addrs lp64 (small_attr\<lparr>mq_maxmsg := 3\<rparr>))"
    unfolding three_mq_def
    by (rule mq_init_inv) (simp_all add: abi_ok_def lp64_def small_attr_def zero_region_def MSGSIZE_def)
  then show "mq_inv lp64 three_mq" "mq_contents three_mq = []"
    using mq_rel_contents by (auto simp: mq_inv_def)
qed

definition two_recv_progs :: "mq_op list list" where
  "two_recv_progs = [[RecvOp (mq_handle 0) 16], [RecvOp (mq_handle 0) 16],
                     [SendOp (mq_handle 0) [1] 0, SendOp (mq_handle 0) [2] 0]]"

definition two_recv_run :: "(mq_region \<times> (unit, mq_op, mq_result) thread list) option" where
  "two_recv_run = exec_schedule mq_enter mq_resume [(0, 0), (1, 0), (2, 0), (2, 0), (0, 0)]
     (three_mq, map fresh_thread two_recv_progs)"

lemma two_recv_run_result:
  "map_option (\<lambda>(m, ts). (mq_curmsgs (mq_attr m), map t_stat ts, map (length \<circ> t_todo) ts)) two_recv_run =
     Some (1, [Running, Blocked (), Running], [0, 1, 0])"
  by code_simp

lemma two_recv_run_reach:
  obtains m ts where "mon_reach sp mq_enter mq_resume three_mq two_recv_progs (m, ts)"
    "mq_curmsgs (mq_attr m) = 1" "map t_stat ts = [Running, Blocked (), Running]" "map (length \<circ> t_todo) ts = [0, 1, 0]"
proof -
  obtain m ts where r: "two_recv_run = Some (m, ts)"
    "mq_curmsgs (mq_attr m) = 1" "map t_stat ts = [Running, Blocked (), Running]" "map (length \<circ> t_todo) ts = [0, 1, 0]"
    using two_recv_run_result by (auto simp: map_option_case split: option.splits)
  have "mon_reach sp mq_enter mq_resume three_mq two_recv_progs (m, ts)"
    by (rule exec_schedule_start [OF r(1) [unfolded two_recv_run_def]])
  then show thesis by (rule that [OF _ r(2-4)])
qed

lemma quiescent_from_maps:
  assumes "map t_stat ts = [Running, Blocked (), Running]" "map (length \<circ> t_todo) ts = [0, 1, 0]"
  shows "quiescent ts" "t_stat (ts ! 1) = Blocked ()"
proof -
  obtain x y z where "ts = [x, y, z]" using assms(1) by (auto simp: map_eq_Cons_conv)
  then show "quiescent ts" "t_stat (ts ! 1) = Blocked ()" using assms by (auto simp: quiescent_def)
qed

subsection \<open>Properties\<close>

text \<open>
  C2. In every interleaving of sends and receives by any number of threads, with spurious
  wake-ups allowed: the queue stays valid, \<open>mqh_nwait\<close> is the number of receivers inside their
  wait, and no message is lost, duplicated or changed (those in the queue and those received are
  those there at the start and those sent).
\<close>

theorem mq_interleavings_safe:
  assumes "mon_reach sp mq_enter mq_resume m0 progs (m, ts)" "mq_inv a m0"
  shows "mq_inv a m \<and>
    mqh_nwait (mq_hdr m) = mqh_nwait (mq_hdr m0) + n_in_call is_recv ts \<and>
    mset (mq_contents m) + ledger mq_got ts = mset (mq_contents m0) + ledger mq_put ts"
  using mqm.reach_inv [OF assms] mqm.reach_cnt [OF assms] mql.reach_balance [OF assms] by simp

theorem mq_interleavings_safe_witness:
  "\<exists>m ts. mon_reach True mq_enter mq_resume three_mq two_recv_progs (m, ts) \<and> mq_inv lp64 m \<and>
     mset (mq_contents m) + ledger mq_got ts = ledger mq_put ts"
proof -
  obtain m ts where r: "mon_reach True mq_enter mq_resume three_mq two_recv_progs (m, ts)"
    by (rule two_recv_run_reach)
  then show ?thesis using mq_interleavings_safe [OF r three_mq_inv(1)] three_mq_inv(2) by auto
qed

text \<open>
  C37. Wake-ups can be lost when two receivers wait: \<open>mymq_send\<close> signals only a send to an
  empty queue, and one signal wakes one receiver. Two sends in a row leave the second receiver
  blocked for ever with a message in the queue, no thread being able to run.
\<close>

theorem mq_lost_wakeup:
  "\<exists>m ts. mon_reach False mq_enter mq_resume three_mq two_recv_progs (m, ts) \<and>
     mq_curmsgs (mq_attr m) = 1 \<and> t_stat (ts ! 1) = Blocked () \<and>
     (\<nexists>st. mon_step False mq_enter mq_resume (m, ts) st)"
proof -
  obtain m ts where r: "mon_reach False mq_enter mq_resume three_mq two_recv_progs (m, ts)"
    "mq_curmsgs (mq_attr m) = 1" "map t_stat ts = [Running, Blocked (), Running]" "map (length \<circ> t_todo) ts = [0, 1, 0]"
    by (rule two_recv_run_reach)
  have "\<nexists>st. mon_step False mq_enter mq_resume (m, ts) st"
    by (simp add: quiescent_no_step [OF quiescent_from_maps(1) [OF r(3,4)]])
  with r(1,2) quiescent_from_maps(2) [OF r(3,4)] show ?thesis by (intro exI conjI)
qed

text \<open>
  A send that had to wait for room never notifies: when it finds the queue empty, with a
  registered process and no blocked receiver, it queues the message, sends no signal and leaves the
  registration in place, where the same call without a wait would have notified.
\<close>

theorem mymq_send_resume_no_notification:
  assumes "mq_inv a m" "mqi_magic info = MQI_MAGIC" "mq_contents m = []" "mqh_pid (mq_hdr m) \<noteq> 0"
    "mqh_nwait (mq_hdr m) = 0" "sigev_notify (mqh_event (mq_hdr m)) = SIGEV_SIGNAL"
    "int (length msg) \<le> mq_msgsize (mq_attr m)"
  shows "\<exists>m' e' m'' e''. mymq_send_resume msg prio m = (m', e', MqRet (Inr ())) \<and>
      mq_contents m' = [(prio, msg)] \<and> eff_sigqueue e' = None \<and> mqh_pid (mq_hdr m') = mqh_pid (mq_hdr m) \<and>
      mymq_send info None msg prio m = (m'', e'', MqRet (Inr ())) \<and> eff_sigqueue e'' \<noteq> None"
proof -
  have z: "mq_curmsgs (mq_attr m) = 0" using mq_inv_curmsgs [OF assms(1)] assms(3) by simp
  have pos: "0 < mq_maxmsg (mq_attr m)" using assms(1) by (auto simp: mq_inv_def mq_rel_def)
  then have lt: "mq_curmsgs (mq_attr m) < mq_maxmsg (mq_attr m)"
    "length (mq_contents m) < nat (mq_maxmsg (mq_attr m))" using z assms(3) by simp_all
  obtain m' where m': "mq_send2 msg prio m = (m', no_eff\<lparr>eff_signal := (mq_contents m = [])\<rparr>, MqRet (Inr ()))"
    "mq_contents m' = prio_insert (prio, msg) (mq_contents m)" "mqh_pid (mq_hdr m') = mqh_pid (mq_hdr m)"
    by (rule mq_send2_ok [OF assms(1) lt(1) assms(7), where prio = prio]) blast
  then have "mymq_send_resume msg prio m = (m', no_eff\<lparr>eff_signal := True\<rparr>, MqRet (Inr ()))"
    using lt(1) assms(3) by (simp add: mymq_send_resume_def)
  moreover obtain m'' e'' where "mymq_send info None msg prio m = (m'', e'', MqRet (Inr ()))" "eff_sigqueue e'' \<noteq> None"
    by (rule mq_send_room [OF assms(1,2) lt(2) assms(7), where prio = prio]) (use assms in auto)
  ultimately show ?thesis using m'(2,3) assms(3) by (auto simp: no_eff_def)
qed

theorem mymq_send_resume_no_notification_witness:
  "\<exists>m' e'. mymq_send_resume [1] 0 (fst (mymq_notify (mq_handle 0) None 77 (\<lambda>_. None)
       (Some \<lparr>sigev_notify = SIGEV_SIGNAL, sigev_signo = 10, sigev_val = 5\<rparr>) small_mq)) = (m', e', MqRet (Inr ())) \<and>
     eff_sigqueue e' = None \<and> mqh_pid (mq_hdr m') = 77"
proof -
  let ?m = "fst (mymq_notify (mq_handle 0) None 77 (\<lambda>_. None)
       (Some \<lparr>sigev_notify = SIGEV_SIGNAL, sigev_signo = 10, sigev_val = 5\<rparr>) small_mq)"
  have m: "mq_inv lp64 ?m" "mq_contents ?m = []" "mqh_pid (mq_hdr ?m) = 77" "mqh_nwait (mq_hdr ?m) = 0"
    "sigev_notify (mqh_event (mq_hdr ?m)) = SIGEV_SIGNAL" "mq_msgsize (mq_attr ?m) = 16"
    by (simp_all add: mymq_notify_def mq_handle_def)
  show ?thesis
    using mymq_send_resume_no_notification [OF m(1), of "mq_handle 0" "[1]" 0] m by (auto simp: mq_handle_def)
qed

end
