(* ===== verification/Posix.thy ===== *)
theory Posix
  imports Prelude
begin

unbundle bit_operations_syntax

text \<open>
  The operating system as seen by the open and close functions of the IPC libraries. A system (or
  C library) call is a value of type \<open>syscall\<close>; its outcome is decided by an environment that is a
  parameter of every function that makes calls and may depend on all calls made so far. The
  functions thread the trace of calls and outcomes, the latest first, on which the
  properties about file descriptors, mappings and created names are stated.
\<close>

subsection \<open>Calls, traces and environments\<close>

datatype syscall =
    SysOpen string int int
  | SysClose int
  | SysWrite int int
  | SysLseek int int
  | SysMmap int int
  | SysMunmap int int
  | SysFchmod int int
  | SysStat string
  | SysStatSize string
  | SysUnlink string
  | SysSleep int
  | SysMalloc
  | SysFree int
  | SysPthread string
  | SysSysconf
  | SysMkfifo string int
  | SysGetfl int
  | SysSetfl int int
  | SysFtok string
  | SysSemget int int int
  | SysSemctl int string int
  | SysSemop int int int

type_synonym trace = "(syscall \<times> int res) list"
type_synonym env = "trace \<Rightarrow> syscall \<Rightarrow> int res"

definition sys :: "env \<Rightarrow> syscall \<Rightarrow> trace \<Rightarrow> int res \<times> trace" where
  "sys env c h = (env h c, (c, env h c) # h)"

text \<open>A call whose outcome the code ignores.\<close>

definition sys_void :: "env \<Rightarrow> syscall \<Rightarrow> trace \<Rightarrow> trace" where
  "sys_void env c h = snd (sys env c h)"

text \<open>
  The error code with which an open function fails, \<open>None\<close> when it leaves \<^verbatim>\<open>errno\<close> as
  it was before.
\<close>

type_synonym fail = "errno option"

definition S_IXUSR :: int where "S_IXUSR = 0x40"

definition has_flag :: "int \<Rightarrow> int \<Rightarrow> bool" where
  "has_flag fl b \<longleftrightarrow> fl AND b \<noteq> 0"

definition MAX_TRIES :: nat where "MAX_TRIES = 10"

subsection \<open>Resources in a trace\<close>

fun opened :: "trace \<Rightarrow> int multiset" where
  "opened ((SysOpen p f m, Inr fd) # h) = add_mset fd (opened h)"
| "opened (x # h) = opened h"
| "opened [] = {#}"

text \<open>Closing a negative descriptor has no effect.\<close>

fun closed :: "trace \<Rightarrow> int multiset" where
  "closed ((SysClose fd, r) # h) = (if fd < 0 then closed h else add_mset fd (closed h))"
| "closed (x # h) = closed h"
| "closed [] = {#}"

fun mapped :: "trace \<Rightarrow> int multiset" where
  "mapped ((SysMmap n fd, Inr a) # h) = add_mset a (mapped h)"
| "mapped (x # h) = mapped h"
| "mapped [] = {#}"

fun unmapped :: "trace \<Rightarrow> int multiset" where
  "unmapped ((SysMunmap a n, r) # h) = add_mset a (unmapped h)"
| "unmapped (x # h) = unmapped h"
| "unmapped [] = {#}"

fun allocated :: "trace \<Rightarrow> int multiset" where
  "allocated ((SysMalloc, Inr a) # h) = add_mset a (allocated h)"
| "allocated (x # h) = allocated h"
| "allocated [] = {#}"

fun freed :: "trace \<Rightarrow> int multiset" where
  "freed ((SysFree a, r) # h) = add_mset a (freed h)"
| "freed (x # h) = freed h"
| "freed [] = {#}"

fun unlinked :: "trace \<Rightarrow> string list" where
  "unlinked ((SysUnlink p, r) # h) = p # unlinked h"
| "unlinked (x # h) = unlinked h"
| "unlinked [] = []"

text \<open>\<^verbatim>\<open>open\<close> returns descriptors that are not negative.\<close>

definition env_ok :: "env \<Rightarrow> bool" where
  "env_ok env \<longleftrightarrow> (\<forall>h p f m fd. env h (SysOpen p f m) = Inr fd \<longrightarrow> 0 \<le> fd)"

lemma env_okD: "env_ok env \<Longrightarrow> env h (SysOpen p f m) = Inr fd \<Longrightarrow> 0 \<le> fd"
  by (auto simp: env_ok_def)

definition no_enoent :: "env \<Rightarrow> bool" where
  "no_enoent env \<longleftrightarrow> (\<forall>h c. env h c \<noteq> Inl ENOENT)"

subsection \<open>Process-shared locks\<close>

text \<open>
  Initialisation of the process-shared mutex and condition variable; \<open>Some i\<close> is the error with
  which the code goes to \<open>pthreaderr\<close>.
\<close>

definition pthread_shared_init :: "env \<Rightarrow> trace \<Rightarrow> errno option \<times> trace" where
  "pthread_shared_init env h =
     (case sys env (SysPthread ''mutexattr_init'') h of (Inl i, h) \<Rightarrow> (Some i, h) | (Inr _, h) \<Rightarrow>
      case sys env (SysPthread ''mutex_init'') (sys_void env (SysPthread ''mutexattr_setpshared'') h) of (r, h) \<Rightarrow>
      let h = sys_void env (SysPthread ''mutexattr_destroy'') h in
      case r of Inl i \<Rightarrow> (Some i, h) | Inr _ \<Rightarrow>
      case sys env (SysPthread ''condattr_init'') h of (Inl i, h) \<Rightarrow> (Some i, h) | (Inr _, h) \<Rightarrow>
      case sys env (SysPthread ''cond_init'') (sys_void env (SysPthread ''condattr_setpshared'') h) of (r, h) \<Rightarrow>
      let h = sys_void env (SysPthread ''condattr_destroy'') h in
      case r of Inl i \<Rightarrow> (Some i, h) | Inr _ \<Rightarrow> (None, h))"

lemma pthread_shared_init_trace:
  "(\<And>h f r. F ((SysPthread f, r) # h) = F h) \<Longrightarrow> F (snd (pthread_shared_init env h)) = F h"
  by (simp add: pthread_shared_init_def sys_void_def sys_def Let_def split: sum.split)

lemma pthread_shared_init_simps [simp]:
  "opened (snd (pthread_shared_init env h)) = opened h"
  "closed (snd (pthread_shared_init env h)) = closed h"
  "mapped (snd (pthread_shared_init env h)) = mapped h"
  "unmapped (snd (pthread_shared_init env h)) = unmapped h"
  "unlinked (snd (pthread_shared_init env h)) = unlinked h"
  "allocated (snd (pthread_shared_init env h)) = allocated h"
  "freed (snd (pthread_shared_init env h)) = freed h"
  by (simp_all add: pthread_shared_init_trace)

lemma pthread_shared_init_eq:
  "pthread_shared_init env h = (i, h') \<Longrightarrow> opened h' = opened h \<and> closed h' = closed h \<and>
     mapped h' = mapped h \<and> unmapped h' = unmapped h \<and> unlinked h' = unlinked h \<and> allocated h' = allocated h \<and> freed h' = freed h"
  using pthread_shared_init_simps [of env h] by simp

end
