(* ===== verification/MsgQueueOpen.thy ===== *)
theory MsgQueueOpen
  imports Posix MsgQueue
begin

text \<open>
  \<^verbatim>\<open>src/unixipc/my_pxmsg_mmap/mq_open.c\<close> and \<^verbatim>\<open>mq_unlink.c\<close>: creation and opening of a
  queue. The contents that a creator writes are \<open>mq_init\<close> of \<open>MsgQueue\<close>; this theory
  models the sequence of system calls around it and its error paths.
\<close>

subsection \<open>mymq_open\<close>

text \<open>
  What a successful call returns: the address of the \<^verbatim>\<open>mymq_info\<close>, the address of the
  mapping, the contents of the \<^verbatim>\<open>mymq_info\<close>, and the attributes with which the call has
  initialised the queue, if it has created it.
\<close>

type_synonym mymq_opened = "int \<times> int \<times> mymq_info \<times> mymq_attr option"

text \<open>Label \<open>err\<close>; \<open>None\<close> stands for \<^verbatim>\<open>MAP_FAILED\<close> and for the null pointer.\<close>

definition mymq_open_err ::
  "env \<Rightarrow> string \<Rightarrow> bool \<Rightarrow> int option \<Rightarrow> int \<Rightarrow> int option \<Rightarrow> int \<Rightarrow> fail \<Rightarrow> trace \<Rightarrow> (fail + mymq_opened) \<times> trace" where
  "mymq_open_err env path created mptr filesize mqinfo fd e h =
     (let h1 = (if created then sys_void env (SysUnlink path) h else h);
          h2 = (case mptr of None \<Rightarrow> h1 | Some a \<Rightarrow> sys_void env (SysMunmap a filesize) h1);
          h3 = (case mqinfo of None \<Rightarrow> h2 | Some p \<Rightarrow> sys_void env (SysFree p) h2)
      in (Inl e, sys_void env (SysClose fd) h3))"

definition mymq_open_create ::
  "abi \<Rightarrow> env \<Rightarrow> string \<Rightarrow> int \<Rightarrow> int \<Rightarrow> mymq_attr option \<Rightarrow> int \<Rightarrow> trace \<Rightarrow> (fail + mymq_opened) \<times> trace" where
  "mymq_open_create a env path nonblock mode attr fd h =
     (let at = (case attr of None \<Rightarrow> defattr | Some at \<Rightarrow> at);
          filesize = sint (mq_filesize a at) in
      if attr \<noteq> None \<and> (mq_maxmsg at \<le> 0 \<or> mq_msgsize at \<le> 0)
      then mymq_open_err env path True None filesize None fd (Some EINVAL) h
      else case sys env (SysLseek fd (filesize - 1)) h of
        (Inl e, h) \<Rightarrow> mymq_open_err env path True None filesize None fd (Some e) h
      | (Inr _, h) \<Rightarrow>
       (case sys env (SysWrite fd 1) h of
          (Inl e, h) \<Rightarrow> mymq_open_err env path True None filesize None fd (Some e) h
        | (Inr _, h) \<Rightarrow>
         (case sys env (SysMmap filesize fd) h of
            (Inl e, h) \<Rightarrow> mymq_open_err env path True None filesize None fd (Some e) h
          | (Inr mptr, h) \<Rightarrow>
           (case sys env SysMalloc h of
              (Inl e, h) \<Rightarrow> mymq_open_err env path True (Some mptr) filesize None fd (Some e) h
            | (Inr p, h) \<Rightarrow>
             (case pthread_shared_init env h of
                (Some i, h) \<Rightarrow> mymq_open_err env path True (Some mptr) filesize (Some p) fd (Some i) h
              | (None, h) \<Rightarrow>
               (case sys env (SysFchmod fd mode) h of
                  (Inl e, h) \<Rightarrow> mymq_open_err env path True (Some mptr) filesize (Some p) fd (Some e) h
                | (Inr _, h) \<Rightarrow>
                    (Inr (p, mptr, \<lparr>mqi_magic = MQI_MAGIC, mqi_flags = nonblock\<rparr>, Some at),
                     sys_void env (SysClose fd) h)))))))"

text \<open>
  The loop that waits for the creator: \<open>Inr\<close> when the file is ready, \<open>Inl\<close> when the code goes to
  \<open>err\<close> with an error, or to \<open>again\<close> (\<open>Inl None\<close>).
\<close>

fun mymq_open_wait ::
  "nat \<Rightarrow> env \<Rightarrow> string \<Rightarrow> int \<Rightarrow> int \<Rightarrow> trace \<Rightarrow> (errno option + unit) \<times> trace" where
  "mymq_open_wait 0 env path oflag fd h = (Inl (Some ETIMEDOUT), h)"
| "mymq_open_wait (Suc n) env path oflag fd h =
     (case sys env (SysStat path) h of
        (Inl e, h) \<Rightarrow>
          if e = ENOENT \<and> has_flag oflag O_CREAT then (Inl None, sys_void env (SysClose fd) h)
          else (Inl (Some e), h)
      | (Inr m, h) \<Rightarrow>
          if \<not> has_flag m S_IXUSR then (Inr (), h)
          else mymq_open_wait n env path oflag fd (sys_void env (SysSleep 1) h))"

text \<open>
  Label \<open>exists\<close>; the result \<open>None\<close> is \<^verbatim>\<open>goto again\<close>. \<open>stat_size\<close> is the size that the last
  \<^verbatim>\<open>stat\<close> reported.
\<close>

definition mymq_open_exists ::
  "env \<Rightarrow> (trace \<Rightarrow> int) \<Rightarrow> string \<Rightarrow> int \<Rightarrow> int \<Rightarrow> trace \<Rightarrow> (fail + mymq_opened) option \<times> trace" where
  "mymq_open_exists env stat_size path oflag nonblock h =
     (case sys env (SysOpen path O_RDWR 0) h of
        (Inl e, h) \<Rightarrow>
          if e = ENOENT \<and> has_flag oflag O_CREAT then (None, h)
          else apfst Some (mymq_open_err env path False None 0 None (-1) (Some e) h)
      | (Inr fd, h) \<Rightarrow>
       (case mymq_open_wait MAX_TRIES env path oflag fd h of
          (Inl None, h) \<Rightarrow> (None, h)
        | (Inl (Some e), h) \<Rightarrow> apfst Some (mymq_open_err env path False None 0 None fd (Some e) h)
        | (Inr _, h) \<Rightarrow>
         (let filesize = stat_size h in
          case sys env (SysMmap filesize fd) h of
            (Inl e, h) \<Rightarrow> apfst Some (mymq_open_err env path False None filesize None fd (Some e) h)
          | (Inr mptr, h) \<Rightarrow>
           (let h = sys_void env (SysClose fd) h in
            case sys env SysMalloc h of
              (Inl e, h) \<Rightarrow> apfst Some (mymq_open_err env path False (Some mptr) filesize None fd (Some e) h)
            | (Inr p, h) \<Rightarrow> (Some (Inr (p, mptr, \<lparr>mqi_magic = MQI_MAGIC, mqi_flags = nonblock\<rparr>, None)), h)))))"

definition mymq_open_step ::
  "abi \<Rightarrow> env \<Rightarrow> (trace \<Rightarrow> int) \<Rightarrow> string \<Rightarrow> int \<Rightarrow> int \<Rightarrow> int \<Rightarrow> mymq_attr option \<Rightarrow> trace
     \<Rightarrow> (fail + mymq_opened) option \<times> trace" where
  "mymq_open_step a env stat_size path oflag nonblock mode attr h =
     (if has_flag oflag O_CREAT then
        (case sys env (SysOpen path (oflag OR O_EXCL OR O_RDWR) (mode OR S_IXUSR)) h of
           (Inl e, h) \<Rightarrow>
             if e = EEXIST \<and> \<not> has_flag oflag O_EXCL then mymq_open_exists env stat_size path oflag nonblock h
             else (Some (Inl (Some e)), h)
         | (Inr fd, h) \<Rightarrow> apfst Some (mymq_open_create a env path nonblock mode attr fd h))
      else mymq_open_exists env stat_size path oflag nonblock h)"

text \<open>The passes from \<open>again\<close>, at most as many as the fuel.\<close>

fun mymq_open_loop ::
  "nat \<Rightarrow> abi \<Rightarrow> env \<Rightarrow> (trace \<Rightarrow> int) \<Rightarrow> string \<Rightarrow> int \<Rightarrow> int \<Rightarrow> int \<Rightarrow> mymq_attr option \<Rightarrow> trace
     \<Rightarrow> ((fail + mymq_opened) \<times> trace) option" where
  "mymq_open_loop 0 a env stat_size path oflag nonblock mode attr h = None"
| "mymq_open_loop (Suc n) a env stat_size path oflag nonblock mode attr h =
     (case mymq_open_step a env stat_size path oflag nonblock mode attr h of
        (Some r, h) \<Rightarrow> Some (r, h)
      | (None, h) \<Rightarrow> mymq_open_loop n a env stat_size path oflag nonblock mode attr h)"

definition mymq_open ::
  "nat \<Rightarrow> abi \<Rightarrow> env \<Rightarrow> (trace \<Rightarrow> int) \<Rightarrow> string \<Rightarrow> int \<Rightarrow> int \<Rightarrow> mymq_attr option
     \<Rightarrow> ((fail + mymq_opened) \<times> trace) option" where
  "mymq_open n a env stat_size path oflag mode attr =
     mymq_open_loop n a env stat_size path (oflag AND NOT O_NONBLOCK) (oflag AND O_NONBLOCK)
       (mode AND NOT S_IXUSR) attr []"

definition mymq_unlink :: "env \<Rightarrow> string \<Rightarrow> trace \<Rightarrow> int res \<times> trace" where
  "mymq_unlink env path h =
     (case sys env (SysUnlink path) h of (Inl e, h) \<Rightarrow> (Inl e, h) | (Inr _, h) \<Rightarrow> (Inr 0, h))"

subsection \<open>Resources used by the parts\<close>

lemma mymq_open_err_simps [simp]:
  "fst (mymq_open_err env path created mptr n mqinfo fd e h) = Inl e"
  "opened (snd (mymq_open_err env path created mptr n mqinfo fd e h)) = opened h"
  "closed (snd (mymq_open_err env path created mptr n mqinfo fd e h)) = (if fd < 0 then closed h else add_mset fd (closed h))"
  "mapped (snd (mymq_open_err env path created mptr n mqinfo fd e h)) = mapped h"
  "unmapped (snd (mymq_open_err env path created mptr n mqinfo fd e h)) =
     (case mptr of None \<Rightarrow> unmapped h | Some a \<Rightarrow> add_mset a (unmapped h))"
  "allocated (snd (mymq_open_err env path created mptr n mqinfo fd e h)) = allocated h"
  "freed (snd (mymq_open_err env path created mptr n mqinfo fd e h)) =
     (case mqinfo of None \<Rightarrow> freed h | Some p \<Rightarrow> add_mset p (freed h))"
  "unlinked (snd (mymq_open_err env path created mptr n mqinfo fd e h)) =
     (if created then path # unlinked h else unlinked h)"
  by (simp_all add: mymq_open_err_def sys_void_def sys_def Let_def split: option.split)

text \<open>
  What the parts leave behind from \<open>h\<close> to the end of the call, when \<open>fd\<close> is open at its start: the
  descriptor is closed once; a failing creator removes the name; mappings and memory balance, up
  to those that a successful call returns.
\<close>

definition mq_part_ok :: "string \<Rightarrow> bool \<Rightarrow> int \<Rightarrow> trace \<Rightarrow> (fail + mymq_opened) \<times> trace \<Rightarrow> bool" where
  "mq_part_ok path created fd h out \<longleftrightarrow>
     opened (snd out) = opened h \<and> closed (snd out) = add_mset fd (closed h) \<and>
     (case fst out of
        Inl e \<Rightarrow> unlinked (snd out) = (if created then path # unlinked h else unlinked h) \<and>
          mapped (snd out) + unmapped h = mapped h + unmapped (snd out) \<and>
          allocated (snd out) + freed h = allocated h + freed (snd out)
      | Inr (p, a, info, at) \<Rightarrow> unlinked (snd out) = unlinked h \<and> mqi_magic info = MQI_MAGIC \<and>
          mapped (snd out) + unmapped h = add_mset a (mapped h + unmapped (snd out)) \<and>
          allocated (snd out) + freed h = add_mset p (allocated h + freed (snd out)))"

lemma mq_part_err:
  assumes "0 \<le> fd" "opened h' = opened h" "closed h' = closed h" "unlinked h' = unlinked h"
    and "mapped h' + unmapped h = mapped h + (case mptr of None \<Rightarrow> unmapped h' | Some a \<Rightarrow> add_mset a (unmapped h'))"
    and "allocated h' + freed h = allocated h + (case mqinfo of None \<Rightarrow> freed h' | Some p \<Rightarrow> add_mset p (freed h'))"
  shows "mq_part_ok path created fd h (mymq_open_err env path created mptr n mqinfo fd e h')"
  using assms by (simp add: mq_part_ok_def)

lemma mq_part_success:
  assumes "0 \<le> fd" "opened h' = opened h" "closed h' = closed h" "unlinked h' = unlinked h"
    and "mapped h' + unmapped h = add_mset a (mapped h + unmapped h')"
    and "allocated h' + freed h = add_mset p (allocated h + freed h')" "mqi_magic info = MQI_MAGIC"
  shows "mq_part_ok path created fd h (Inr (p, a, info, at), sys_void env (SysClose fd) h')"
  using assms by (simp add: mq_part_ok_def sys_void_def sys_def)

lemma mymq_open_create_ok:
  assumes fd: "0 \<le> fd"
  shows "mq_part_ok path True fd h (mymq_open_create a env path nonblock mode attr fd h)"
proof -
  define at where "at = (case attr of None \<Rightarrow> defattr | Some at \<Rightarrow> at)"
  define n where "n = sint (mq_filesize a at)"
  define bad where "bad \<longleftrightarrow> attr \<noteq> None \<and> (mq_maxmsg at \<le> 0 \<or> mq_msgsize at \<le> 0)"
  have e0: "mq_part_ok path True fd h (mymq_open_err env path True None n None fd e h)"
    "mq_part_ok path True fd h (mymq_open_err env path True None n None fd e ((SysLseek fd (n - 1), r1) # h))"
    "mq_part_ok path True fd h (mymq_open_err env path True None n None fd e
      ((SysWrite fd 1, r2) # (SysLseek fd (n - 1), r1) # h))"
    "mq_part_ok path True fd h (mymq_open_err env path True None n None fd e
      ((SysMmap n fd, Inl e3) # (SysWrite fd 1, r2) # (SysLseek fd (n - 1), r1) # h))"
    "mq_part_ok path True fd h (mymq_open_err env path True (Some m) n None fd e
      ((SysMalloc, Inl e4) # (SysMmap n fd, Inr m) # (SysWrite fd 1, r2) # (SysLseek fd (n - 1), r1) # h))"
    for e r1 r2 e3 e4 m
    by (rule mq_part_err [OF fd]; simp)+
  have e1: "mq_part_ok path True fd h (mymq_open_err env path True (Some m) n (Some p) fd e h')"
    "mq_part_ok path True fd h (mymq_open_err env path True (Some m) n (Some p) fd e ((SysFchmod fd mode, r5) # h'))"
    "mq_part_ok path True fd h (Inr (p, m, \<lparr>mqi_magic = MQI_MAGIC, mqi_flags = nonblock\<rparr>, Some at),
       sys_void env (SysClose fd) ((SysFchmod fd mode, r5) # h'))"
    if "pthread_shared_init env
      ((SysMalloc, Inr p) # (SysMmap n fd, Inr m) # (SysWrite fd 1, r2) # (SysLseek fd (n - 1), r1) # h) = (i, h')"
    for e r1 r2 m p i h' r5
    using pthread_shared_init_eq [OF that] by (auto intro!: mq_part_err mq_part_success simp: fd)
  show ?thesis
    unfolding mymq_open_create_def Let_def at_def [symmetric] n_def [symmetric] bad_def [symmetric]
    using e0 e1 by (auto simp: sys_def split: sum.split option.split prod.split)
qed

lemma mymq_open_wait_eq:
  "mymq_open_wait n env path oflag fd h = (r, h') \<Longrightarrow> 0 \<le> fd \<Longrightarrow>
     opened h' = opened h \<and> mapped h' = mapped h \<and> unmapped h' = unmapped h \<and> allocated h' = allocated h \<and>
     freed h' = freed h \<and> unlinked h' = unlinked h \<and>
     closed h' = (if r = Inl None then add_mset fd (closed h) else closed h) \<and>
     (r = Inl None \<longrightarrow> \<not> no_enoent env)"
proof (induction n arbitrary: h)
  case 0
  then show ?case by auto
next
  case (Suc n)
  show ?case
  proof (cases "env h (SysStat path)")
    case (Inl e)
    then show ?thesis using Suc.prems by (auto simp: sys_def sys_void_def no_enoent_def split: if_splits)
  next
    case (Inr m)
    then show ?thesis using Suc.prems Suc.IH [of "sys_void env (SysSleep 1) ((SysStat path, Inr m) # h)"]
      by (auto simp: sys_def sys_void_def split: if_splits)
  qed
qed

definition malloc_ok :: "env \<Rightarrow> bool" where
  "malloc_ok env \<longleftrightarrow> (\<forall>h e. env h SysMalloc \<noteq> Inl e)"

text \<open>The same for a whole pass from \<open>again\<close>, which opens its descriptor itself.\<close>

definition mq_pass_ok :: "env \<Rightarrow> trace \<Rightarrow> (fail + mymq_opened) option \<times> trace \<Rightarrow> bool" where
  "mq_pass_ok env h out \<longleftrightarrow>
     (malloc_ok env \<longrightarrow> opened (snd out) + closed h = opened h + closed (snd out)) \<and>
     (case fst out of
        None \<Rightarrow> unlinked (snd out) = unlinked h \<and> mapped (snd out) + unmapped h = mapped h + unmapped (snd out) \<and>
          allocated (snd out) + freed h = allocated h + freed (snd out) \<and> \<not> no_enoent env
      | Some (Inl e) \<Rightarrow> mapped (snd out) + unmapped h = mapped h + unmapped (snd out) \<and>
          allocated (snd out) + freed h = allocated h + freed (snd out)
      | Some (Inr (p, a, info, at)) \<Rightarrow> unlinked (snd out) = unlinked h \<and> mqi_magic info = MQI_MAGIC \<and>
          mapped (snd out) + unmapped h = add_mset a (mapped h + unmapped (snd out)) \<and>
          allocated (snd out) + freed h = add_mset p (allocated h + freed (snd out)))"

lemma mymq_open_exists_pass:
  assumes "env_ok env"
  shows "mq_pass_ok env h (mymq_open_exists env stat_size path oflag nonblock h)"
proof (cases "env h (SysOpen path O_RDWR 0)")
  case (Inl e)
  let ?h1 = "(SysOpen path O_RDWR 0, Inl e) # h"
  show ?thesis using Inl by (auto simp: mymq_open_exists_def sys_def mq_pass_ok_def no_enoent_def)
next
  case (Inr fd)
  let ?h1 = "(SysOpen path O_RDWR 0, Inr fd) # h"
  have fd: "0 \<le> fd" using assms Inr env_okD by blast
  obtain r h2 where w: "mymq_open_wait MAX_TRIES env path oflag fd ?h1 = (r, h2)" by fastforce
  note h2 = mymq_open_wait_eq [OF w fd]
  consider "r = Inl None" | e where "r = Inl (Some e)" | "r = Inr ()" by (cases r) auto
  then show ?thesis
  proof cases
    case 1
    then show ?thesis using Inr w h2 by (simp add: mymq_open_exists_def sys_def mq_pass_ok_def)
  next
    case 2
    then show ?thesis using Inr w h2 fd by (simp add: mymq_open_exists_def sys_def mq_pass_ok_def)
  next
    case 3
    define n where "n = stat_size h2"
    have "mymq_open_exists env stat_size path oflag nonblock h =
        (case env h2 (SysMmap n fd) of
           Inl e \<Rightarrow> apfst Some (mymq_open_err env path False None n None fd (Some e) ((SysMmap n fd, Inl e) # h2))
         | Inr m \<Rightarrow> (let h3 = sys_void env (SysClose fd) ((SysMmap n fd, Inr m) # h2) in
             case env h3 SysMalloc of
               Inl e \<Rightarrow> apfst Some (mymq_open_err env path False (Some m) n None fd (Some e) ((SysMalloc, Inl e) # h3))
             | Inr p \<Rightarrow> (Some (Inr (p, m, \<lparr>mqi_magic = MQI_MAGIC, mqi_flags = nonblock\<rparr>, None)), (SysMalloc, Inr p) # h3)))"
      unfolding mymq_open_exists_def Let_def using Inr w 3 by (simp add: sys_def n_def split: sum.split)
    moreover have "mq_pass_ok env h (apfst Some (mymq_open_err env path False None n None fd (Some e) ((SysMmap n fd, Inl e) # h2)))" for e
      using h2 3 fd by (simp add: mq_pass_ok_def)
    moreover have "mq_pass_ok env h (apfst Some (mymq_open_err env path False (Some m) n None fd (Some e)
        ((SysMalloc, Inl e) # sys_void env (SysClose fd) ((SysMmap n fd, Inr m) # h2))))"
      if "env h' SysMalloc = Inl e" for m e h'
      using that h2 3 fd by (auto simp: mq_pass_ok_def malloc_ok_def sys_void_def sys_def)
    moreover have "mq_pass_ok env h (Some (Inr (p, m, \<lparr>mqi_magic = MQI_MAGIC, mqi_flags = nonblock\<rparr>, None)),
        (SysMalloc, Inr p) # sys_void env (SysClose fd) ((SysMmap n fd, Inr m) # h2))" for p m
      using h2 3 fd by (simp add: mq_pass_ok_def sys_void_def sys_def)
    ultimately show ?thesis by (simp add: Let_def split: sum.split)
  qed
qed

lemma mq_pass_ok_cong:
  "opened g = opened h \<Longrightarrow> closed g = closed h \<Longrightarrow> mapped g = mapped h \<Longrightarrow> unmapped g = unmapped h \<Longrightarrow>
     allocated g = allocated h \<Longrightarrow> freed g = freed h \<Longrightarrow> unlinked g = unlinked h \<Longrightarrow>
     mq_pass_ok env g out = mq_pass_ok env h out"
  by (simp add: mq_pass_ok_def split: option.split sum.split prod.split)

lemma mymq_open_step_pass:
  assumes "env_ok env"
  shows "mq_pass_ok env h (mymq_open_step a env stat_size path oflag nonblock mode attr h)"
proof (cases "has_flag oflag O_CREAT")
  case False
  then show ?thesis using mymq_open_exists_pass [OF assms] by (simp add: mymq_open_step_def)
next
  case True
  let ?c = "SysOpen path (oflag OR O_EXCL OR O_RDWR) (mode OR S_IXUSR)"
  show ?thesis
  proof (cases "env h ?c")
    case (Inl e)
    have "mq_pass_ok env h (mymq_open_exists env stat_size path oflag nonblock ((?c, Inl e) # h))"
      using mymq_open_exists_pass [OF assms, of "(?c, Inl e) # h" stat_size path oflag nonblock]
      by (subst (asm) mq_pass_ok_cong [where h = h]) simp_all
    moreover have "mq_pass_ok env h (Some (Inl (Some e)), (?c, Inl e) # h)" by (simp add: mq_pass_ok_def)
    ultimately show ?thesis using True Inl by (auto simp: mymq_open_step_def sys_def)
  next
    case (Inr fd)
    then have "0 \<le> fd" using assms env_okD by blast
    from mymq_open_create_ok [OF this, of path "(?c, Inr fd) # h" a env nonblock mode attr]
    show ?thesis using True Inr
      by (auto simp: mymq_open_step_def sys_def mq_pass_ok_def mq_part_ok_def split: sum.splits)
  qed
qed

text \<open>The resources of a call that ends with \<open>r\<close>.\<close>

definition mq_open_ok :: "env \<Rightarrow> trace \<Rightarrow> fail + mymq_opened \<Rightarrow> trace \<Rightarrow> bool" where
  "mq_open_ok env h r h' \<longleftrightarrow>
     (malloc_ok env \<longrightarrow> opened h' + closed h = opened h + closed h') \<and>
     (case r of
        Inl e \<Rightarrow> mapped h' + unmapped h = mapped h + unmapped h' \<and> allocated h' + freed h = allocated h + freed h'
      | Inr (p, a, info, at) \<Rightarrow> unlinked h' = unlinked h \<and> mqi_magic info = MQI_MAGIC \<and>
          mapped h' + unmapped h = add_mset a (mapped h + unmapped h') \<and>
          allocated h' + freed h = add_mset p (allocated h + freed h'))"

lemma mset_chain:
  assumes "a' + b1 = a1 + b'" "a1 + b = a + b1"
  shows "a' + b = a + (b' :: 'x multiset)"
proof -
  have "a' + b + b1 = a1 + b' + b" using assms(1) by (simp add: ac_simps)
  also have "\<dots> = a + b' + b1" using assms(2) by (simp add: ac_simps)
  finally show ?thesis by simp
qed

lemma mset_chain_add:
  "a' + b1 = add_mset x (a1 + b') \<Longrightarrow> a1 + b = a + b1 \<Longrightarrow> a' + b = add_mset x (a + (b' :: 'x multiset))"
  using mset_chain [of a' b1 a1 "add_mset x b'" b a] by simp

lemma mymq_open_loop_ok:
  assumes "mymq_open_loop n a env stat_size path oflag nonblock mode attr h = Some (r, h')" "env_ok env"
  shows "mq_open_ok env h r h'"
  using assms(1)
proof (induction n arbitrary: h)
  case 0
  then show ?case by simp
next
  case (Suc n)
  obtain out h1 where s: "mymq_open_step a env stat_size path oflag nonblock mode attr h = (out, h1)" by fastforce
  have ok: "mq_pass_ok env h (out, h1)"
    using mymq_open_step_pass [OF assms(2), of h a stat_size path oflag nonblock mode attr] s by simp
  show ?case
  proof (cases out)
    case (Some r')
    then show ?thesis using ok s Suc.prems by (auto simp: mq_pass_ok_def mq_open_ok_def split: sum.splits)
  next
    case None
    then have "mq_open_ok env h1 r h'" using Suc.IH [of h1] Suc.prems s by simp
    then show ?thesis using ok None
      by (auto simp: mq_open_ok_def mq_pass_ok_def split: sum.splits intro: mset_chain mset_chain_add)
  qed
qed

subsection \<open>Properties\<close>

text \<open>
  A system where the queue exists and is ready: descriptors 3, a mapping at 4096, memory at 16,
  or no memory.
\<close>

definition exists_env :: "bool \<Rightarrow> env" where
  "exists_env mem h c =
     (case c of SysOpen p f m \<Rightarrow> if f = O_RDWR then Inr 3 else Inl EEXIST
      | SysMmap n fd \<Rightarrow> Inr 4096
      | SysMalloc \<Rightarrow> if mem then Inr 16 else Inl ENOMEM
      | _ \<Rightarrow> Inr 0)"

lemma exists_env_ok: "env_ok (exists_env mem)" "malloc_ok (exists_env True)" "no_enoent (exists_env mem)"
  by (auto simp: env_ok_def malloc_ok_def no_enoent_def exists_env_def split: if_splits syscall.splits)

text \<open>
  C23. \<open>mymq_open\<close> releases what it has acquired: after a failure no mapping and no memory is left, and
  after a success exactly the mapping and the \<^verbatim>\<open>mymq_info\<close> it returns; when
  \<^verbatim>\<open>malloc\<close> does not fail, every descriptor it opened is closed exactly once. It returns after
  one pass unless the file is removed under it.
\<close>

theorem mymq_open_resources:
  assumes "env_ok env"
  shows "(\<forall>r h. mymq_open n a env stat_size path oflag mode attr = Some (r, h) \<longrightarrow>
      (malloc_ok env \<longrightarrow> opened h = closed h) \<and>
      (case r of Inl e \<Rightarrow> mapped h = unmapped h \<and> allocated h = freed h
       | Inr (p, m, info, at) \<Rightarrow> unlinked h = [] \<and> mqi_magic info = MQI_MAGIC \<and>
           mapped h = add_mset m (unmapped h) \<and> allocated h = add_mset p (freed h))) \<and>
    (no_enoent env \<longrightarrow> mymq_open (Suc n) a env stat_size path oflag mode attr \<noteq> None)"
proof (intro conjI allI impI)
  fix r h
  assume "mymq_open n a env stat_size path oflag mode attr = Some (r, h)"
  from mymq_open_loop_ok [OF this [unfolded mymq_open_def] assms] have ok: "mq_open_ok env [] r h" .
  then show "opened h = closed h" if "malloc_ok env" using that by (simp add: mq_open_ok_def)
  show "case r of Inl e \<Rightarrow> mapped h = unmapped h \<and> allocated h = freed h
       | Inr (p, m, info, at) \<Rightarrow> unlinked h = [] \<and> mqi_magic info = MQI_MAGIC \<and>
           mapped h = add_mset m (unmapped h) \<and> allocated h = add_mset p (freed h)"
    using ok by (simp add: mq_open_ok_def split: sum.splits prod.splits)
next
  assume ne: "no_enoent env"
  obtain out h where s: "mymq_open_step a env stat_size path (oflag AND NOT O_NONBLOCK) (oflag AND O_NONBLOCK)
      (mode AND NOT S_IXUSR) attr [] = (out, h)" by fastforce
  have "mq_pass_ok env [] (out, h)" unfolding s [symmetric] by (rule mymq_open_step_pass [OF assms])
  then show "mymq_open (Suc n) a env stat_size path oflag mode attr \<noteq> None"
    using s ne by (cases out) (simp_all add: mymq_open_def mq_pass_ok_def)
qed

theorem mymq_open_resources_witness:
  "\<exists>r h. mymq_open 1 lp64 (exists_env True) (\<lambda>_. 296) ''/q'' O_CREAT 0x1A4 None = Some (r, h) \<and> opened h = closed h"
  using mymq_open_resources [OF exists_env_ok(1) [of True], of 0 lp64 "\<lambda>_. 296" "''/q''" O_CREAT "0x1A4" None]
    mymq_open_resources [OF exists_env_ok(1) [of True], of 1 lp64 "\<lambda>_. 296" "''/q''" O_CREAT "0x1A4" None]
    exists_env_ok(2,3)
  by auto

text \<open>
  On the path for an existing queue the descriptor is closed before the \<^verbatim>\<open>mymq_info\<close> is
  allocated, and the error path closes it again: when \<^verbatim>\<open>malloc\<close> fails there, descriptor 3 is
  opened once and closed twice.
\<close>

theorem mymq_open_double_close:
  "\<exists>h. mymq_open 1 lp64 (exists_env False) (\<lambda>_. 296) ''/q'' O_CREAT 0x1A4 None = Some (Inl (Some ENOMEM), h) \<and>
     opened h = {#3#} \<and> closed h = {#3, 3#}"
proof -
  have "map_option (\<lambda>(r, h). (r, opened h, closed h))
      (mymq_open 1 lp64 (exists_env False) (\<lambda>_. 296) ''/q'' O_CREAT 0x1A4 None) = Some (Inl (Some ENOMEM), {#3#}, {#3, 3#})"
    by code_simp
  then show ?thesis by (auto simp: map_option_case split: option.splits)
qed

end
