(* ===== verification/SemSpec.thy ===== *)
theory SemSpec
  imports Prelude
begin

text \<open>
  The contract of a counting semaphore, as a locale: \<open>avail\<close> tokens, a \<open>wait\<close> that takes one or
  blocks, a \<open>post\<close> that adds one. The three implementations under
  \<^verbatim>\<open>src/unixipc/my_pxsem_mmap\<close>, \<^verbatim>\<open>my_pxsem_fifo\<close> and \<^verbatim>\<open>my_pxsem_svsem\<close> interpret it,
  and the producer/consumer programs rely on it.
\<close>

locale semaphore =
  fixes ok :: "'s \<Rightarrow> bool"
    and avail :: "'s \<Rightarrow> nat"
    and limit :: nat
    and wait :: "'s \<Rightarrow> 's option"
    and post :: "'s \<Rightarrow> 's"
  assumes wait_blocks: "ok s \<Longrightarrow> avail s = 0 \<Longrightarrow> wait s = None"
    and wait_takes: "ok s \<Longrightarrow> 0 < avail s \<Longrightarrow> \<exists>s'. wait s = Some s' \<and> ok s' \<and> avail s = Suc (avail s')"
    and post_adds: "ok s \<Longrightarrow> avail s < limit \<Longrightarrow> ok (post s) \<and> avail (post s) = Suc (avail s)"
begin

text \<open>Runs of several calls: \<open>True\<close> is a post, \<open>False\<close> a wait.\<close>

fun run_calls :: "bool list \<Rightarrow> 's \<Rightarrow> 's option" where
  "run_calls [] s = Some s"
| "run_calls (True # cs) s = run_calls cs (post s)"
| "run_calls (False # cs) s = (case wait s of None \<Rightarrow> None | Some s' \<Rightarrow> run_calls cs s')"

text \<open>The counter of the specification: \<open>None\<close> when a wait finds no token.\<close>

lemma wait_iff: "ok s \<Longrightarrow> wait s = None \<longleftrightarrow> avail s = 0"
  using wait_blocks wait_takes by fastforce

lemma run_calls_avail:
  assumes "ok s" "avail s + count_list cs True \<le> limit" "run_calls cs s = Some s'"
  shows "ok s' \<and> avail s' + count_list cs False = avail s + count_list cs True"
  using assms
proof (induction cs arbitrary: s)
  case Nil
  then show ?case by simp
next
  case (Cons c cs)
  show ?case
  proof (cases c)
    case True
    have "ok (post s)" "avail (post s) = Suc (avail s)" using Cons.prems True post_adds [of s] by auto
    then show ?thesis using Cons.IH [of "post s"] Cons.prems True by simp
  next
    case False
    then obtain s1 where s1: "wait s = Some s1" using Cons.prems by (auto split: option.splits)
    then have "ok s1" "avail s = Suc (avail s1)"
      using Cons.prems wait_iff [of s] wait_takes [of s] by auto
    then show ?thesis using Cons.IH [of s1] Cons.prems False s1 by simp
  qed
qed

text \<open>All waits of a run succeed when at every point enough posts have come before.\<close>

lemma run_calls_waits:
  "ok s \<Longrightarrow> n \<le> avail s \<Longrightarrow> \<exists>s'. run_calls (replicate n False) s = Some s' \<and> ok s' \<and> avail s' + n = avail s"
proof (induction n arbitrary: s)
  case 0
  then show ?case by simp
next
  case (Suc n)
  then obtain s1 where s1: "wait s = Some s1" "ok s1" "avail s = Suc (avail s1)" using wait_takes [of s] by auto
  then show ?case using Suc.IH [of s1] Suc.prems by auto
qed

end

end
