(* ===== verification/SemMmap.thy ===== *)
theory SemMmap
  imports SemSpec Monitor
begin

text \<open>
  POSIX semaphores in a memory-mapped file, \<^verbatim>\<open>src/unixipc/my_pxsem_mmap\<close>: the structure
  \<^verbatim>\<open>mysem_t\<close>, the calls \<^verbatim>\<open>mysem_wait\<close>, \<^verbatim>\<open>mysem_post\<close>, \<^verbatim>\<open>mysem_trywait\<close>,
  \<^verbatim>\<open>mysem_getvalue\<close>, as pieces of a monitor (the mutex is \<open>sem_mutex\<close>, the condition
  variable \<open>sem_cond\<close>). \<open>lk\<close> is the outcome of \<^verbatim>\<open>pthread_mutex_lock\<close>: \<open>None\<close> is success.
\<close>

subsection \<open>Data and calls\<close>

record mmsem =
  sem_count :: u32
  sem_magic :: int

definition SEM_MAGIC :: int where
  "SEM_MAGIC = 0x67458923"

type_synonym 'r mmsem_out = "mmsem \<times> unit wake \<times> (unit, 'r res) outcome"

text \<open>The code common to the calls: check the magic number, lock the mutex, run the body.\<close>

definition with_lock :: "errno option \<Rightarrow> (mmsem \<Rightarrow> 'r mmsem_out) \<Rightarrow> mmsem \<Rightarrow> 'r mmsem_out" where
  "with_lock lk body s =
     (if sem_magic s \<noteq> SEM_MAGIC then (s, NoWake, Return (Inl EINVAL))
      else case lk of Some n \<Rightarrow> (s, NoWake, Return (Inl n)) | None \<Rightarrow> body s)"

text \<open>The loop of \<open>mysem_wait\<close>, entered first and after each return of \<^verbatim>\<open>pthread_cond_wait\<close>.\<close>

definition mysem_wait_loop :: "mmsem \<Rightarrow> int mmsem_out" where
  "mysem_wait_loop s =
     (if sem_count s = 0 then (s, NoWake, Block ())
      else (s\<lparr>sem_count := sem_count s - 1\<rparr>, NoWake, Return (Inr 0)))"

definition mysem_wait :: "errno option \<Rightarrow> mmsem \<Rightarrow> int mmsem_out" where
  "mysem_wait lk = with_lock lk mysem_wait_loop"

definition mysem_post :: "errno option \<Rightarrow> mmsem \<Rightarrow> int mmsem_out" where
  "mysem_post lk = with_lock lk (\<lambda>s.
     let w = (if sem_count s = 0 then Signal () else NoWake) in
     (s\<lparr>sem_count := sem_count s + 1\<rparr>, w, Return (Inr 0)))"

definition mysem_trywait :: "errno option \<Rightarrow> mmsem \<Rightarrow> int mmsem_out" where
  "mysem_trywait lk = with_lock lk (\<lambda>s.
     if sem_count s > 0 then (s\<lparr>sem_count := sem_count s - 1\<rparr>, NoWake, Return (Inr 0))
     else (s, NoWake, Return (Inl EAGAIN)))"

text \<open>The result is \<open>*pvalue\<close>: the unsigned counter stored in an \<open>int\<close>.\<close>

definition mysem_getvalue :: "errno option \<Rightarrow> mmsem \<Rightarrow> int mmsem_out" where
  "mysem_getvalue lk = with_lock lk (\<lambda>s. (s, NoWake, Return (Inr (sint (sem_count s)))))"

lemmas mysem_defs = mysem_wait_def mysem_wait_loop_def mysem_post_def mysem_trywait_def mysem_getvalue_def
  with_lock_def

subsection \<open>As a counting semaphore\<close>

definition mysem_ok :: "mmsem \<Rightarrow> bool" where
  "mysem_ok s \<longleftrightarrow> sem_magic s = SEM_MAGIC"

definition mysem_wait_opt :: "mmsem \<Rightarrow> mmsem option" where
  "mysem_wait_opt s = (case mysem_wait None s of (s', _, Return (Inr _)) \<Rightarrow> Some s' | _ \<Rightarrow> None)"

definition mysem_post_state :: "mmsem \<Rightarrow> mmsem" where
  "mysem_post_state s = fst (mysem_post None s)"

interpretation mmapsem: semaphore mysem_ok "\<lambda>s. unat (sem_count s)" "2 ^ 32 - 1" mysem_wait_opt mysem_post_state
proof (unfold_locales, goal_cases)
  case (1 s)
  then show ?case by (simp add: mysem_ok_def mysem_wait_opt_def mysem_defs unat_eq_zero)
next
  case (2 s)
  then have "sem_count s \<noteq> 0" by auto
  then show ?case using 2 unat_minus_one_Suc [of "sem_count s"] by (simp add: mysem_ok_def mysem_wait_opt_def mysem_defs)
next
  case (3 s)
  then show ?case using unat_plus_one [of "sem_count s"] by (simp add: mysem_ok_def mysem_post_state_def mysem_defs)
qed

subsection \<open>Concurrent calls\<close>

datatype sem_op = WaitOp | PostOp | TryWaitOp | GetValueOp

fun sem_enter :: "(mmsem, unit, sem_op, int res) piece" where
  "sem_enter WaitOp s = mysem_wait None s"
| "sem_enter PostOp s = mysem_post None s"
| "sem_enter TryWaitOp s = mysem_trywait None s"
| "sem_enter GetValueOp s = mysem_getvalue None s"

definition sem_resume :: "(mmsem, unit, sem_op, int res) piece" where
  "sem_resume op s = mysem_wait_loop s"

text \<open>Tokens that finished calls have put in and taken out.\<close>

fun sem_put :: "sem_op \<times> int res \<Rightarrow> nat" where
  "sem_put (PostOp, Inr _) = 1"
| "sem_put _ = 0"

fun sem_got :: "sem_op \<times> int res \<Rightarrow> nat" where
  "sem_got (WaitOp, Inr _) = 1"
| "sem_got (TryWaitOp, Inr _) = 1"
| "sem_got _ = 0"

lemma sem_resume_simp [simp]: "sem_resume op = mysem_wait_loop"
  by (simp add: sem_resume_def fun_eq_iff)

lemma sem_enter_blocks: "sem_enter op s = (s', w, Block c) \<Longrightarrow> op = WaitOp"
  by (cases op) (auto simp: mysem_defs split: if_splits)

interpretation semm: monitor sem_enter sem_resume mysem_ok "\<lambda>s op. op = WaitOp"
  by unfold_locales (auto simp: mysem_ok_def mysem_defs dest: sem_enter_blocks split: if_splits elim!: sem_enter.elims)

text \<open>Tokens are conserved as 32-bit words, and as numbers no more are taken than were put in.\<close>

interpretation semw: monitor_ledger sem_enter sem_resume mysem_ok "\<lambda>s op. op = WaitOp" "(=)" sem_count
  "\<lambda>d. of_nat (sem_put d)" "\<lambda>d. of_nat (sem_got d)"
  by unfold_locales (auto simp: mysem_ok_def mysem_defs split: if_splits elim!: sem_enter.elims)

interpretation semn: monitor_ledger sem_enter sem_resume mysem_ok "\<lambda>s op. op = WaitOp" "(\<le>)"
  "\<lambda>s. unat (sem_count s)" sem_put sem_got
  by unfold_locales (auto simp: mysem_ok_def mysem_defs unat_plus_one_le word_gt_0
    unat_minus_one_Suc [symmetric] split: if_splits elim!: sem_enter.elims)

lemma sem_tokens_word:
  "mon_reach sp sem_enter sem_resume s0 progs (s, ts) \<Longrightarrow> mysem_ok s0 \<Longrightarrow>
     sem_count s + of_nat (ledger sem_got ts) = sem_count s0 + of_nat (ledger sem_put ts)"
  using semw.reach_balance [of sp s0 progs "(s, ts)"] by (simp add: ledger_of_nat)

lemma sem_tokens_le:
  "mon_reach sp sem_enter sem_resume s0 progs (s, ts) \<Longrightarrow> mysem_ok s0 \<Longrightarrow>
     unat (sem_count s) + ledger sem_got ts \<le> unat (sem_count s0) + ledger sem_put ts"
  using semn.reach_balance [of sp s0 progs "(s, ts)"] by simp

lemma sem_tokens_exact:
  assumes "mon_reach sp sem_enter sem_resume s0 progs (s, ts)" "mysem_ok s0"
    and bound: "unat (sem_count s0) + ledger sem_put ts < 2 ^ 32"
  shows "unat (sem_count s) + ledger sem_got ts = unat (sem_count s0) + ledger sem_put ts"
proof -
  let ?l = "unat (sem_count s) + ledger sem_got ts" and ?r = "unat (sem_count s0) + ledger sem_put ts"
  have "(of_nat ?l :: u32) = of_nat ?r" using sem_tokens_word [OF assms(1,2)] by simp
  moreover have "?l < 2 ^ 32" using sem_tokens_le [OF assms(1,2)] bound by linarith
  ultimately show ?thesis using bound of_nat_word_inj [of ?l ?r, where 'a = 32] by simp
qed

subsection \<open>Waiting\<close>

interpretation semwait: single_waiter sem_enter sem_resume "()" "\<lambda>s. sem_count s = 0" "\<lambda>op. op = WaitOp"
  by unfold_locales (auto simp: mysem_defs split: if_splits elim!: sem_enter.elims)

definition mysem0 :: mmsem where
  "mysem0 = \<lparr>sem_count = 0, sem_magic = SEM_MAGIC\<rparr>"

text \<open>Two threads that wait, and one that posts twice before the first of them runs again.\<close>

definition two_wait_progs :: "sem_op list list" where
  "two_wait_progs = [[WaitOp], [WaitOp], [PostOp, PostOp]]"

definition two_wait_end :: "(unit, sem_op, int res) thread list" where
  "two_wait_end =
     [\<lparr>t_stat = Running, t_done = [(WaitOp, Inr 0)], t_todo = []\<rparr>,
      \<lparr>t_stat = Blocked (), t_done = [], t_todo = [WaitOp]\<rparr>,
      \<lparr>t_stat = Running, t_done = [(PostOp, Inr 0), (PostOp, Inr 0)], t_todo = []\<rparr>]"

lemma two_wait_reach:
  "mon_reach sp sem_enter sem_resume mysem0 two_wait_progs (mysem0\<lparr>sem_count := 1\<rparr>, two_wait_end)"
proof (rule exec_schedule_start)
  show "exec_schedule sem_enter sem_resume [(0, 0), (1, 0), (2, 0), (2, 0), (0, 0)]
      (mysem0, map fresh_thread two_wait_progs) = Some (mysem0\<lparr>sem_count := 1\<rparr>, two_wait_end)"
    by (simp add: two_wait_progs_def two_wait_end_def mysem0_def mysem_defs fresh_thread_def exec_piece_def wake_if_def)
qed

lemma two_wait_quiescent: "quiescent two_wait_end"
  by (simp add: two_wait_end_def quiescent_def)

subsection \<open>Properties\<close>



text \<open>
  With a single thread that waits, no wake-up of the memory-mapped semaphore is lost: whenever
  a thread is blocked in \<^verbatim>\<open>pthread_cond_wait\<close>, the counter is zero.
\<close>

theorem mysem_single_waiter:
  assumes "mon_reach sp sem_enter sem_resume s0 progs (s, ts)"
    and "\<forall>i < length progs. i \<noteq> k \<longrightarrow> WaitOp \<notin> set (progs ! i)"
    and "i < length ts" "t_stat (ts ! i) = Blocked c"
  shows "sem_count s = 0"
  by (rule semwait.no_lost_wakeup [OF assms(1) _ assms(3,4), of k]) (use assms(2) in auto)

theorem mysem_single_waiter_witness:
  "\<exists>s ts. mon_reach False sem_enter sem_resume mysem0 [[WaitOp], [PostOp]] (s, ts) \<and>
     t_stat (ts ! 0) = Blocked () \<and> sem_count s = 0"
proof -
  let ?ts = "[\<lparr>t_stat = Blocked (), t_done = [], t_todo = [WaitOp]\<rparr>, fresh_thread [PostOp]]"
  have "exec_schedule sem_enter sem_resume [(0, 0)] (mysem0, map fresh_thread [[WaitOp], [PostOp]]) = Some (mysem0, ?ts)"
    by (simp add: mysem0_def mysem_defs fresh_thread_def exec_piece_def)
  then have r: "mon_reach False sem_enter sem_resume mysem0 [[WaitOp], [PostOp]] (mysem0, ?ts)"
    by (rule exec_schedule_start)
  have "sem_count mysem0 = 0"
    by (rule mysem_single_waiter [OF r, of 0 0 "()"]) (auto simp: less_Suc_eq)
  with r show ?thesis by (intro exI [of _ mysem0] exI [of _ ?ts]) simp
qed

text \<open>
  With two waiting threads a wake-up can be lost: \<open>mysem_post\<close> signals only when the counter is
  zero, so two posts in a row wake one thread; the other stays blocked for ever although a
  token is available.
\<close>

theorem mysem_lost_wakeup:
  "\<exists>s ts. mon_reach False sem_enter sem_resume mysem0 two_wait_progs (s, ts) \<and>
     sem_count s = 1 \<and> t_stat (ts ! 1) = Blocked () \<and> (\<nexists>st. mon_step False sem_enter sem_resume (s, ts) st)"
proof -
  have "\<nexists>st. mon_step False sem_enter sem_resume (mysem0\<lparr>sem_count := 1\<rparr>, two_wait_end) st"
    by (simp add: quiescent_no_step [OF two_wait_quiescent])
  moreover have "t_stat (two_wait_end ! 1) = Blocked ()" by (simp add: two_wait_end_def)
  ultimately show ?thesis using two_wait_reach [of False]
    by (intro exI [of _ "mysem0\<lparr>sem_count := 1\<rparr>"] exI [of _ two_wait_end]) simp
qed

end
