(* ===== verification/SemMmapOpen.thy ===== *)
theory SemMmapOpen
  imports Posix SemMmap
begin

text \<open>
  \<^verbatim>\<open>src/unixipc/my_pxsem_mmap/sem_open.c\<close>, \<^verbatim>\<open>sem_close.c\<close> and \<^verbatim>\<open>sem_unlink.c\<close>: creation
  and opening of a semaphore that lives in a mapped file, with the race between a creator
  (which initialises the file and then clears its user-execute bit) and later openers (which wait
  for that bit). The properties are about descriptors, mappings and the name.
\<close>

subsection \<open>mysem_open\<close>

text \<open>\<^verbatim>\<open>sizeof(mysem_t)\<close>: 40 bytes of mutex, 48 of condition variable, two integers.\<close>

definition SEMSIZE :: int where
  "SEMSIZE = 96"

text \<open>The address of the mapping, and the value it was initialised with by this call, if any.\<close>

type_synonym mysem_opened = "int \<times> u32 option"

text \<open>Label \<open>err\<close>. \<open>sem\<close> is \<open>None\<close> for \<^verbatim>\<open>MAP_FAILED\<close>.\<close>

definition mysem_open_err ::
  "env \<Rightarrow> string \<Rightarrow> bool \<Rightarrow> int option \<Rightarrow> int \<Rightarrow> fail \<Rightarrow> trace \<Rightarrow> (fail + mysem_opened) \<times> trace" where
  "mysem_open_err env path created sem fd e h =
     (let h1 = (if created then sys_void env (SysUnlink path) h else h);
          h2 = (case sem of None \<Rightarrow> h1 | Some a \<Rightarrow> sys_void env (SysMunmap a SEMSIZE) h1)
      in (Inl e, sys_void env (SysClose fd) h2))"

text \<open>The creator's part, after \<^verbatim>\<open>created = 1\<close>. \<open>sem\<close> is the mapping of an earlier attempt.\<close>

definition mysem_open_create ::
  "env \<Rightarrow> string \<Rightarrow> int \<Rightarrow> u32 \<Rightarrow> int option \<Rightarrow> int \<Rightarrow> trace \<Rightarrow> (fail + mysem_opened) \<times> trace" where
  "mysem_open_create env path mode v sem fd h =
     (case sys env (SysWrite fd SEMSIZE) h of (r, h) \<Rightarrow>
      if r \<noteq> Inr SEMSIZE
      then mysem_open_err env path True sem fd (case r of Inl e \<Rightarrow> Some e | Inr _ \<Rightarrow> None) h
      else case sys env (SysMmap SEMSIZE fd) h of
        (Inl e, h) \<Rightarrow> mysem_open_err env path True None fd (Some e) h
      | (Inr a, h) \<Rightarrow>
        (case pthread_shared_init env h of
           (Some i, h) \<Rightarrow> mysem_open_err env path True (Some a) fd (Some i) h
         | (None, h) \<Rightarrow>
           (case sys env SysSysconf h of (mx, h) \<Rightarrow>
              if uint v > (case mx of Inl _ \<Rightarrow> -1 | Inr m \<Rightarrow> m)
              then mysem_open_err env path True (Some a) fd (Some EINVAL) h
              else case sys env (SysFchmod fd mode) h of
                (Inl e, h) \<Rightarrow> mysem_open_err env path True (Some a) fd (Some e) h
              | (Inr _, h) \<Rightarrow> (Inr (a, Some v), sys_void env (SysClose fd) h))))"

text \<open>The loop that waits for the initialisation; the result \<open>None\<close> is \<^verbatim>\<open>goto again\<close>.\<close>

fun mysem_open_wait ::
  "nat \<Rightarrow> env \<Rightarrow> string \<Rightarrow> int \<Rightarrow> int \<Rightarrow> int \<Rightarrow> trace \<Rightarrow> (fail + mysem_opened) option \<times> trace" where
  "mysem_open_wait 0 env path oflag a fd h =
     apfst Some (mysem_open_err env path False (Some a) fd (Some ETIMEDOUT) h)"
| "mysem_open_wait (Suc n) env path oflag a fd h =
     (case sys env (SysStat path) h of
        (Inl e, h) \<Rightarrow>
          if e = ENOENT \<and> has_flag oflag O_CREAT then (None, sys_void env (SysClose fd) h)
          else apfst Some (mysem_open_err env path False (Some a) fd (Some e) h)
      | (Inr m, h) \<Rightarrow>
          if \<not> has_flag m S_IXUSR then (Some (Inr (a, None)), sys_void env (SysClose fd) h)
          else mysem_open_wait n env path oflag a fd (sys_void env (SysSleep 1) h))"

text \<open>Label \<open>exists\<close>; \<open>Inr sem\<close> is \<^verbatim>\<open>goto again\<close> with that value of the variable.\<close>

definition mysem_open_exists ::
  "env \<Rightarrow> string \<Rightarrow> int \<Rightarrow> int option \<Rightarrow> trace \<Rightarrow> ((fail + mysem_opened) + int option) \<times> trace" where
  "mysem_open_exists env path oflag sem h =
     (case sys env (SysOpen path O_RDWR 0) h of
        (Inl e, h) \<Rightarrow>
          if e = ENOENT \<and> has_flag oflag O_CREAT then (Inr sem, h)
          else apfst Inl (mysem_open_err env path False sem (-1) (Some e) h)
      | (Inr fd, h) \<Rightarrow>
          (case sys env (SysMmap SEMSIZE fd) h of
             (Inl e, h) \<Rightarrow> apfst Inl (mysem_open_err env path False None fd (Some e) h)
           | (Inr a, h) \<Rightarrow>
               (case mysem_open_wait MAX_TRIES env path oflag a fd h of
                  (None, h) \<Rightarrow> (Inr (Some a), h)
                | (Some r, h) \<Rightarrow> (Inl r, h))))"

text \<open>Label \<open>again\<close>.\<close>

definition mysem_open_step ::
  "env \<Rightarrow> string \<Rightarrow> int \<Rightarrow> int \<Rightarrow> u32 \<Rightarrow> int option \<Rightarrow> trace \<Rightarrow> ((fail + mysem_opened) + int option) \<times> trace" where
  "mysem_open_step env path oflag mode v sem h =
     (if has_flag oflag O_CREAT then
        (case sys env (SysOpen path (oflag OR O_EXCL OR O_RDWR) (mode OR S_IXUSR)) h of
           (Inl e, h) \<Rightarrow>
             if e = EEXIST \<and> \<not> has_flag oflag O_EXCL then mysem_open_exists env path oflag sem h
             else (Inl (Inl (Some e)), h)
         | (Inr fd, h) \<Rightarrow> apfst Inl (mysem_open_create env path mode v sem fd h))
      else mysem_open_exists env path oflag sem h)"

text \<open>The number of passes is bounded by the fuel; \<open>None\<close> is running out of it.\<close>

fun mysem_open_loop ::
  "nat \<Rightarrow> env \<Rightarrow> string \<Rightarrow> int \<Rightarrow> int \<Rightarrow> u32 \<Rightarrow> int option \<Rightarrow> trace \<Rightarrow> ((fail + mysem_opened) \<times> trace) option" where
  "mysem_open_loop 0 env path oflag mode v sem h = None"
| "mysem_open_loop (Suc n) env path oflag mode v sem h =
     (case mysem_open_step env path oflag mode v sem h of
        (Inl r, h) \<Rightarrow> Some (r, h)
      | (Inr sem', h) \<Rightarrow> mysem_open_loop n env path oflag mode v sem' h)"

definition mysem_open ::
  "nat \<Rightarrow> env \<Rightarrow> string \<Rightarrow> int \<Rightarrow> int \<Rightarrow> u32 \<Rightarrow> ((fail + mysem_opened) \<times> trace) option" where
  "mysem_open n env path oflag mode v = mysem_open_loop n env path oflag (mode AND NOT S_IXUSR) v None []"

subsection \<open>mysem_close and mysem_unlink\<close>

definition mysem_close :: "env \<Rightarrow> int \<Rightarrow> mmsem \<Rightarrow> trace \<Rightarrow> int res \<times> trace" where
  "mysem_close env a s h =
     (if sem_magic s \<noteq> SEM_MAGIC then (Inl EINVAL, h)
      else case sys env (SysMunmap a SEMSIZE) h of (Inl e, h) \<Rightarrow> (Inl e, h) | (Inr _, h) \<Rightarrow> (Inr 0, h))"

definition mysem_unlink :: "env \<Rightarrow> string \<Rightarrow> trace \<Rightarrow> int res \<times> trace" where
  "mysem_unlink env path h =
     (case sys env (SysUnlink path) h of (Inl e, h) \<Rightarrow> (Inl e, h) | (Inr _, h) \<Rightarrow> (Inr 0, h))"

subsection \<open>Resources used by the parts\<close>

lemma mysem_open_err_simps [simp]:
  "fst (mysem_open_err env path created sem fd e h) = Inl e"
  "opened (snd (mysem_open_err env path created sem fd e h)) = opened h"
  "closed (snd (mysem_open_err env path created sem fd e h)) = (if fd < 0 then closed h else add_mset fd (closed h))"
  "mapped (snd (mysem_open_err env path created sem fd e h)) = mapped h"
  "unmapped (snd (mysem_open_err env path created sem fd e h)) =
     (case sem of None \<Rightarrow> unmapped h | Some a \<Rightarrow> add_mset a (unmapped h))"
  "unlinked (snd (mysem_open_err env path created sem fd e h)) = (if created then path # unlinked h else unlinked h)"
  by (simp_all add: mysem_open_err_def sys_void_def sys_def Let_def split: option.split)

lemma mysem_open_err_eq:
  "mysem_open_err env path created sem fd e h = (r, h') \<Longrightarrow> r = Inl e \<and> opened h' = opened h \<and>
     closed h' = (if fd < 0 then closed h else add_mset fd (closed h)) \<and> mapped h' = mapped h \<and>
     unmapped h' = (case sem of None \<Rightarrow> unmapped h | Some a \<Rightarrow> add_mset a (unmapped h)) \<and>
     unlinked h' = (if created then path # unlinked h else unlinked h)"
  using mysem_open_err_simps [of env path created sem fd e h] by simp

text \<open>
  What a part leaves behind when it was entered with the descriptor \<open>fd\<close> open and the
  variable \<open>sem\<close>: the descriptor is closed once; the name is removed iff \<open>created\<close> and the call
  fails; when \<open>sem\<close> held no mapping of an earlier attempt, a mapping made is removed on failure
  and is the one returned on success.
\<close>

definition open_part_ok :: "string \<Rightarrow> bool \<Rightarrow> int option \<Rightarrow> int \<Rightarrow> trace \<Rightarrow> (fail + mysem_opened) \<times> trace \<Rightarrow> bool" where
  "open_part_ok path created sem fd h out \<longleftrightarrow>
     opened (snd out) = opened h \<and> closed (snd out) = add_mset fd (closed h) \<and>
     (case fst out of
        Inl e \<Rightarrow> unlinked (snd out) = (if created then path # unlinked h else unlinked h) \<and>
          (sem = None \<longrightarrow> mapped (snd out) + unmapped h = mapped h + unmapped (snd out))
      | Inr (a, _) \<Rightarrow> unlinked (snd out) = unlinked h \<and>
          (sem = None \<longrightarrow> mapped (snd out) + unmapped h = add_mset a (mapped h + unmapped (snd out))))"

lemma open_part_err:
  assumes "0 \<le> fd" "opened h' = opened h" "closed h' = closed h" "unlinked h' = unlinked h"
    and "sem0 = None \<Longrightarrow> mapped h' + unmapped h =
      mapped h + (case sem of None \<Rightarrow> unmapped h' | Some a \<Rightarrow> add_mset a (unmapped h'))"
  shows "open_part_ok path created sem0 fd h (mysem_open_err env path created sem fd e h')"
  using assms by (simp add: open_part_ok_def)

lemma open_part_success:
  assumes "0 \<le> fd" "opened h' = opened h" "closed h' = closed h" "unlinked h' = unlinked h"
    and "sem0 = None \<Longrightarrow> mapped h' + unmapped h = add_mset a (mapped h + unmapped h')"
  shows "open_part_ok path created sem0 fd h (Inr (a, x), sys_void env (SysClose fd) h')"
  using assms by (simp add: open_part_ok_def sys_void_def sys_def)

lemma mysem_open_create_ok:
  assumes fd: "0 \<le> fd"
  shows "open_part_ok path True sem fd h (mysem_open_create env path mode v sem fd h)"
proof -
  let ?r1 = "env h (SysWrite fd SEMSIZE)" and ?h1 = "(SysWrite fd SEMSIZE, env h (SysWrite fd SEMSIZE)) # h"
  let ?r2 = "env ?h1 (SysMmap SEMSIZE fd)"
  show ?thesis
  proof (cases "?r1 = Inr SEMSIZE")
    case False
    have "open_part_ok path True sem fd h (mysem_open_err env path True sem fd e ?h1)" for e
      by (rule open_part_err [OF fd]) (simp_all split: option.split)
    then show ?thesis using False by (simp add: mysem_open_create_def sys_def)
  next
    case w: True
    show ?thesis
    proof (cases ?r2)
      case (Inl e)
      have "open_part_ok path True sem fd h (mysem_open_err env path True None fd (Some e) ((SysMmap SEMSIZE fd, ?r2) # ?h1))"
        by (rule open_part_err [OF fd]) (simp_all add: Inl)
      then show ?thesis using w Inl by (simp add: mysem_open_create_def sys_def)
    next
      case (Inr a)
      let ?h2 = "(SysMmap SEMSIZE fd, ?r2) # ?h1"
      obtain i h3 where p: "pthread_shared_init env ?h2 = (i, h3)" by fastforce
      have h3: "opened h3 = opened h" "closed h3 = closed h" "unlinked h3 = unlinked h"
        "mapped h3 = add_mset a (mapped h)" "unmapped h3 = unmapped h"
        using pthread_shared_init_eq [OF p] by (simp_all add: Inr)
      have e3: "open_part_ok path True sem fd h (mysem_open_err env path True (Some a) fd e h')"
        if "opened h' = opened h" "closed h' = closed h" "unlinked h' = unlinked h"
          "mapped h' = add_mset a (mapped h)" "unmapped h' = unmapped h" for e h'
        by (rule open_part_err [OF fd]) (simp_all add: that)
      have e4: "open_part_ok path True sem fd h (mysem_open_err env path True (Some a) fd e ((SysSysconf, r) # h3))"
        "open_part_ok path True sem fd h
           (mysem_open_err env path True (Some a) fd e ((SysFchmod fd mode, r') # (SysSysconf, r) # h3))" for e r r'
        by (rule e3; simp add: h3)+
      have ok: "open_part_ok path True sem fd h
          (Inr (a, Some v), sys_void env (SysClose fd) ((SysFchmod fd mode, r') # (SysSysconf, r) # h3))" for r r'
        by (rule open_part_success [OF fd]) (simp_all add: h3)
      show ?thesis using w Inr p e3 [OF h3] e4 ok
        by (simp add: mysem_open_create_def sys_def split: option.split sum.split)
    qed
  qed
qed

text \<open>The waiting loop, entered with the descriptor open and the mapping \<open>a\<close> made.\<close>

lemma mysem_open_wait_ok:
  assumes "0 \<le> fd"
  shows "case mysem_open_wait n env path oflag a fd h of
     (None, h') \<Rightarrow> opened h' = opened h \<and> closed h' = add_mset fd (closed h) \<and> mapped h' = mapped h \<and>
       unmapped h' = unmapped h \<and> unlinked h' = unlinked h \<and> (\<exists>g. env g (SysStat path) = Inl ENOENT)
   | (Some r, h') \<Rightarrow> opened h' = opened h \<and> closed h' = add_mset fd (closed h) \<and> mapped h' = mapped h \<and>
       unlinked h' = unlinked h \<and>
       (case r of Inl e \<Rightarrow> unmapped h' = add_mset a (unmapped h)
        | Inr (a', x) \<Rightarrow> a' = a \<and> x = None \<and> unmapped h' = unmapped h)"
  using assms
proof (induction n arbitrary: h)
  case 0
  then show ?case
    by (cases "mysem_open_err env path False (Some a) fd (Some ETIMEDOUT) h") (auto dest: mysem_open_err_eq)
next
  case (Suc n)
  let ?r = "env h (SysStat path)" and ?h1 = "(SysStat path, env h (SysStat path)) # h"
  show ?case
  proof (cases ?r)
    case (Inl e)
    then show ?thesis
      using Suc.prems by (cases "mysem_open_err env path False (Some a) fd (Some e) ?h1")
        (auto simp: sys_def sys_void_def dest: mysem_open_err_eq)
  next
    case (Inr m)
    then show ?thesis
      using Suc.prems Suc.IH [of "sys_void env (SysSleep 1) ?h1"]
      by (cases "mysem_open_wait n env path oflag a fd (sys_void env (SysSleep 1) ?h1)")
        (auto simp: sys_def sys_void_def split: option.splits sum.splits prod.splits)
  qed
qed

text \<open>
  One pass from \<open>again\<close> to a return or the next \<^verbatim>\<open>goto again\<close>: descriptors balance, the name is only
  removed by a failing creator, mappings balance when no earlier attempt left one, and there is a
  next pass only after \<^verbatim>\<open>ENOENT\<close>.
\<close>

definition pass_ok :: "env \<Rightarrow> int option \<Rightarrow> trace \<Rightarrow> ((fail + mysem_opened) + int option) \<times> trace \<Rightarrow> bool" where
  "pass_ok env sem h out \<longleftrightarrow>
     opened (snd out) + closed h = opened h + closed (snd out) \<and>
     (case fst out of
        Inr sem' \<Rightarrow> unlinked (snd out) = unlinked h \<and> \<not> no_enoent env
      | Inl (Inl e) \<Rightarrow> sem = None \<longrightarrow> mapped (snd out) + unmapped h = mapped h + unmapped (snd out)
      | Inl (Inr (a, x)) \<Rightarrow> unlinked (snd out) = unlinked h \<and>
          (sem = None \<longrightarrow> mapped (snd out) + unmapped h = add_mset a (mapped h + unmapped (snd out))))"

lemma pass_ok_cong:
  "opened g = opened h \<Longrightarrow> closed g = closed h \<Longrightarrow> mapped g = mapped h \<Longrightarrow> unmapped g = unmapped h \<Longrightarrow>
     unlinked g = unlinked h \<Longrightarrow> pass_ok env sem g out = pass_ok env sem h out"
  by (simp add: pass_ok_def split: sum.split prod.split)

lemma mysem_open_exists_pass:
  assumes "env_ok env"
  shows "pass_ok env sem h (mysem_open_exists env path oflag sem h)"
proof (cases "env h (SysOpen path O_RDWR 0)")
  case (Inl e)
  let ?h1 = "(SysOpen path O_RDWR 0, Inl e) # h"
  show ?thesis using Inl
    by (cases "mysem_open_err env path False sem (-1) (Some e) ?h1")
      (auto simp: mysem_open_exists_def sys_def pass_ok_def no_enoent_def dest: mysem_open_err_eq)
next
  case (Inr fd)
  let ?h1 = "(SysOpen path O_RDWR 0, Inr fd) # h"
  have fd: "0 \<le> fd" using assms Inr env_okD by blast
  show ?thesis
  proof (cases "env ?h1 (SysMmap SEMSIZE fd)")
    case m: (Inl e)
    then show ?thesis using Inr fd
      by (cases "mysem_open_err env path False None fd (Some e) ((SysMmap SEMSIZE fd, Inl e) # ?h1)")
        (auto simp: mysem_open_exists_def sys_def pass_ok_def dest!: mysem_open_err_eq)
  next
    case m: (Inr a)
    let ?h2 = "(SysMmap SEMSIZE fd, Inr a) # ?h1"
    obtain r h3 where w: "mysem_open_wait MAX_TRIES env path oflag a fd ?h2 = (r, h3)" by fastforce
    then have "mysem_open_exists env path oflag sem h = (case r of None \<Rightarrow> Inr (Some a) | Some r \<Rightarrow> Inl r, h3)"
      using Inr m by (simp add: mysem_open_exists_def sys_def split: option.split)
    then show ?thesis
      using mysem_open_wait_ok [OF fd, where n = MAX_TRIES and h = ?h2 and env = env and path = path and oflag = oflag and a = a] w
      by (auto simp: pass_ok_def no_enoent_def split: option.splits sum.splits prod.splits)
  qed
qed

lemma mysem_open_step_pass:
  assumes "env_ok env"
  shows "pass_ok env sem h (mysem_open_step env path oflag mode v sem h)"
proof (cases "has_flag oflag O_CREAT")
  case False
  then show ?thesis using mysem_open_exists_pass [OF assms] by (simp add: mysem_open_step_def)
next
  case True
  let ?c = "SysOpen path (oflag OR O_EXCL OR O_RDWR) (mode OR S_IXUSR)"
  show ?thesis
  proof (cases "env h ?c")
    case (Inl e)
    have "pass_ok env sem h (mysem_open_exists env path oflag sem ((?c, Inl e) # h))"
      using mysem_open_exists_pass [OF assms, of sem "(?c, Inl e) # h" path oflag]
      by (subst (asm) pass_ok_cong [where h = h]) simp_all
    moreover have "pass_ok env sem h (Inl (Inl (Some e)), (?c, Inl e) # h)" by (simp add: pass_ok_def)
    ultimately show ?thesis using True Inl by (auto simp: mysem_open_step_def sys_def)
  next
    case (Inr fd)
    then have "0 \<le> fd" using assms env_okD by blast
    from mysem_open_create_ok [OF this, of path sem "(?c, Inr fd) # h" env mode v]
    show ?thesis using True Inr
      by (auto simp: mysem_open_step_def sys_def pass_ok_def open_part_ok_def split: sum.splits)
  qed
qed

text \<open>A pass that creates the file, and fails, removes its name.\<close>

lemma mysem_open_step_unlinks:
  assumes "has_flag oflag O_CREAT" "env h (SysOpen path (oflag OR O_EXCL OR O_RDWR) (mode OR S_IXUSR)) = Inr fd" "0 \<le> fd"
    and "mysem_open_step env path oflag mode v sem h = (Inl (Inl e), h')"
  shows "path \<in> set (unlinked h')"
proof -
  let ?h1 = "(SysOpen path (oflag OR O_EXCL OR O_RDWR) (mode OR S_IXUSR), Inr fd) # h"
  have "mysem_open_create env path mode v sem fd ?h1 = (Inl e, h')"
    using assms by (cases "mysem_open_create env path mode v sem fd ?h1") (simp add: mysem_open_step_def sys_def)
  then show ?thesis using mysem_open_create_ok [OF assms(3), of path sem ?h1 env mode v] by (simp add: open_part_ok_def)
qed

lemma mysem_open_loop_fds:
  assumes "mysem_open_loop n env path oflag mode v sem h = Some (r, h')" "env_ok env"
  shows "opened h' + closed h = opened h + closed h' \<and> (\<forall>a x. r = Inr (a, x) \<longrightarrow> unlinked h' = unlinked h)"
  using assms(1)
proof (induction n arbitrary: sem h)
  case 0
  then show ?case by simp
next
  case (Suc n)
  obtain out h1 where s: "mysem_open_step env path oflag mode v sem h = (out, h1)" by fastforce
  have ok: "pass_ok env sem h (out, h1)" using mysem_open_step_pass [OF assms(2), of sem h path oflag mode v] s by simp
  show ?case
  proof (cases out)
    case (Inl r')
    then show ?thesis using ok s Suc.prems by (auto simp: pass_ok_def)
  next
    case (Inr sem')
    then have "opened h1 + closed h = opened h + closed h1" "unlinked h1 = unlinked h" using ok by (simp_all add: pass_ok_def)
    moreover have IH: "opened h' + closed h1 = opened h1 + closed h'" "\<forall>a x. r = Inr (a, x) \<longrightarrow> unlinked h' = unlinked h1"
      using Suc.IH [of sem' h1] Suc.prems s Inr by simp_all
    ultimately have "opened h' + closed h + closed h1 = opened h + closed h' + closed h1"
      by (metis (no_types) add.assoc add.commute)
    then show ?thesis using IH \<open>unlinked h1 = unlinked h\<close> by simp
  qed
qed

subsection \<open>Properties\<close>

text \<open>A system where the file exists at first and is removed while the opener waits.\<close>

definition removed_env :: env where
  "removed_env h c =
     (case c of SysOpen p f m \<Rightarrow> if h = [] then Inl EEXIST else Inr 3
      | SysMmap n fd \<Rightarrow> if length h = 2 then Inr 4096 else Inr 8192
      | SysStat p \<Rightarrow> Inl ENOENT
      | SysWrite fd n \<Rightarrow> Inr n
      | SysSysconf \<Rightarrow> Inr 32767
      | _ \<Rightarrow> Inr 0)"

text \<open>A system where the file does not exist and every call succeeds.\<close>

definition fresh_env :: env where
  "fresh_env h c =
     (case c of SysOpen p f m \<Rightarrow> Inr 3 | SysMmap n fd \<Rightarrow> Inr 4096 | SysWrite fd n \<Rightarrow> Inr n
      | SysSysconf \<Rightarrow> Inr 32767 | _ \<Rightarrow> Inr 0)"

lemma removed_env_ok: "env_ok removed_env"
  by (auto simp: env_ok_def removed_env_def split: if_splits)

lemma fresh_env_ok: "env_ok fresh_env" "no_enoent fresh_env"
  by (auto simp: env_ok_def no_enoent_def fresh_env_def split: syscall.splits)



text \<open>
  When the file is not removed while \<open>mysem_open\<close> runs (no call fails with \<^verbatim>\<open>ENOENT\<close>) it returns
  after one pass; on failure nothing stays mapped, and on success exactly the mapping
  that is returned.
\<close>

theorem mysem_open_mappings:
  assumes "env_ok env" "no_enoent env"
  shows "\<exists>r h. mysem_open (Suc n) env path oflag mode v = Some (r, h) \<and>
    (case r of Inl e \<Rightarrow> mapped h = unmapped h | Inr (a, x) \<Rightarrow> mapped h = add_mset a (unmapped h))"
proof -
  obtain out h where s: "mysem_open_step env path oflag (mode AND NOT S_IXUSR) v None [] = (out, h)" by fastforce
  then have ok: "pass_ok env None [] (out, h)"
    using mysem_open_step_pass [OF assms(1), of None "[]" path oflag "mode AND NOT S_IXUSR" v] by simp
  show ?thesis using ok s assms(2) by (cases out) (auto simp: pass_ok_def mysem_open_def split: sum.splits)
qed

theorem mysem_open_mappings_witness:
  "\<exists>r h. mysem_open 1 fresh_env ''/sem'' O_CREAT 0x1A4 1 = Some (r, h) \<and>
    (case r of Inl e \<Rightarrow> mapped h = unmapped h | Inr (a, x) \<Rightarrow> mapped h = add_mset a (unmapped h))"
  using mysem_open_mappings [OF fresh_env_ok, of 0 "''/sem''" O_CREAT "0x1A4" 1] by simp

text \<open>
  When the file is removed while \<open>mysem_open\<close> waits for its initialisation, the mapping of the
  removed file is never released: the code starts again and overwrites the pointer to it.
\<close>

theorem mysem_open_leaks_mapping:
  "\<exists>h. mysem_open 2 removed_env ''/sem'' O_CREAT 0x1A4 1 = Some (Inr (8192, Some 1), h) \<and>
     mapped h = {#4096, 8192#} \<and> unmapped h = {#}"
proof -
  have "map_option (\<lambda>(r, h). (r, mapped h, unmapped h)) (mysem_open 2 removed_env ''/sem'' O_CREAT 0x1A4 1) =
      Some (Inr (8192, Some 1), {#4096, 8192#}, {#})" by code_simp
  then show ?thesis by (auto simp: map_option_case split: option.splits)
qed

end
