(* ===== verification/RWLock.thy ===== *)
theory RWLock
  imports Monitor
begin

text \<open>
  Read-write locks, \<^verbatim>\<open>src/unixipc/my_rwlock\<close>: \<^verbatim>\<open>pthread_rwlock_t\<close> and its operations as pieces of
  a monitor with the mutex \<open>rw_mutex\<close> and the condition variables \<open>rw_condreaders\<close> and
  \<open>rw_condwriters\<close>; and the variant with cancellation handling,
  \<^verbatim>\<open>src/unixipc/my_rwlock_cancel\<close>. \<open>lk\<close> is the outcome of \<^verbatim>\<open>pthread_mutex_lock\<close> and \<open>wres\<close>
  that of \<^verbatim>\<open>pthread_cond_wait\<close>; \<open>None\<close> is success. \<^verbatim>\<open>pthread_cond_signal\<close> and
  \<^verbatim>\<open>pthread_cond_broadcast\<close> succeed.
\<close>

subsection \<open>The lock and its operations\<close>

datatype rw_cond = CondReaders | CondWriters

record rwlock =
  rw_magic :: int
  rw_nwaitreaders :: int
  rw_nwaitwriters :: int
  rw_refcount :: int

definition RW_MAGIC :: int where
  "RW_MAGIC = 0x19283746"

text \<open>\<open>RwDump\<close>: the call ends in \<^verbatim>\<open>err_dump\<close>.\<close>

datatype rw_res = RwRet "unit res" | RwDump

type_synonym rw_out = "rwlock \<times> rw_cond wake \<times> (rw_cond, rw_res) outcome"

definition RWLOCK_INITIALIZER :: rwlock where
  "RWLOCK_INITIALIZER = \<lparr>rw_magic = RW_MAGIC, rw_nwaitreaders = 0, rw_nwaitwriters = 0, rw_refcount = 0\<rparr>"

text \<open>
  \<open>rwlock_init\<close>: \<open>attr\<close> says whether the attribute pointer is not null; \<open>m\<close>, \<open>r\<close>, \<open>w\<close> are the
  outcomes of initialising the mutex and the two condition variables. The last component is the
  list of objects destroyed on the error path.
\<close>

datatype rw_obj = RwMutex | RwCond rw_cond

definition rwlock_init ::
  "bool \<Rightarrow> errno option \<Rightarrow> errno option \<Rightarrow> errno option \<Rightarrow> rwlock \<Rightarrow> rwlock \<times> unit res \<times> rw_obj list" where
  "rwlock_init attr m r w rw =
     (if attr then (rw, Inl EINVAL, [])
      else case m of Some e \<Rightarrow> (rw, Inl e, []) | None \<Rightarrow>
      case r of Some e \<Rightarrow> (rw, Inl e, [RwMutex]) | None \<Rightarrow>
      case w of Some e \<Rightarrow> (rw, Inl e, [RwCond CondReaders, RwMutex]) | None \<Rightarrow>
        (rw\<lparr>rw_nwaitreaders := 0, rw_nwaitwriters := 0, rw_refcount := 0, rw_magic := RW_MAGIC\<rparr>, Inr (), []))"

definition rwlock_destroy :: "rwlock \<Rightarrow> rwlock \<times> unit res" where
  "rwlock_destroy rw =
     (if rw_magic rw \<noteq> RW_MAGIC then (rw, Inl EINVAL)
      else if rw_refcount rw \<noteq> 0 \<or> rw_nwaitreaders rw \<noteq> 0 \<or> rw_nwaitwriters rw \<noteq> 0 then (rw, Inl EBUSY)
      else (rw\<lparr>rw_magic := 0\<rparr>, Inr ()))"

definition rw_locked :: "errno option \<Rightarrow> (rwlock \<Rightarrow> rw_out) \<Rightarrow> rwlock \<Rightarrow> rw_out" where
  "rw_locked lk body rw =
     (if rw_magic rw \<noteq> RW_MAGIC then (rw, NoWake, Return (RwRet (Inl EINVAL)))
      else case lk of Some e \<Rightarrow> (rw, NoWake, Return (RwRet (Inl e))) | None \<Rightarrow> body rw)"

text \<open>The loop of \<open>rdlock\<close>, up to the next wait.\<close>

definition rdlock_loop :: "rwlock \<Rightarrow> rw_out" where
  "rdlock_loop rw =
     (if rw_refcount rw < 0 \<or> rw_nwaitwriters rw > 0
      then (rw\<lparr>rw_nwaitreaders := rw_nwaitreaders rw + 1\<rparr>, NoWake, Block CondReaders)
      else (rw\<lparr>rw_refcount := rw_refcount rw + 1\<rparr>, NoWake, Return (RwRet (Inr ()))))"

definition rdlock :: "errno option \<Rightarrow> rwlock \<Rightarrow> rw_out" where
  "rdlock lk = rw_locked lk rdlock_loop"

definition rdlock_resume :: "errno option \<Rightarrow> rwlock \<Rightarrow> rw_out" where
  "rdlock_resume wres rw =
     (let rw = rw\<lparr>rw_nwaitreaders := rw_nwaitreaders rw - 1\<rparr> in
      case wres of Some e \<Rightarrow> (rw, NoWake, Return (RwRet (Inl e))) | None \<Rightarrow> rdlock_loop rw)"

definition wrlock_loop :: "rwlock \<Rightarrow> rw_out" where
  "wrlock_loop rw =
     (if rw_refcount rw \<noteq> 0
      then (rw\<lparr>rw_nwaitwriters := rw_nwaitwriters rw + 1\<rparr>, NoWake, Block CondWriters)
      else (rw\<lparr>rw_refcount := -1\<rparr>, NoWake, Return (RwRet (Inr ()))))"

definition wrlock :: "errno option \<Rightarrow> rwlock \<Rightarrow> rw_out" where
  "wrlock lk = rw_locked lk wrlock_loop"

definition wrlock_resume :: "errno option \<Rightarrow> rwlock \<Rightarrow> rw_out" where
  "wrlock_resume wres rw =
     (let rw = rw\<lparr>rw_nwaitwriters := rw_nwaitwriters rw - 1\<rparr> in
      case wres of Some e \<Rightarrow> (rw, NoWake, Return (RwRet (Inl e))) | None \<Rightarrow> wrlock_loop rw)"

definition tryrdlock :: "errno option \<Rightarrow> rwlock \<Rightarrow> rw_out" where
  "tryrdlock lk = rw_locked lk (\<lambda>rw.
     if rw_refcount rw < 0 \<or> rw_nwaitwriters rw > 0 then (rw, NoWake, Return (RwRet (Inl EBUSY)))
     else (rw\<lparr>rw_refcount := rw_refcount rw + 1\<rparr>, NoWake, Return (RwRet (Inr ()))))"

definition trywrlock :: "errno option \<Rightarrow> rwlock \<Rightarrow> rw_out" where
  "trywrlock lk = rw_locked lk (\<lambda>rw.
     if rw_refcount rw \<noteq> 0 then (rw, NoWake, Return (RwRet (Inl EBUSY)))
     else (rw\<lparr>rw_refcount := -1\<rparr>, NoWake, Return (RwRet (Inr ()))))"

definition unlock :: "errno option \<Rightarrow> rwlock \<Rightarrow> rw_out" where
  "unlock lk = rw_locked lk (\<lambda>rw.
     if \<not> rw_refcount rw > 0 \<and> rw_refcount rw \<noteq> -1 then (rw, NoWake, Return RwDump)
     else
       let rw = (if rw_refcount rw > 0 then rw\<lparr>rw_refcount := rw_refcount rw - 1\<rparr> else rw\<lparr>rw_refcount := 0\<rparr>);
           w = (if rw_nwaitwriters rw > 0 then (if rw_refcount rw = 0 then Signal CondWriters else NoWake)
                else if rw_nwaitreaders rw > 0 then Broadcast CondReaders else NoWake)
       in (rw, w, Return (RwRet (Inr ()))))"

subsection \<open>The variant with cancellation\<close>

text \<open>The cleanup handlers that run when a waiting thread is cancelled.\<close>

definition rwlock_cancelrdwait :: "rwlock \<Rightarrow> rwlock" where
  "rwlock_cancelrdwait rw = rw\<lparr>rw_nwaitreaders := rw_nwaitreaders rw - 1\<rparr>"

definition rwlock_cancelwrwait :: "rwlock \<Rightarrow> rwlock" where
  "rwlock_cancelwrwait rw = rw\<lparr>rw_nwaitwriters := rw_nwaitwriters rw - 1\<rparr>"

text \<open>\<open>rdlock\<close> and \<open>wrlock\<close> of this variant return 0 after the loop, whatever \<open>result\<close> is.\<close>

definition rdlockc :: "errno option \<Rightarrow> rwlock \<Rightarrow> rw_out" where
  "rdlockc lk = rw_locked lk rdlock_loop"

definition rdlockc_resume :: "errno option \<Rightarrow> rwlock \<Rightarrow> rw_out" where
  "rdlockc_resume wres rw =
     (let rw = rw\<lparr>rw_nwaitreaders := rw_nwaitreaders rw - 1\<rparr> in
      case wres of Some e \<Rightarrow> (rw, NoWake, Return (RwRet (Inr ()))) | None \<Rightarrow> rdlock_loop rw)"

text \<open>
  \<open>result\<close> is the outcome of the lock: a positive error code is not -1, so the code goes on
  without the mutex.
\<close>

definition wrlockc_loop :: "errno option \<Rightarrow> rwlock \<Rightarrow> rw_out" where
  "wrlockc_loop result rw =
     (if rw_refcount rw \<noteq> 0
      then (rw\<lparr>rw_nwaitwriters := rw_nwaitwriters rw + 1\<rparr>, NoWake, Block CondWriters)
      else (if result = None then rw\<lparr>rw_refcount := -1\<rparr> else rw, NoWake, Return (RwRet (Inr ()))))"

definition wrlockc :: "errno option \<Rightarrow> rwlock \<Rightarrow> rw_out" where
  "wrlockc lk rw =
     (if rw_magic rw \<noteq> RW_MAGIC then (rw, NoWake, Return (RwRet (Inl EINVAL))) else wrlockc_loop lk rw)"

definition wrlockc_resume :: "errno option \<Rightarrow> rwlock \<Rightarrow> rw_out" where
  "wrlockc_resume wres rw =
     (let rw = rw\<lparr>rw_nwaitwriters := rw_nwaitwriters rw - 1\<rparr> in
      case wres of Some e \<Rightarrow> (rw, NoWake, Return (RwRet (Inr ()))) | None \<Rightarrow> wrlockc_loop None rw)"

definition tryrdlockc :: "errno option \<Rightarrow> rwlock \<Rightarrow> rw_out" where
  "tryrdlockc lk = rw_locked lk (\<lambda>rw.
     if rw_refcount rw = -1 \<or> rw_nwaitwriters rw > 0 then (rw, NoWake, Return (RwRet (Inl EBUSY)))
     else (rw\<lparr>rw_refcount := rw_refcount rw + 1\<rparr>, NoWake, Return (RwRet (Inr ()))))"

text \<open>A waiting writer is signalled even while readers hold the lock.\<close>

definition unlockc :: "errno option \<Rightarrow> rwlock \<Rightarrow> rw_out" where
  "unlockc lk = rw_locked lk (\<lambda>rw.
     if \<not> rw_refcount rw > 0 \<and> rw_refcount rw \<noteq> -1 then (rw, NoWake, Return RwDump)
     else
       let rw = (if rw_refcount rw > 0 then rw\<lparr>rw_refcount := rw_refcount rw - 1\<rparr> else rw\<lparr>rw_refcount := 0\<rparr>);
           w = (if rw_nwaitwriters rw > 0 then Signal CondWriters
                else if rw_nwaitreaders rw > 0 then Broadcast CondReaders else NoWake)
       in (rw, w, Return (RwRet (Inr ()))))"

lemma wrlockc_loop_None [simp]: "wrlockc_loop None = wrlock_loop"
  by (simp add: fun_eq_iff wrlockc_loop_def wrlock_loop_def)

lemmas rw_defs = rdlock_loop_def rdlock_def rdlock_resume_def wrlock_loop_def wrlock_def wrlock_resume_def
  tryrdlock_def trywrlock_def unlock_def rw_locked_def

subsection \<open>Threads that use a lock\<close>

datatype rw_op = RdLock | WrLock | TryRdLock | TryWrLock | Unlock

text \<open>\<open>c\<close> selects the variant with cancellation.\<close>

fun rw_enter :: "bool \<Rightarrow> (rwlock, rw_cond, rw_op, rw_res) piece" where
  "rw_enter c RdLock rw = (if c then rdlockc None rw else rdlock None rw)"
| "rw_enter c WrLock rw = (if c then wrlockc None rw else wrlock None rw)"
| "rw_enter c TryRdLock rw = (if c then tryrdlockc None rw else tryrdlock None rw)"
| "rw_enter c TryWrLock rw = trywrlock None rw"
| "rw_enter c Unlock rw = (if c then unlockc None rw else unlock None rw)"

fun rw_resume :: "bool \<Rightarrow> (rwlock, rw_cond, rw_op, rw_res) piece" where
  "rw_resume c WrLock rw = (if c then wrlockc_resume None rw else wrlock_resume None rw)"
| "rw_resume c _ rw = (if c then rdlockc_resume None rw else rdlock_resume None rw)"

text \<open>The lock a thread holds after the calls it has done.\<close>

fun holds_rd :: "(rw_op \<times> rw_res) list \<Rightarrow> bool" where
  "holds_rd ((op, RwRet (Inr _)) # _) = (op = RdLock)"
| "holds_rd _ = False"

fun holds_wr :: "(rw_op \<times> rw_res) list \<Rightarrow> bool" where
  "holds_wr ((op, RwRet (Inr _)) # _) = (op = WrLock)"
| "holds_wr _ = False"

text \<open>Programs that lock and unlock in turn; the flag says whether the lock is held.\<close>

fun disciplined :: "bool \<Rightarrow> rw_op list \<Rightarrow> bool" where
  "disciplined h [] = (\<not> h)"
| "disciplined h (op # ops) =
     (if h then op = Unlock \<and> disciplined False ops else (op = RdLock \<or> op = WrLock) \<and> disciplined True ops)"

definition rw_thread_ok :: "(rw_cond, rw_op, rw_res) thread \<Rightarrow> bool" where
  "rw_thread_ok t \<longleftrightarrow>
     disciplined (holds_rd (t_done t) \<or> holds_wr (t_done t)) (t_todo t) \<and>
     (\<forall>d \<in> set (t_done t). snd d = RwRet (Inr ())) \<and>
     (case t_stat t of Running \<Rightarrow> True
      | Blocked CondReaders \<Rightarrow> t_todo t \<noteq> [] \<and> hd (t_todo t) = RdLock
      | Blocked CondWriters \<Rightarrow> t_todo t \<noteq> [] \<and> hd (t_todo t) = WrLock
      | Woken \<Rightarrow> t_todo t \<noteq> [] \<and> (hd (t_todo t) = RdLock \<or> hd (t_todo t) = WrLock))"

abbreviation n_readers :: "(rw_cond, rw_op, rw_res) thread list \<Rightarrow> int" where
  "n_readers \<equiv> n_threads (\<lambda>t. holds_rd (t_done t))"

abbreviation n_writers :: "(rw_cond, rw_op, rw_res) thread list \<Rightarrow> int" where
  "n_writers \<equiv> n_threads (\<lambda>t. holds_wr (t_done t))"

definition woken_writer :: "(rw_cond, rw_op, rw_res) thread \<Rightarrow> bool" where
  "woken_writer t \<longleftrightarrow> t_stat t = Woken \<and> hd (t_todo t) = WrLock"

text \<open>
  The invariant: the counters count, the lock excludes, and a free lock with waiting writers has a
  writer on its way; readers are blocked only behind a writer that holds the lock or waits.
\<close>

definition rw_inv :: "rwlock \<times> (rw_cond, rw_op, rw_res) thread list \<Rightarrow> bool" where
  "rw_inv st \<longleftrightarrow> (case st of (rw, ts) \<Rightarrow>
     rw_magic rw = RW_MAGIC \<and> (\<forall>t \<in> set ts. rw_thread_ok t) \<and>
     rw_nwaitreaders rw = n_in_call (\<lambda>op. op = RdLock) ts \<and>
     rw_nwaitwriters rw = n_in_call (\<lambda>op. op = WrLock) ts \<and>
     (rw_refcount rw = -1 \<and> n_writers ts = 1 \<and> n_readers ts = 0 \<or>
      rw_refcount rw = n_readers ts \<and> n_writers ts = 0) \<and>
     (rw_refcount rw = 0 \<and> rw_nwaitwriters rw > 0 \<longrightarrow> (\<exists>t \<in> set ts. woken_writer t)) \<and>
     ((\<exists>t \<in> set ts. t_stat t = Blocked CondReaders) \<longrightarrow> rw_refcount rw < 0 \<or> rw_nwaitwriters rw > 0))"

subsection \<open>Wake-ups\<close>

lemma wakes_all:
  assumes "wakes w us ts'" "\<forall>t \<in> set us. Q t" "\<And>t c. Q t \<Longrightarrow> t_stat t = Blocked c \<Longrightarrow> Q (t\<lparr>t_stat := Woken\<rparr>)"
  shows "\<forall>t \<in> set ts'. Q t"
proof
  fix t
  assume "t \<in> set ts'"
  then obtain j where j: "j < length us" "t = ts' ! j"
    using wakes_length [OF assms(1)] by (auto simp: in_set_conv_nth)
  then have "Q (us ! j)" using assms(2) by simp
  then show "Q t" using wakes_nth [OF assms(1) j(1)] assms(3) j(2) by auto
qed

lemma rw_thread_ok_woken: "rw_thread_ok t \<Longrightarrow> t_stat t = Blocked c \<Longrightarrow> rw_thread_ok (t\<lparr>t_stat := Woken\<rparr>)"
  by (cases c) (auto simp: rw_thread_ok_def)

lemma wakes_woken_writer:
  assumes "wakes w us ts'" "t \<in> set us" "woken_writer t"
  shows "\<exists>t \<in> set ts'. woken_writer t"
proof -
  obtain j where j: "j < length us" "t = us ! j" using assms(2) by (auto simp: in_set_conv_nth)
  then have "ts' ! j = us ! j" using wakes_nth [OF assms(1) j(1)] assms(3) by (auto simp: woken_writer_def)
  then show ?thesis using j assms(3) wakes_length [OF assms(1)] nth_mem by metis
qed

lemma wakes_blocked:
  assumes "wakes w us ts'" "\<forall>t \<in> set us. t_stat t \<noteq> Blocked c"
  shows "\<forall>t \<in> set ts'. t_stat t \<noteq> Blocked c"
  using wakes_all [OF assms] by simp

lemma broadcast_wakes: "wakes (Broadcast c) us ts' \<Longrightarrow> \<forall>t \<in> set ts'. t_stat t \<noteq> Blocked c"
  by (erule wakes_cases) (auto simp: wake_if_def)

lemma signal_wakes_writer:
  assumes "wakes (Signal CondWriters) us ts'" "\<forall>t \<in> set us. rw_thread_ok t" "0 < n_in_call (\<lambda>op. op = WrLock) us"
  shows "\<exists>t \<in> set ts'. woken_writer t"
  using assms(1)
proof cases
  case (signal j)
  then have "rw_thread_ok (us ! j)" using assms(2) by simp
  then have "woken_writer (wake_if CondWriters (us ! j))" using signal by (simp add: rw_thread_ok_def woken_writer_def wake_if_def)
  moreover have "wake_if CondWriters (us ! j) \<in> set ts'" using signal by (simp add: set_update_memI)
  ultimately show ?thesis by blast
next
  case nobody
  obtain t where t: "t \<in> set us" "in_call (\<lambda>op. op = WrLock) t" using assms(3) by (auto simp: n_threads_pos_iff)
  then have "rw_thread_ok t" "t_stat t \<noteq> Blocked CondWriters" using assms(2) nobody by auto
  then have "woken_writer t"
    using t(2) by (auto simp: rw_thread_ok_def woken_writer_def in_call_def split: status.splits rw_cond.splits)
  then show ?thesis using t(1) nobody by blast
qed

subsection \<open>The invariant is kept\<close>

text \<open>A piece of the thread \<open>i\<close> turns it into \<open>t\<close> and wakes threads by \<open>w\<close>.\<close>

lemma rw_inv_after:
  assumes inv: "rw_inv (rw, ts)" and i: "i < length ts" and w: "wakes w (ts[i := t]) ts'" and t: "rw_thread_ok t"
    and magic: "rw_magic rw' = RW_MAGIC"
    and nr: "rw_nwaitreaders rw' = rw_nwaitreaders rw + of_bool (in_call (\<lambda>op. op = RdLock) t) -
      of_bool (in_call (\<lambda>op. op = RdLock) (ts ! i))"
    and nw: "rw_nwaitwriters rw' = rw_nwaitwriters rw + of_bool (in_call (\<lambda>op. op = WrLock) t) -
      of_bool (in_call (\<lambda>op. op = WrLock) (ts ! i))"
    and ref: "rw_refcount rw' = -1 \<and> n_writers (ts[i := t]) = 1 \<and> n_readers (ts[i := t]) = 0 \<or>
      rw_refcount rw' = n_readers (ts[i := t]) \<and> n_writers (ts[i := t]) = 0"
    and live1: "rw_refcount rw' = 0 \<Longrightarrow> 0 < rw_nwaitwriters rw' \<Longrightarrow>
      w = Signal CondWriters \<or> (\<exists>u \<in> set (ts[i := t]). woken_writer u)"
    and live2: "0 \<le> rw_refcount rw' \<Longrightarrow> rw_nwaitwriters rw' \<le> 0 \<Longrightarrow>
      w = Broadcast CondReaders \<or> (\<forall>u \<in> set (ts[i := t]). t_stat u \<noteq> Blocked CondReaders)"
  shows "rw_inv (rw', ts')"
proof -
  have ok: "\<forall>u \<in> set (ts[i := t]). rw_thread_ok u"
    using inv t set_update_subset_insert [of ts i t] by (auto simp: rw_inv_def)
  have cr: "n_readers ts' = n_readers (ts[i := t])" "n_writers ts' = n_writers (ts[i := t])"
    using w by (auto intro: n_threads_wakes)
  have cw: "n_in_call (\<lambda>op. op = RdLock) ts' = rw_nwaitreaders rw'" "n_in_call (\<lambda>op. op = WrLock) ts' = rw_nwaitwriters rw'"
    "n_in_call (\<lambda>op. op = WrLock) (ts[i := t]) = rw_nwaitwriters rw'"
    using inv nr nw i by (simp_all add: n_in_call_wakes [OF w] n_threads_update rw_inv_def)
  have "\<exists>u \<in> set ts'. woken_writer u" if "rw_refcount rw' = 0" "0 < rw_nwaitwriters rw'"
    using live1 [OF that]
  proof
    assume "w = Signal CondWriters"
    then show ?thesis using signal_wakes_writer [OF _ ok] w cw(3) that(2) by simp
  qed (use wakes_woken_writer [OF w] in blast)
  moreover have "\<forall>u \<in> set ts'. t_stat u \<noteq> Blocked CondReaders" if "0 \<le> rw_refcount rw'" "rw_nwaitwriters rw' \<le> 0"
    using live2 [OF that]
  proof
    assume "w = Broadcast CondReaders"
    from w [unfolded this] show ?thesis by (rule broadcast_wakes)
  qed (use wakes_blocked [OF w] in blast)
  then have "(\<exists>t \<in> set ts'. t_stat t = Blocked CondReaders) \<longrightarrow> rw_refcount rw' < 0 \<or> 0 < rw_nwaitwriters rw'"
    by (meson not_le)
  moreover have "\<forall>t \<in> set ts'. rw_thread_ok t" by (rule wakes_all [OF w ok]) (rule rw_thread_ok_woken)
  ultimately show ?thesis using magic cw ref cr by (simp add: rw_inv_def)
qed

lemma rw_inv_thread: "rw_inv (rw, ts) \<Longrightarrow> i < length ts \<Longrightarrow> rw_thread_ok (ts ! i)"
  by (simp add: rw_inv_def)

lemma rw_inv_ref:
  "rw_inv (rw, ts) \<Longrightarrow> rw_refcount rw = -1 \<and> n_writers ts = 1 \<and> n_readers ts = 0 \<or>
     rw_refcount rw = n_readers ts \<and> 0 \<le> n_readers ts \<and> n_writers ts = 0"
  using n_threads_nonneg [of "\<lambda>t. holds_rd (t_done t)" ts] by (auto simp: rw_inv_def)

lemma rw_inv_magic: "rw_inv (rw, ts) \<Longrightarrow> rw_magic rw = RW_MAGIC"
  by (simp add: rw_inv_def)

lemma rw_inv_waiters:
  "rw_inv (rw, ts) \<Longrightarrow> rw_nwaitreaders rw = n_in_call (\<lambda>op. op = RdLock) ts \<and> 0 \<le> rw_nwaitreaders rw \<and>
     rw_nwaitwriters rw = n_in_call (\<lambda>op. op = WrLock) ts \<and> 0 \<le> rw_nwaitwriters rw"
  using n_threads_nonneg by (auto simp: rw_inv_def)

lemma not_holding:
  "rw_thread_ok t \<Longrightarrow> t_todo t = op # ops \<Longrightarrow> op \<noteq> Unlock \<Longrightarrow>
     \<not> holds_rd (t_done t) \<and> \<not> holds_wr (t_done t) \<and> disciplined True ops \<and> (op = RdLock \<or> op = WrLock)"
  by (auto simp: rw_thread_ok_def split: if_splits)

lemma rdlock_loop_inv:
  assumes inv: "rw_inv (rw, ts)" and i: "i < length ts" and todo: "t_todo (ts ! i) = RdLock # ops"
    and st: "t_stat (ts ! i) = Running \<and> rw0 = rw \<or>
      t_stat (ts ! i) = Woken \<and> rw0 = rw\<lparr>rw_nwaitreaders := rw_nwaitreaders rw - 1\<rparr>"
    and loop: "rdlock_loop rw0 = (rw', w, out)" and w: "wakes w (ts[i := after_piece out (ts ! i)]) ts'"
  shows "rw_inv (rw', ts')"
proof (rule rw_inv_after [OF inv i w])
  note nh = not_holding [OF rw_inv_thread [OF inv i] todo]
  have eq: "rw_refcount rw0 = rw_refcount rw" "rw_nwaitwriters rw0 = rw_nwaitwriters rw" "rw_magic rw0 = RW_MAGIC"
    using st inv by (auto simp: rw_inv_def)
  show "rw_thread_ok (after_piece out (ts ! i))" "rw_magic rw' = RW_MAGIC"
    using loop nh todo eq rw_inv_thread [OF inv i] by (auto simp: rdlock_loop_def rw_thread_ok_def split: if_splits)
  show "rw_nwaitreaders rw' = rw_nwaitreaders rw + of_bool (in_call (\<lambda>op. op = RdLock) (after_piece out (ts ! i))) -
      of_bool (in_call (\<lambda>op. op = RdLock) (ts ! i))"
    using loop st todo by (auto simp: rdlock_loop_def in_call_def split: if_splits)
  show "rw_nwaitwriters rw' = rw_nwaitwriters rw + of_bool (in_call (\<lambda>op. op = WrLock) (after_piece out (ts ! i))) -
      of_bool (in_call (\<lambda>op. op = WrLock) (ts ! i))"
    using loop eq todo by (auto simp: rdlock_loop_def in_call_def split: if_splits)
  show "rw_refcount rw' = -1 \<and> n_writers (ts[i := after_piece out (ts ! i)]) = 1 \<and> n_readers (ts[i := after_piece out (ts ! i)]) = 0 \<or>
      rw_refcount rw' = n_readers (ts[i := after_piece out (ts ! i)]) \<and> n_writers (ts[i := after_piece out (ts ! i)]) = 0"
    using loop nh eq rw_inv_ref [OF inv] i todo by (auto simp: rdlock_loop_def n_threads_update split: if_splits)
  show "w = Signal CondWriters \<or> (\<exists>u \<in> set (ts[i := after_piece out (ts ! i)]). woken_writer u)"
    if r: "rw_refcount rw' = 0" "0 < rw_nwaitwriters rw'"
  proof -
    have r0: "rw_refcount rw = 0" "0 < rw_nwaitwriters rw"
      using r loop eq by (auto simp: rdlock_loop_def split: if_splits)
    then obtain u where u: "u \<in> set ts" "woken_writer u" using inv by (auto simp: rw_inv_def)
    then have "u \<noteq> ts ! i" using todo by (auto simp: woken_writer_def)
    then have "u \<in> set (ts[i := after_piece out (ts ! i)])" using u(1) by (metis in_set_conv_nth length_list_update nth_list_update_neq)
    then show ?thesis using u(2) by blast
  qed
  show "w = Broadcast CondReaders \<or> (\<forall>u \<in> set (ts[i := after_piece out (ts ! i)]). t_stat u \<noteq> Blocked CondReaders)"
    if r: "0 \<le> rw_refcount rw'" "rw_nwaitwriters rw' \<le> 0"
  proof -
    have r0: "rw_refcount rw \<ge> 0" "rw_nwaitwriters rw \<le> 0" "out = Return (RwRet (Inr ()))"
      using r loop eq by (auto simp: rdlock_loop_def split: if_splits)
    then have "\<forall>u \<in> set ts. t_stat u \<noteq> Blocked CondReaders" using inv by (auto simp: rw_inv_def)
    then show ?thesis using r0(3) set_update_subset_insert [of ts i] by fastforce
  qed
qed

lemma wrlock_loop_inv:
  assumes inv: "rw_inv (rw, ts)" and i: "i < length ts" and todo: "t_todo (ts ! i) = WrLock # ops"
    and st: "t_stat (ts ! i) = Running \<and> rw0 = rw \<or>
      t_stat (ts ! i) = Woken \<and> rw0 = rw\<lparr>rw_nwaitwriters := rw_nwaitwriters rw - 1\<rparr>"
    and loop: "wrlock_loop rw0 = (rw', w, out)" and w: "wakes w (ts[i := after_piece out (ts ! i)]) ts'"
  shows "rw_inv (rw', ts')"
proof (rule rw_inv_after [OF inv i w])
  note nh = not_holding [OF rw_inv_thread [OF inv i] todo]
  have eq: "rw_refcount rw0 = rw_refcount rw" "rw_nwaitreaders rw0 = rw_nwaitreaders rw" "rw_magic rw0 = RW_MAGIC"
    using st inv by (auto simp: rw_inv_def)
  show "rw_thread_ok (after_piece out (ts ! i))" "rw_magic rw' = RW_MAGIC"
    using loop nh todo eq rw_inv_thread [OF inv i] by (auto simp: wrlock_loop_def rw_thread_ok_def split: if_splits)
  show "rw_nwaitreaders rw' = rw_nwaitreaders rw + of_bool (in_call (\<lambda>op. op = RdLock) (after_piece out (ts ! i))) -
      of_bool (in_call (\<lambda>op. op = RdLock) (ts ! i))"
    using loop eq todo by (auto simp: wrlock_loop_def in_call_def split: if_splits)
  show "rw_nwaitwriters rw' = rw_nwaitwriters rw + of_bool (in_call (\<lambda>op. op = WrLock) (after_piece out (ts ! i))) -
      of_bool (in_call (\<lambda>op. op = WrLock) (ts ! i))"
    using loop st todo by (auto simp: wrlock_loop_def in_call_def split: if_splits)
  show "rw_refcount rw' = -1 \<and> n_writers (ts[i := after_piece out (ts ! i)]) = 1 \<and> n_readers (ts[i := after_piece out (ts ! i)]) = 0 \<or>
      rw_refcount rw' = n_readers (ts[i := after_piece out (ts ! i)]) \<and> n_writers (ts[i := after_piece out (ts ! i)]) = 0"
    using loop nh eq rw_inv_ref [OF inv] i todo by (auto simp: wrlock_loop_def n_threads_update split: if_splits)
  show "w = Signal CondWriters \<or> (\<exists>u \<in> set (ts[i := after_piece out (ts ! i)]). woken_writer u)" if "rw_refcount rw' = 0"
    using that loop by (auto simp: wrlock_loop_def split: if_splits)
  show "w = Broadcast CondReaders \<or> (\<forall>u \<in> set (ts[i := after_piece out (ts ! i)]). t_stat u \<noteq> Blocked CondReaders)"
    if r: "0 \<le> rw_refcount rw'" "rw_nwaitwriters rw' \<le> 0"
  proof -
    have "ts ! i \<in> set ts" using i by simp
    then have "t_stat (ts ! i) = Woken \<Longrightarrow> 0 < n_in_call (\<lambda>op. op = WrLock) ts"
      using todo unfolding n_threads_pos_iff by (intro bexI [of _ "ts ! i"]) (simp_all add: in_call_def)
    then show ?thesis using r loop st rw_inv_waiters [OF inv] by (auto simp: wrlock_loop_def split: if_splits)
  qed
qed

lemma unlock_inv:
  assumes inv: "rw_inv (rw, ts)" and i: "i < length ts" and todo: "t_todo (ts ! i) = Unlock # ops"
    and st: "t_stat (ts ! i) = Running" and unl: "rw_enter c Unlock rw = (rw', w, out)"
    and w: "wakes w (ts[i := after_piece out (ts ! i)]) ts'"
  shows "rw_inv (rw', ts') \<and> out = Return (RwRet (Inr ()))"
proof -
  let ?t = "ts ! i"
  have ok: "rw_thread_ok ?t" by (rule rw_inv_thread [OF inv i])
  have m: "?t \<in> set ts" using i by simp
  have one: "holds_rd (t_done ?t) \<noteq> holds_wr (t_done ?t)" and ops: "disciplined False ops"
    using ok todo by (cases "t_done ?t" rule: holds_rd.cases; auto simp: rw_thread_ok_def split: if_splits)+
  have "0 < n_readers ts" if "holds_rd (t_done ?t)" using that m by (auto simp: n_threads_pos_iff)
  moreover have "0 < n_writers ts" if "holds_wr (t_done ?t)" using that m by (auto simp: n_threads_pos_iff)
  ultimately have ref: "rw_refcount rw > 0 \<and> holds_rd (t_done ?t) \<and> \<not> holds_wr (t_done ?t) \<or>
      rw_refcount rw = -1 \<and> \<not> holds_rd (t_done ?t) \<and> holds_wr (t_done ?t)" and magic: "rw_magic rw = RW_MAGIC"
    using one rw_inv_ref [OF inv] rw_inv_magic [OF inv] by auto
  have out: "out = Return (RwRet (Inr ()))" using unl ref magic by (auto simp: unlock_def unlockc_def rw_locked_def Let_def split: if_splits)
  have eq: "rw_magic rw' = RW_MAGIC" "rw_nwaitreaders rw' = rw_nwaitreaders rw" "rw_nwaitwriters rw' = rw_nwaitwriters rw"
    "rw_refcount rw' = (if rw_refcount rw > 0 then rw_refcount rw - 1 else 0)"
    "w = (if rw_nwaitwriters rw > 0 then (if c \<or> rw_refcount rw' = 0 then Signal CondWriters else NoWake)
                else if rw_nwaitreaders rw > 0 then Broadcast CondReaders else NoWake)"
    using unl ref magic by (auto simp: unlock_def unlockc_def rw_locked_def Let_def split: if_splits)
  have "rw_inv (rw', ts')"
  proof (rule rw_inv_after [OF inv i w])
    show "rw_thread_ok (after_piece out ?t)" using todo ops out ok by (simp add: rw_thread_ok_def)
    show "rw_refcount rw' = -1 \<and> n_writers (ts[i := after_piece out ?t]) = 1 \<and> n_readers (ts[i := after_piece out ?t]) = 0 \<or>
      rw_refcount rw' = n_readers (ts[i := after_piece out ?t]) \<and> n_writers (ts[i := after_piece out ?t]) = 0"
      using ref rw_inv_ref [OF inv] i todo out eq(4) by (auto simp: n_threads_update)
    show "w = Broadcast CondReaders \<or> (\<forall>u \<in> set (ts[i := after_piece out ?t]). t_stat u \<noteq> Blocked CondReaders)"
      if "rw_nwaitwriters rw' \<le> 0"
    proof (cases "rw_nwaitreaders rw > 0")
      case True
      then show ?thesis using that eq by simp
    next
      case False
      then have "n_in_call (\<lambda>op. op = RdLock) ts = 0"
        using rw_inv_waiters [OF inv] by simp
      then have "t_stat u \<noteq> Blocked CondReaders" if "u \<in> set ts" "rw_thread_ok u" for u
        using that by (auto simp: n_threads_zero_iff in_call_def rw_thread_ok_def)
      then have "\<forall>u \<in> set ts. t_stat u \<noteq> Blocked CondReaders" using inv by (simp add: rw_inv_def)
      then show ?thesis using out set_update_subset_insert [of ts i] by fastforce
    qed
  qed (use eq todo out st in \<open>simp_all add: in_call_def\<close>)
  with out show ?thesis by simp
qed

lemma rw_step_inv:
  assumes "mon_step sp (rw_enter c) (rw_resume c) st st'" "rw_inv st"
  shows "rw_inv st'"
  using assms(1)
proof cases
  case (Enter i ts op ops s s' w out ts')
  have inv: "rw_inv (s, ts)" using assms(2) Enter(1) by simp
  note m = rw_inv_magic [OF inv]
  consider "op = Unlock" | "op = RdLock" | "op = WrLock"
    using not_holding [OF rw_inv_thread [OF inv Enter(3)] Enter(5)] by blast
  then have "rw_inv (s', ts')"
  proof cases
    case 1
    then show ?thesis using unlock_inv [OF inv Enter(3) _ Enter(4) _ Enter(7)] Enter(5,6) by blast
  next
    case 2
    then have "rdlock_loop s = (s', w, out)" using Enter(6) m by (simp add: rdlock_def rdlockc_def rw_locked_def split: if_splits)
    then show ?thesis using rdlock_loop_inv [OF inv Enter(3) _ _ _ Enter(7)] Enter(4,5) 2 by blast
  next
    case 3
    then have "wrlock_loop s = (s', w, out)" using Enter(6) m by (simp add: wrlock_def wrlockc_def rw_locked_def split: if_splits)
    then show ?thesis using wrlock_loop_inv [OF inv Enter(3) _ _ _ Enter(7)] Enter(4,5) 3 by blast
  qed
  then show ?thesis using Enter(2) by simp
next
  case (Resume i ts op ops s s' w out ts')
  have inv: "rw_inv (s, ts)" using assms(2) Resume(1) by simp
  consider "op = RdLock" | "op = WrLock"
    using rw_inv_thread [OF inv Resume(3)] Resume(4,5) by (auto simp: rw_thread_ok_def)
  then have "rw_inv (s', ts')"
  proof cases
    case 1
    then have "rdlock_loop (s\<lparr>rw_nwaitreaders := rw_nwaitreaders s - 1\<rparr>) = (s', w, out)"
      using Resume(6) by (simp add: rdlock_resume_def rdlockc_resume_def Let_def split: if_splits)
    then show ?thesis using rdlock_loop_inv [OF inv Resume(3) _ _ _ Resume(7)] Resume(4,5) 1 by blast
  next
    case 2
    then have "wrlock_loop (s\<lparr>rw_nwaitwriters := rw_nwaitwriters s - 1\<rparr>) = (s', w, out)"
      using Resume(6) by (simp add: wrlock_resume_def wrlockc_resume_def Let_def split: if_splits)
    then show ?thesis using wrlock_loop_inv [OF inv Resume(3) _ _ _ Resume(7)] Resume(4,5) 2 by blast
  qed
  then show ?thesis using Resume(2) by simp
next
  case (Spurious i ts cv s)
  have inv: "rw_inv (s, ts)" using assms(2) Spurious(1) by simp
  let ?t = "wake_if cv (ts ! i)"
  have t: "?t = (ts ! i)\<lparr>t_stat := Woken\<rparr>" using Spurious(5) by (simp add: wake_if_def)
  have live: "\<exists>u \<in> set (ts[i := ?t]). woken_writer u" if r: "rw_refcount s = 0" "0 < rw_nwaitwriters s"
  proof -
    obtain u where u: "u \<in> set ts" "woken_writer u" using inv r by (auto simp: rw_inv_def)
    then have "u \<noteq> ts ! i" using Spurious(5) by (auto simp: woken_writer_def)
    then have "u \<in> set (ts[i := ?t])" using u(1) by (metis in_set_conv_nth length_list_update nth_list_update_neq)
    then show ?thesis using u(2) by blast
  qed
  have bl: "\<forall>u \<in> set (ts[i := ?t]). t_stat u \<noteq> Blocked CondReaders" if r: "0 \<le> rw_refcount s" "rw_nwaitwriters s \<le> 0"
  proof -
    have "\<forall>u \<in> set ts. t_stat u \<noteq> Blocked CondReaders" using inv r by (auto simp: rw_inv_def)
    then show ?thesis using t set_update_subset_insert [of ts i ?t] by fastforce
  qed
  have cnt: "n_threads P (ts[i := ?t]) = n_threads P ts" if "P ?t = P (ts ! i)" for P
    using that Spurious(4) by (simp add: n_threads_update)
  have "rw_inv (s, ts[i := ?t])"
  proof (rule rw_inv_after [OF inv Spurious(4) no_wake])
    show "rw_thread_ok ?t" using rw_thread_ok_woken [OF rw_inv_thread [OF inv Spurious(4)] Spurious(5)] t by simp
    show "rw_refcount s = -1 \<and> n_writers (ts[i := ?t]) = 1 \<and> n_readers (ts[i := ?t]) = 0 \<or>
      rw_refcount s = n_readers (ts[i := ?t]) \<and> n_writers (ts[i := ?t]) = 0"
      using rw_inv_ref [OF inv] by (auto simp: cnt)
  qed (use rw_inv_magic [OF inv] live bl Spurious(5) in \<open>auto simp: t in_call_def\<close>)
  then show ?thesis using Spurious(2) by simp
qed

lemma rw_inv_start:
  assumes "\<forall>ops \<in> set progs. disciplined False ops"
  shows "rw_inv (RWLOCK_INITIALIZER, map fresh_thread progs)"
proof -
  have "n_threads P (map fresh_thread progs) = 0" if "\<And>ops. \<not> P (fresh_thread ops)" for P :: "(rw_cond, rw_op, rw_res) thread \<Rightarrow> bool"
    using that by (simp add: n_threads_zero_iff)
  then show ?thesis using assms
    by (auto simp: rw_inv_def RWLOCK_INITIALIZER_def rw_thread_ok_def fresh_thread_def)
qed

lemma rw_reach_inv:
  assumes "mon_reach sp (rw_enter c) (rw_resume c) RWLOCK_INITIALIZER progs st" "\<forall>ops \<in> set progs. disciplined False ops"
  shows "rw_inv st"
  using assms(1)
proof induction
  case start
  then show ?case using rw_inv_start [OF assms(2)] .
next
  case (step st st')
  then show ?case using rw_step_inv by blast
qed

lemma quiescent_no_holder:
  assumes "quiescent ts" "\<forall>t \<in> set ts. rw_thread_ok t"
  shows "n_readers ts = 0 \<and> n_writers ts = 0"
proof -
  have "\<not> holds_rd (t_done t) \<and> \<not> holds_wr (t_done t)" if "t \<in> set ts" for t
  proof (rule ccontr)
    assume h: "\<not> (\<not> holds_rd (t_done t) \<and> \<not> holds_wr (t_done t))"
    have ok: "rw_thread_ok t" using assms(2) that by simp
    with h obtain ops where o: "t_todo t = Unlock # ops"
      by (cases "t_todo t") (auto simp: rw_thread_ok_def split: if_splits)
    with assms(1) that obtain c where "t_stat t = Blocked c"
      by (cases "t_stat t") (auto simp: quiescent_def)
    then show False using ok o by (cases c) (auto simp: rw_thread_ok_def)
  qed
  then show ?thesis by (simp add: n_threads_zero_iff)
qed

lemma rw_no_blocked:
  assumes inv: "rw_inv (rw, ts)" and q: "quiescent ts" and t: "t \<in> set ts"
  shows "t_stat t = Running"
proof (rule ccontr)
  assume "t_stat t \<noteq> Running"
  then obtain cv where b: "t_stat t = Blocked cv" using q t by (cases "t_stat t") (auto simp: quiescent_def)
  have ok: "\<forall>t \<in> set ts. rw_thread_ok t" using inv by (simp add: rw_inv_def)
  have "rw_refcount rw = 0" using quiescent_no_holder [OF q ok] rw_inv_ref [OF inv] by auto
  moreover have "0 < rw_nwaitwriters rw"
  proof (cases cv)
    case CondReaders
    then show ?thesis using inv b t \<open>rw_refcount rw = 0\<close> by (auto simp: rw_inv_def)
  next
    case CondWriters
    then have "in_call (\<lambda>op. op = WrLock) t" using ok t b by (auto simp: in_call_def rw_thread_ok_def)
    then show ?thesis using rw_inv_waiters [OF inv] t n_threads_pos_iff [of "in_call (\<lambda>op. op = WrLock)" ts] by auto
  qed
  ultimately obtain u where "u \<in> set ts" "woken_writer u" using inv by (auto simp: rw_inv_def)
  then show False using q by (auto simp: quiescent_def woken_writer_def split: status.splits)
qed

subsection \<open>Properties\<close>

definition rw_progs :: "rw_op list list" where
  "rw_progs = [[RdLock, Unlock], [WrLock, Unlock]]"

text \<open>The first thread has the lock, the second waits for it.\<close>

lemma rw_example_reach:
  "mon_reach sp (rw_enter c) (rw_resume c) RWLOCK_INITIALIZER rw_progs
     (RWLOCK_INITIALIZER\<lparr>rw_refcount := 1, rw_nwaitwriters := 1\<rparr>,
      [\<lparr>t_stat = Running, t_done = [(RdLock, RwRet (Inr ()))], t_todo = [Unlock]\<rparr>,
       \<lparr>t_stat = Blocked CondWriters, t_done = [], t_todo = [WrLock, Unlock]\<rparr>])"
  by (rule exec_schedule_start [where sched = "[(0, 0), (1, 0)]"])
    (simp add: rw_progs_def fresh_thread_def exec_piece_def RWLOCK_INITIALIZER_def rw_defs rdlockc_def wrlockc_def)

lemma rw_example_done:
  "mon_reach sp (rw_enter c) (rw_resume c) RWLOCK_INITIALIZER rw_progs
     (RWLOCK_INITIALIZER,
      [\<lparr>t_stat = Running, t_done = [(Unlock, RwRet (Inr ())), (RdLock, RwRet (Inr ()))], t_todo = []\<rparr>,
       \<lparr>t_stat = Running, t_done = [(Unlock, RwRet (Inr ())), (WrLock, RwRet (Inr ()))], t_todo = []\<rparr>])"
  by (rule exec_schedule_start [where sched = "[(0, 0), (1, 0), (0, 1), (1, 0), (1, 0)]"])
    (simp add: rw_progs_def fresh_thread_def exec_piece_def RWLOCK_INITIALIZER_def rw_defs rdlockc_def wrlockc_def
      unlockc_def wrlockc_resume_def wake_if_def)

text \<open>
  C6. Read-write locks exclude, in both variants, for any number of threads that lock and unlock in
  turn and any interleaving with spurious wake-ups: a writer holds the lock alone,
  \<open>rw_refcount\<close> is -1 then and the number of readers otherwise, the counters of waiting threads
  count them, and every finished call has succeeded (no \<^verbatim>\<open>err_dump\<close>).
\<close>

theorem rwlock_excludes:
  assumes "mon_reach sp (rw_enter c) (rw_resume c) RWLOCK_INITIALIZER progs (rw, ts)"
    and "\<forall>ops \<in> set progs. disciplined False ops"
  shows "(n_writers ts = 0 \<or> n_writers ts = 1 \<and> n_readers ts = 0) \<and>
    rw_refcount rw = (if n_writers ts = 1 then -1 else n_readers ts) \<and>
    rw_nwaitreaders rw = n_in_call (\<lambda>op. op = RdLock) ts \<and> rw_nwaitwriters rw = n_in_call (\<lambda>op. op = WrLock) ts \<and>
    (\<forall>t \<in> set ts. \<forall>d \<in> set (t_done t). snd d = RwRet (Inr ()))"
  using rw_reach_inv [OF assms] rw_inv_ref [OF rw_reach_inv [OF assms]]
  by (auto simp: rw_inv_def rw_thread_ok_def)

theorem rwlock_excludes_witness:
  "\<exists>rw ts. mon_reach True (rw_enter False) (rw_resume False) RWLOCK_INITIALIZER rw_progs (rw, ts) \<and>
     rw_refcount rw = 1 \<and> n_readers ts = 1 \<and> n_writers ts = 0"
proof -
  have d: "\<forall>ops \<in> set rw_progs. disciplined False ops" by (simp add: rw_progs_def)
  obtain rw ts where r: "mon_reach True (rw_enter False) (rw_resume False) RWLOCK_INITIALIZER rw_progs (rw, ts)"
    "rw_refcount rw = 1" using rw_example_reach [of True False] by force
  then have "n_writers ts = 0 \<and> n_readers ts = 1" using rwlock_excludes [OF r(1) d] by (auto split: if_splits)
  with r show ?thesis by blast
qed

text \<open>
  C27. Read-write locks do not deadlock and lose no wake-up, in both variants: when threads that lock
  and unlock in turn can no longer take a step, all of them have finished and the lock is free.
\<close>

theorem rwlock_deadlock_free:
  assumes "mon_reach sp (rw_enter c) (rw_resume c) RWLOCK_INITIALIZER progs (rw, ts)"
    and "\<forall>ops \<in> set progs. disciplined False ops" "quiescent ts"
  shows "(\<forall>t \<in> set ts. t_todo t = []) \<and> rw_refcount rw = 0"
proof -
  have inv: "rw_inv (rw, ts)" by (rule rw_reach_inv [OF assms(1,2)])
  have ok: "\<forall>t \<in> set ts. rw_thread_ok t" using inv by (simp add: rw_inv_def)
  have "rw_refcount rw = 0" using quiescent_no_holder [OF assms(3) ok] rw_inv_ref [OF inv] by auto
  moreover have "t_todo t = []" if "t \<in> set ts" for t
    using rw_no_blocked [OF inv assms(3) that] assms(3) that by (auto simp: quiescent_def)
  ultimately show ?thesis by blast
qed

theorem rwlock_deadlock_free_witness:
  "\<exists>rw ts. mon_reach False (rw_enter True) (rw_resume True) RWLOCK_INITIALIZER rw_progs (rw, ts) \<and>
     (\<forall>t \<in> set ts. t_todo t = []) \<and> rw_refcount rw = 0"
proof -
  have d: "\<forall>ops \<in> set rw_progs. disciplined False ops" by (simp add: rw_progs_def)
  obtain rw ts where r: "mon_reach False (rw_enter True) (rw_resume True) RWLOCK_INITIALIZER rw_progs (rw, ts)"
    "quiescent ts" using rw_example_done [of False True] by (force simp: quiescent_def)
  then show ?thesis using rwlock_deadlock_free [OF r(1) d r(2)] by blast
qed

text \<open>
  In the variant with cancellation \<open>wrlock\<close> can return success without the lock: on a free lock
  when \<^verbatim>\<open>pthread_mutex_lock\<close> fails (its error is compared with -1), and after any failure
  of \<^verbatim>\<open>pthread_cond_wait\<close>; in the other variant both return the error.
\<close>

theorem wrlockc_success_without_lock:
  assumes "rw_magic rw = RW_MAGIC" "rw_refcount rw = 0"
  shows "wrlockc (Some e) rw = (rw, NoWake, Return (RwRet (Inr ()))) \<and>
    wrlockc_resume (Some e) rw = (rwlock_cancelwrwait rw, NoWake, Return (RwRet (Inr ()))) \<and>
    wrlock (Some e) rw = (rw, NoWake, Return (RwRet (Inl e))) \<and>
    wrlock_resume (Some e) rw = (rwlock_cancelwrwait rw, NoWake, Return (RwRet (Inl e)))"
  using assms by (simp add: wrlockc_def wrlockc_loop_def wrlockc_resume_def rwlock_cancelwrwait_def rw_defs Let_def)

theorem wrlockc_success_without_lock_witness:
  "wrlockc (Some EINVAL) RWLOCK_INITIALIZER = (RWLOCK_INITIALIZER, NoWake, Return (RwRet (Inr ())))"
  using wrlockc_success_without_lock [of RWLOCK_INITIALIZER EINVAL] by (simp add: RWLOCK_INITIALIZER_def)

end
