(* ===== verification/SemFifo.thy ===== *)
theory SemFifo
  imports Posix SemSpec
begin

text \<open>
  POSIX semaphores over a FIFO, \<^verbatim>\<open>src/unixipc/my_pxsem_fifo\<close>: the value is the number of bytes in the
  FIFO; \<^verbatim>\<open>mysem_wait\<close> reads a byte (blocking), \<^verbatim>\<open>mysem_post\<close> writes one (without blocking).
  Of a FIFO the model uses that bytes are read in the order they were written, that a blocking read
  of an empty FIFO with a writer waits, and that a non-blocking write to a full one fails with
  \<^verbatim>\<open>EAGAIN\<close>; \<open>cap\<close> is the capacity of the FIFO.
\<close>

subsection \<open>Data, wait and post\<close>

record fifosem =
  fs_fd0 :: int
  fs_fd1 :: int
  fs_magic :: int

definition FIFOSEM_MAGIC :: int where
  "FIFOSEM_MAGIC = 0x89674523"

datatype fifo_call = FifoRet "int res" | FifoBlock

text \<open>\<open>intr\<close>: the read is interrupted by a signal.\<close>

definition fifosem_wait :: "bool \<Rightarrow> fifosem \<Rightarrow> byte list \<Rightarrow> byte list \<times> fifo_call" where
  "fifosem_wait intr sem q =
     (if fs_magic sem \<noteq> FIFOSEM_MAGIC then (q, FifoRet (Inl EINVAL))
      else if intr then (q, FifoRet (Inl EINTR))
      else case q of [] \<Rightarrow> (q, FifoBlock) | c # q' \<Rightarrow> (q', FifoRet (Inr 0)))"

definition fifosem_post :: "nat \<Rightarrow> byte \<Rightarrow> fifosem \<Rightarrow> byte list \<Rightarrow> byte list \<times> fifo_call" where
  "fifosem_post cap c sem q =
     (if fs_magic sem \<noteq> FIFOSEM_MAGIC then (q, FifoRet (Inl EINVAL))
      else if length q < cap then (q @ [c], FifoRet (Inr 0))
      else (q, FifoRet (Inl EAGAIN)))"

definition fifosem_handle :: fifosem where
  "fifosem_handle = \<lparr>fs_fd0 = 3, fs_fd1 = 4, fs_magic = FIFOSEM_MAGIC\<rparr>"

definition fifo_wait_opt :: "byte list \<Rightarrow> byte list option" where
  "fifo_wait_opt q = (case fifosem_wait False fifosem_handle q of (q', FifoRet (Inr _)) \<Rightarrow> Some q' | _ \<Rightarrow> None)"

definition fifo_post_state :: "nat \<Rightarrow> byte list \<Rightarrow> byte list" where
  "fifo_post_state cap q = fst (fifosem_post cap 0 fifosem_handle q)"

interpretation fifosem: semaphore "\<lambda>q. length q \<le> cap" length cap fifo_wait_opt "fifo_post_state cap" for cap
proof (unfold_locales, goal_cases)
  case (1 q)
  then show ?case by (simp add: fifo_wait_opt_def fifosem_wait_def fifosem_handle_def)
next
  case (2 q)
  then show ?case by (cases q) (simp_all add: fifo_wait_opt_def fifosem_wait_def fifosem_handle_def)
next
  case (3 q)
  then show ?case by (simp add: fifo_post_state_def fifosem_post_def fifosem_handle_def)
qed

subsection \<open>open, close and unlink\<close>

text \<open>A successful open returns the address of the structure and the structure.\<close>

type_synonym fifosem_opened = "int \<times> fifosem"

definition fifosem_open_error ::
  "env \<Rightarrow> string \<Rightarrow> int \<Rightarrow> int \<Rightarrow> int \<Rightarrow> int \<Rightarrow> fail \<Rightarrow> trace \<Rightarrow> (fail + fifosem_opened) \<times> trace" where
  "fifosem_open_error env path oflag p fd0 fd1 e h =
     (let h = (if has_flag oflag O_CREAT then sys_void env (SysUnlink path) h else h);
          h = sys_void env (SysClose fd0) h;
          h = sys_void env (SysClose fd1) h
      in (Inl e, sys_void env (SysFree p) h))"

text \<open>The loop that writes the initial value, one byte per unit.\<close>

fun fifosem_fill :: "env \<Rightarrow> int \<Rightarrow> nat \<Rightarrow> trace \<Rightarrow> fail option \<times> trace" where
  "fifosem_fill env fd 0 h = (None, h)"
| "fifosem_fill env fd (Suc n) h =
     (case sys env (SysWrite fd 1) h of
        (Inr k, h) \<Rightarrow> if k = 1 then fifosem_fill env fd n h else (Some None, h)
      | (Inl e, h) \<Rightarrow> (Some (Some e), h))"

text \<open>The part after the FIFO exists, with \<open>O_CREAT\<close> cleared from \<open>oflag\<close> if it was there before.\<close>

definition fifosem_open_body ::
  "env \<Rightarrow> string \<Rightarrow> int \<Rightarrow> u32 \<Rightarrow> trace \<Rightarrow> (fail + fifosem_opened) \<times> trace" where
  "fifosem_open_body env path oflag v h =
     (case sys env SysMalloc h of (Inl e, h) \<Rightarrow> (Inl (Some e), h) | (Inr p, h) \<Rightarrow>
      case sys env (SysOpen path O_NONBLOCK 0) h of
        (Inl e, h) \<Rightarrow> fifosem_open_error env path oflag p (-1) (-1) (Some e) h
      | (Inr fd0, h) \<Rightarrow>
      case sys env (SysOpen path (1 OR O_NONBLOCK) 0) h of
        (Inl e, h) \<Rightarrow> fifosem_open_error env path oflag p fd0 (-1) (Some e) h
      | (Inr fd1, h) \<Rightarrow>
      case sys env (SysGetfl fd0) h of
        (Inl e, h) \<Rightarrow> fifosem_open_error env path oflag p fd0 fd1 (Some e) h
      | (Inr flags, h) \<Rightarrow>
      case sys env (SysSetfl fd0 (flags AND NOT O_NONBLOCK)) h of
        (Inl e, h) \<Rightarrow> fifosem_open_error env path oflag p fd0 fd1 (Some e) h
      | (Inr _, h) \<Rightarrow>
      case (if has_flag oflag O_CREAT then fifosem_fill env fd1 (unat v) h else (None, h)) of
        (Some e, h) \<Rightarrow> fifosem_open_error env path oflag p fd0 fd1 e h
      | (None, h) \<Rightarrow> (Inr (p, \<lparr>fs_fd0 = fd0, fs_fd1 = fd1, fs_magic = FIFOSEM_MAGIC\<rparr>), h))"

definition fifosem_open ::
  "env \<Rightarrow> string \<Rightarrow> int \<Rightarrow> int \<Rightarrow> u32 \<Rightarrow> trace \<Rightarrow> (fail + fifosem_opened) \<times> trace" where
  "fifosem_open env path oflag mode v h =
     (if has_flag oflag O_CREAT then
        (case sys env (SysMkfifo path mode) h of
           (Inl e, h) \<Rightarrow>
             if e = EEXIST \<and> \<not> has_flag oflag O_EXCL
             then fifosem_open_body env path (oflag AND NOT O_CREAT) v h
             else (Inl (Some e), h)
         | (Inr _, h) \<Rightarrow> fifosem_open_body env path oflag v h)
      else fifosem_open_body env path oflag v h)"

text \<open>\<^verbatim>\<open>||\<close>: the second descriptor is closed only if closing the first succeeds.\<close>

definition fifosem_close :: "env \<Rightarrow> int \<Rightarrow> fifosem \<Rightarrow> trace \<Rightarrow> int res \<times> fifosem \<times> trace" where
  "fifosem_close env p sem h =
     (if fs_magic sem \<noteq> FIFOSEM_MAGIC then (Inl EINVAL, sem, h)
      else let sem = sem\<lparr>fs_magic := 0\<rparr> in
        case sys env (SysClose (fs_fd0 sem)) h of
          (Inl e, h) \<Rightarrow> (Inl e, sem, sys_void env (SysFree p) h)
        | (Inr _, h) \<Rightarrow>
            (case sys env (SysClose (fs_fd1 sem)) h of
               (Inl e, h) \<Rightarrow> (Inl e, sem, sys_void env (SysFree p) h)
             | (Inr _, h) \<Rightarrow> (Inr 0, sem, sys_void env (SysFree p) h)))"

definition fifosem_unlink :: "env \<Rightarrow> string \<Rightarrow> trace \<Rightarrow> int res \<times> trace" where
  "fifosem_unlink env path h = sys env (SysUnlink path) h"

subsection \<open>Resources\<close>

text \<open>Bytes written to a descriptor.\<close>

fun written :: "int \<Rightarrow> trace \<Rightarrow> nat" where
  "written fd ((SysWrite fd' n, Inr k) # h) = (if fd' = fd then nat k + written fd h else written fd h)"
| "written fd (x # h) = written fd h"
| "written fd [] = 0"

lemma fifosem_fill_eq:
  "fifosem_fill env fd n h = (r, h') \<Longrightarrow> opened h' = opened h \<and> closed h' = closed h \<and>
     allocated h' = allocated h \<and> freed h' = freed h \<and> (r = None \<longrightarrow> written fd h' = n + written fd h)"
  by (induction n arbitrary: h) (auto simp: sys_def split: sum.splits if_splits)

lemma fifosem_open_error_simps [simp]:
  "fst (fifosem_open_error env path oflag p fd0 fd1 e h) = Inl e"
  "opened (snd (fifosem_open_error env path oflag p fd0 fd1 e h)) = opened h"
  "closed (snd (fifosem_open_error env path oflag p fd0 fd1 e h)) =
     (if 0 \<le> fd1 then {#fd1#} else {#}) + (if 0 \<le> fd0 then {#fd0#} else {#}) + closed h"
  "allocated (snd (fifosem_open_error env path oflag p fd0 fd1 e h)) = allocated h"
  "freed (snd (fifosem_open_error env path oflag p fd0 fd1 e h)) = add_mset p (freed h)"
  by (auto simp: fifosem_open_error_def sys_void_def sys_def Let_def)

text \<open>The outcome of an open that started with nothing open; \<open>n\<close> is the initial value written.\<close>

definition fifo_open_ok :: "nat \<Rightarrow> (fail + fifosem_opened) \<times> trace \<Rightarrow> bool" where
  "fifo_open_ok n out = (case fst out of
     Inl e \<Rightarrow> opened (snd out) = closed (snd out) \<and> allocated (snd out) = freed (snd out)
   | Inr (p, sem) \<Rightarrow> opened (snd out) = {#fs_fd0 sem, fs_fd1 sem#} \<and> closed (snd out) = {#} \<and>
       allocated (snd out) = {#p#} \<and> freed (snd out) = {#} \<and> fs_magic sem = FIFOSEM_MAGIC \<and>
       written (fs_fd1 sem) (snd out) = n)"

lemma fifosem_open_body_ok:
  assumes env: "env_ok env"
    and h: "opened h = {#}" "closed h = {#}" "allocated h = {#}" "freed h = {#}" "\<And>fd. written fd h = 0"
  shows "fifo_open_ok (if has_flag oflag O_CREAT then unat v else 0) (fifosem_open_body env path oflag v h)"
proof (cases "env h SysMalloc")
  case (Inl e)
  then show ?thesis using h by (simp add: fifosem_open_body_def sys_def fifo_open_ok_def)
next
  case p: (Inr p)
  let ?h1 = "(SysMalloc, Inr p) # h"
  let ?o0 = "SysOpen path O_NONBLOCK 0" and ?o1 = "SysOpen path (1 OR O_NONBLOCK) 0"
  show ?thesis
  proof (cases "env ?h1 ?o0")
    case (Inl e)
    then show ?thesis using p h by (simp add: fifosem_open_body_def sys_def fifo_open_ok_def)
  next
    case fd0: (Inr fd0)
    let ?h2 = "(?o0, Inr fd0) # ?h1"
    have pos0: "0 \<le> fd0" using env_okD [OF env fd0] .
    show ?thesis
    proof (cases "env ?h2 ?o1")
      case (Inl e)
      then show ?thesis using p fd0 pos0 h by (simp add: fifosem_open_body_def sys_def fifo_open_ok_def)
    next
      case fd1: (Inr fd1)
      let ?h3 = "(?o1, Inr fd1) # ?h2"
      have pos1: "0 \<le> fd1" using env_okD [OF env fd1] .
      have err: "fifo_open_ok n (fifosem_open_error env path oflag p fd0 fd1 e h')"
        if "opened h' = {#fd1, fd0#}" "closed h' = {#}" "allocated h' = {#p#}" "freed h' = {#}" for h' e n
        using that pos0 pos1 by (simp add: fifo_open_ok_def add_mset_commute)
      show ?thesis
      proof (cases "env ?h3 (SysGetfl fd0)")
        case (Inl e)
        then show ?thesis using p fd0 fd1 h err by (simp add: fifosem_open_body_def sys_def)
      next
        case fl: (Inr fl)
        let ?h4 = "(SysGetfl fd0, Inr fl) # ?h3" and ?s = "SysSetfl fd0 (fl AND NOT O_NONBLOCK)"
        show ?thesis
        proof (cases "env ?h4 ?s")
          case (Inl e)
          then show ?thesis using p fd0 fd1 fl h err by (simp add: fifosem_open_body_def sys_def)
        next
          case fs: (Inr k)
          let ?h5 = "(?s, Inr k) # ?h4"
          obtain r h6 where f: "(if has_flag oflag O_CREAT then fifosem_fill env fd1 (unat v) ?h5 else (None, ?h5)) = (r, h6)"
            by fastforce
          then have h6: "opened h6 = {#fd1, fd0#}" "closed h6 = {#}" "allocated h6 = {#p#}" "freed h6 = {#}"
            "r = None \<Longrightarrow> written fd1 h6 = (if has_flag oflag O_CREAT then unat v else 0)"
            using h by (auto dest!: fifosem_fill_eq split: if_splits)
          have "fifosem_open_body env path oflag v h = (case r of Some e \<Rightarrow> fifosem_open_error env path oflag p fd0 fd1 e h6
              | None \<Rightarrow> (Inr (p, \<lparr>fs_fd0 = fd0, fs_fd1 = fd1, fs_magic = FIFOSEM_MAGIC\<rparr>), h6))"
            using p fd0 fd1 fl fs f by (simp add: fifosem_open_body_def sys_def split: option.split)
          then show ?thesis using err [OF h6(1-4)] h6 by (cases r) (simp_all add: fifo_open_ok_def add_mset_commute)
        qed
      qed
    qed
  qed
qed

lemma has_flag_cleared: "\<not> has_flag (x AND NOT b) b"
proof -
  have "(x AND NOT b) AND b = 0" by (auto simp: bit_eq_iff bit_and_iff bit_not_iff)
  then show ?thesis by (simp add: has_flag_def)
qed

subsection \<open>Properties\<close>

definition fifo_env :: env where
  "fifo_env h c =
     (case c of SysOpen p f m \<Rightarrow> Inr (if f = O_NONBLOCK then 3 else 4) | SysWrite fd n \<Rightarrow> Inr n | SysMalloc \<Rightarrow> Inr 16 | _ \<Rightarrow> Inr 0)"

lemma fifo_env_ok: "env_ok fifo_env"
  by (auto simp: env_ok_def fifo_env_def split: if_splits)

text \<open>
  Opening a FIFO semaphore leaks nothing: after a failure both descriptors are closed and the
  structure is freed; after a success exactly the two descriptors of the result and the structure are
  held, and the FIFO has received the initial value, one byte per unit, iff this call created it.
\<close>

theorem fifosem_open_resources:
  assumes "env_ok env" "fifosem_open env path oflag mode v [] = (r, h)"
  shows "case r of
     Inl e \<Rightarrow> opened h = closed h \<and> allocated h = freed h
   | Inr (p, sem) \<Rightarrow> opened h = {#fs_fd0 sem, fs_fd1 sem#} \<and> closed h = {#} \<and> allocated h = {#p#} \<and> freed h = {#} \<and>
       fs_magic sem = FIFOSEM_MAGIC \<and>
       written (fs_fd1 sem) h =
         (if has_flag oflag O_CREAT \<and> (\<exists>k. env [] (SysMkfifo path mode) = Inr k) then unat v else 0)"
proof -
  note body = fifosem_open_body_ok [OF assms(1)]
  have "fifo_open_ok (if has_flag oflag O_CREAT \<and> (\<exists>k. env [] (SysMkfifo path mode) = Inr k) then unat v else 0) (r, h)"
  proof (cases "has_flag oflag O_CREAT")
    case False
    then show ?thesis using body [of "[]" oflag v path] assms(2) by (simp add: fifosem_open_def)
  next
    case True
    show ?thesis
    proof (cases "env [] (SysMkfifo path mode)")
      case (Inr k)
      then show ?thesis using True assms(2) body [of "[(SysMkfifo path mode, Inr k)]" oflag v path]
        by (simp add: fifosem_open_def sys_def)
    next
      case (Inl e)
      have "fifo_open_ok 0 (fifosem_open_body env path (oflag AND NOT O_CREAT) v [(SysMkfifo path mode, Inl e)])"
        using body [of "[(SysMkfifo path mode, Inl e)]" "oflag AND NOT O_CREAT" v path] by (simp add: has_flag_cleared)
      moreover have "fifo_open_ok 0 (Inl (Some e), [(SysMkfifo path mode, Inl e)])" by (simp add: fifo_open_ok_def)
      moreover have "(r, h) = fifosem_open_body env path (oflag AND NOT O_CREAT) v [(SysMkfifo path mode, Inl e)] \<or>
          (r, h) = (Inl (Some e), [(SysMkfifo path mode, Inl e)])"
        using True Inl assms(2) by (auto simp: fifosem_open_def sys_def split: if_splits)
      ultimately show ?thesis using Inl by auto
    qed
  qed
  then show ?thesis by (cases r) (auto simp: fifo_open_ok_def)
qed

theorem fifosem_open_resources_witness:
  "\<exists>sem h. fifosem_open fifo_env ''/s'' O_CREAT 0x1A4 2 [] = (Inr (16, sem), h) \<and>
     opened h = {#3, 4#} \<and> written 4 h = 2"
proof -
  obtain h where h: "fifosem_open fifo_env ''/s'' O_CREAT 0x1A4 2 [] =
      (Inr (16, \<lparr>fs_fd0 = 3, fs_fd1 = 4, fs_magic = FIFOSEM_MAGIC\<rparr>), h)"
  proof -
    have "fst (fifosem_open fifo_env ''/s'' O_CREAT 0x1A4 2 []) =
        Inr (16, \<lparr>fs_fd0 = 3, fs_fd1 = 4, fs_magic = FIFOSEM_MAGIC\<rparr>)" by code_simp
    then show ?thesis using that by (metis prod.collapse)
  qed
  have "has_flag O_CREAT O_CREAT" "fifo_env [] (SysMkfifo ''/s'' 0x1A4) = Inr 0"
    by (simp_all add: has_flag_def O_CREAT_def fifo_env_def)
  then show ?thesis using fifosem_open_resources [OF fifo_env_ok h] h by simp
qed

end
