(* ===== verification/SemSvsem.thy ===== *)
theory SemSvsem
  imports Posix SemSpec
begin

text \<open>
  POSIX semaphores over System V semaphores, \<^verbatim>\<open>src/unixipc/my_pxsem_svsem\<close>. Of the System V
  semaphore the model uses the documented behaviour of \<^verbatim>\<open>semop\<close> with one operation on one
  semaphore: a positive amount is added unless the value would exceed \<^verbatim>\<open>SEMVMX\<close>, a negative one is
  subtracted if the value is large enough and otherwise waits, or fails with
  \<^verbatim>\<open>IPC_NOWAIT\<close>.
\<close>

subsection \<open>Data, wait, post, trywait, getvalue\<close>

record svsem =
  sv_semid :: int
  sv_magic :: int

definition SVSEM_MAGIC :: int where
  "SVSEM_MAGIC = 0x45678923"

definition SEMVMX :: nat where
  "SEMVMX = 32767"

datatype sv_call = SvRet "int res" | SvBlock

definition semop1 :: "int \<Rightarrow> bool \<Rightarrow> nat \<Rightarrow> nat \<times> sv_call" where
  "semop1 d nowait v =
     (if 0 \<le> d then (if v + nat d \<le> SEMVMX then (v + nat d, SvRet (Inr 0)) else (v, SvRet (Inl ERANGE)))
      else if nat (- d) \<le> v then (v - nat (- d), SvRet (Inr 0))
      else (v, if nowait then SvRet (Inl EAGAIN) else SvBlock))"

definition sv_checked :: "(nat \<Rightarrow> nat \<times> sv_call) \<Rightarrow> svsem \<Rightarrow> nat \<Rightarrow> nat \<times> sv_call" where
  "sv_checked f sem v = (if sv_magic sem \<noteq> SVSEM_MAGIC then (v, SvRet (Inl EINVAL)) else f v)"

definition svsem_wait :: "svsem \<Rightarrow> nat \<Rightarrow> nat \<times> sv_call" where
  "svsem_wait = sv_checked (semop1 (-1) False)"

definition svsem_post :: "svsem \<Rightarrow> nat \<Rightarrow> nat \<times> sv_call" where
  "svsem_post = sv_checked (semop1 1 False)"

definition svsem_trywait :: "svsem \<Rightarrow> nat \<Rightarrow> nat \<times> sv_call" where
  "svsem_trywait = sv_checked (semop1 (-1) True)"

definition svsem_getvalue :: "svsem \<Rightarrow> nat \<Rightarrow> nat \<times> sv_call" where
  "svsem_getvalue = sv_checked (\<lambda>v. (v, SvRet (Inr (int v))))"

definition svsem_close :: "svsem \<Rightarrow> svsem \<times> int res" where
  "svsem_close sem =
     (if sv_magic sem \<noteq> SVSEM_MAGIC then (sem, Inl EINVAL) else (sem\<lparr>sv_magic := 0\<rparr>, Inr 0))"

lemmas svsem_defs = semop1_def sv_checked_def svsem_wait_def svsem_post_def svsem_trywait_def svsem_getvalue_def

definition svsem_handle :: svsem where
  "svsem_handle = \<lparr>sv_semid = 0, sv_magic = SVSEM_MAGIC\<rparr>"

definition sv_wait_opt :: "nat \<Rightarrow> nat option" where
  "sv_wait_opt v = (case svsem_wait svsem_handle v of (v', SvRet (Inr _)) \<Rightarrow> Some v' | _ \<Rightarrow> None)"

definition sv_post_state :: "nat \<Rightarrow> nat" where
  "sv_post_state v = fst (svsem_post svsem_handle v)"

interpretation svsem: semaphore "\<lambda>v. v \<le> SEMVMX" "\<lambda>v. v" SEMVMX sv_wait_opt sv_post_state
  by unfold_locales (auto simp: sv_wait_opt_def sv_post_state_def svsem_defs svsem_handle_def)

subsection \<open>open and unlink\<close>

definition SVSEM_MODE :: int where
  "SVSEM_MODE = 0x1A4"

definition IPC_CREAT :: int where
  "IPC_CREAT = 0x200"

definition IPC_EXCL :: int where
  "IPC_EXCL = 0x400"

type_synonym svsem_opened = "svsem"

text \<open>Label \<open>err\<close>.\<close>

definition svsem_open_err :: "env \<Rightarrow> int \<Rightarrow> fail \<Rightarrow> trace \<Rightarrow> (fail + svsem_opened) \<times> trace" where
  "svsem_open_err env semid e h =
     (Inl e, if semid \<noteq> -1 then sys_void env (SysSemctl semid ''IPC_RMID'' 0) h else h)"

text \<open>Label \<open>finish\<close>.\<close>

definition svsem_open_finish :: "env \<Rightarrow> int \<Rightarrow> trace \<Rightarrow> (fail + svsem_opened) \<times> trace" where
  "svsem_open_finish env semid h =
     (case sys env SysMalloc h of
        (Inl e, h) \<Rightarrow> svsem_open_err env semid (Some e) h
      | (Inr _, h) \<Rightarrow> (Inr \<lparr>sv_semid = semid, sv_magic = SVSEM_MAGIC\<rparr>, h))"

text \<open>The wait for the creator: \<^verbatim>\<open>IPC_STAT\<close> reports \<open>sem_otime\<close>, which is not 0 once initialised.\<close>

fun svsem_open_wait :: "nat \<Rightarrow> env \<Rightarrow> int \<Rightarrow> trace \<Rightarrow> (fail + svsem_opened) \<times> trace" where
  "svsem_open_wait 0 env semid h = svsem_open_err env semid (Some ETIMEDOUT) h"
| "svsem_open_wait (Suc n) env semid h =
     (case sys env (SysSemctl semid ''IPC_STAT'' 0) h of
        (Inl e, h) \<Rightarrow> svsem_open_err env semid (Some e) h
      | (Inr otime, h) \<Rightarrow>
          if otime \<noteq> 0 then svsem_open_finish env semid h
          else svsem_open_wait n env semid (sys_void env (SysSleep 1) h))"

text \<open>Opening a semaphore that exists.\<close>

definition svsem_open_existing :: "env \<Rightarrow> string \<Rightarrow> int \<Rightarrow> trace \<Rightarrow> (fail + svsem_opened) \<times> trace" where
  "svsem_open_existing env path semflag h =
     (case sys env (SysFtok path) h of
        (Inl e, h) \<Rightarrow> svsem_open_err env (-1) (Some e) h
      | (Inr key, h) \<Rightarrow>
          (case sys env (SysSemget key 0 semflag) h of
             (Inl e, h) \<Rightarrow> svsem_open_err env (-1) (Some e) h
           | (Inr semid, h) \<Rightarrow> svsem_open_wait MAX_TRIES env semid h))"

text \<open>The creator's part, with the new semaphore \<open>semid\<close>.\<close>

definition svsem_open_create :: "env \<Rightarrow> u32 \<Rightarrow> int \<Rightarrow> trace \<Rightarrow> (fail + svsem_opened) \<times> trace" where
  "svsem_open_create env v semid h =
     (case sys env (SysSemctl semid ''SETVAL'' 0) h of
        (Inl e, h) \<Rightarrow> svsem_open_err env semid (Some e) h
      | (Inr _, h) \<Rightarrow>
          if unat v > SEMVMX then svsem_open_err env semid (Some EINVAL) h
          else (case sys env (SysSemop semid (uint v) 0) h of
                  (Inl e, h) \<Rightarrow> svsem_open_err env semid (Some e) h
                | (Inr _, h) \<Rightarrow> svsem_open_finish env semid h))"

definition svsem_open ::
  "env \<Rightarrow> string \<Rightarrow> int \<Rightarrow> int \<Rightarrow> u32 \<Rightarrow> trace \<Rightarrow> (fail + svsem_opened) \<times> trace" where
  "svsem_open env path oflag mode v h =
     (if has_flag oflag O_CREAT then
        (case sys env (SysOpen path oflag mode) h of
           (Inl e, h) \<Rightarrow> (Inl (Some e), h)
         | (Inr fd, h) \<Rightarrow>
             (case sys env (SysFtok path) (sys_void env (SysClose fd) h) of
                (Inl e, h) \<Rightarrow> (Inl (Some e), h)
              | (Inr key, h) \<Rightarrow>
                  (let semflag = (IPC_CREAT OR (mode AND 0x1FF)) OR (if has_flag oflag O_EXCL then IPC_EXCL else 0) in
                   case sys env (SysSemget key 1 (semflag OR IPC_EXCL)) h of
                     (Inr semid, h) \<Rightarrow> svsem_open_create env v semid h
                   | (Inl e, h) \<Rightarrow>
                       if e \<noteq> EEXIST \<or> has_flag semflag IPC_EXCL then svsem_open_err env (-1) (Some e) h
                       else svsem_open_existing env path semflag h)))
      else svsem_open_existing env path SVSEM_MODE h)"

definition svsem_unlink :: "env \<Rightarrow> string \<Rightarrow> trace \<Rightarrow> int res \<times> trace" where
  "svsem_unlink env path h =
     (case sys env (SysFtok path) h of (Inl e, h) \<Rightarrow> (Inl e, h) | (Inr key, h) \<Rightarrow>
      case sys env (SysUnlink path) h of (Inl e, h) \<Rightarrow> (Inl e, h) | (Inr _, h) \<Rightarrow>
      case sys env (SysSemget key 1 SVSEM_MODE) h of (Inl e, h) \<Rightarrow> (Inl e, h) | (Inr semid, h) \<Rightarrow>
      case sys env (SysSemctl semid ''IPC_RMID'' 0) h of (Inl e, h) \<Rightarrow> (Inl e, h) | (Inr _, h) \<Rightarrow> (Inr 0, h))"

subsection \<open>Properties\<close>

definition rmid :: "int \<Rightarrow> syscall" where
  "rmid semid = SysSemctl semid ''IPC_RMID'' 0"

lemma svsem_open_wait_timeout:
  assumes "\<And>h. env h (SysSemctl semid ''IPC_STAT'' 0) = Inr 0" "semid \<noteq> -1"
  shows "\<exists>h' r. svsem_open_wait n env semid h = (Inl (Some ETIMEDOUT), (rmid semid, r) # h')"
  by (induction n arbitrary: h) (simp_all add: assms sys_def sys_void_def svsem_open_err_def rmid_def)

text \<open>
  Opening an existing System V semaphore can destroy it: without \<^verbatim>\<open>O_CREAT\<close>, when the semaphore exists but
  its creator has not initialised it within the ten tries, \<open>mysem_open\<close> fails with
  \<^verbatim>\<open>ETIMEDOUT\<close> and its last call removes the semaphore, which this process did not create.
\<close>

theorem svsem_open_removes_existing:
  assumes "\<not> has_flag oflag O_CREAT" "\<And>h. env h (SysFtok path) = Inr key"
    and "\<And>h fl. env h (SysSemget key 0 fl) = Inr semid" "semid \<noteq> -1"
    and "\<And>h. env h (SysSemctl semid ''IPC_STAT'' 0) = Inr 0"
  shows "\<exists>h' r. svsem_open env path oflag mode v h = (Inl (Some ETIMEDOUT), (rmid semid, r) # h')"
  using assms svsem_open_wait_timeout [of env semid, OF assms(5,4)]
  by (simp add: svsem_open_def svsem_open_existing_def sys_def)

definition slow_env :: env where
  "slow_env h c = (case c of SysFtok p \<Rightarrow> Inr 5 | SysSemget k n fl \<Rightarrow> Inr 7 | _ \<Rightarrow> Inr 0)"

theorem svsem_open_removes_existing_witness:
  "\<exists>h' r. svsem_open slow_env ''/s'' 0 0 0 [] = (Inl (Some ETIMEDOUT), (rmid 7, r) # h')"
  by (rule svsem_open_removes_existing [where key = 5]) (simp_all add: slow_env_def has_flag_def)

end
