(* ===== verification/Threads.thy ===== *)
theory Threads
  imports Prelude
begin

text \<open>
  Systems of two kinds of threads, producers and consumers, that step over shared data: their
  interleavings, runs of a schedule, configurations in which nobody can step, weights summed over
  a list of threads, and the locale \<open>draining\<close> of step relations that keep an invariant and use up a measure.
\<close>

subsection \<open>Interleavings\<close>

text \<open>
  A thread program maps a thread and the shared data to their next values, or to \<open>None\<close> when the
  thread is blocked in a wait or has returned.
\<close>

type_synonym ('t, 's) prog = "'t \<Rightarrow> 's \<Rightarrow> ('t \<times> 's) option"

inductive sys_step :: "('p, 's) prog \<Rightarrow> ('c, 's) prog \<Rightarrow>
    's \<times> 'p list \<times> 'c list \<Rightarrow> 's \<times> 'p list \<times> 'c list \<Rightarrow> bool" for P C where
  producer: "i < length ps \<Longrightarrow> P (ps ! i) s = Some (t, s') \<Longrightarrow> sys_step P C (s, ps, cs) (s', ps[i := t], cs)"
| consumer: "i < length cs \<Longrightarrow> C (cs ! i) s = Some (t, s') \<Longrightarrow> sys_step P C (s, ps, cs) (s', ps, cs[i := t])"

inductive_cases sys_stepE: "sys_step P C (s, ps, cs) cfg"

text \<open>Running a schedule: \<open>Inl i\<close> lets producer \<open>i\<close> step, \<open>Inr i\<close> consumer \<open>i\<close>.\<close>

fun run_sys :: "('p, 's) prog \<Rightarrow> ('c, 's) prog \<Rightarrow> (nat + nat) list \<Rightarrow>
    's \<times> 'p list \<times> 'c list \<Rightarrow> ('s \<times> 'p list \<times> 'c list) option" where
  "run_sys P C [] cfg = Some cfg"
| "run_sys P C (Inl i # sch) (s, ps, cs) =
     (if i < length ps then (case P (ps ! i) s of None \<Rightarrow> None | Some (t, s') \<Rightarrow> run_sys P C sch (s', ps[i := t], cs)) else None)"
| "run_sys P C (Inr i # sch) (s, ps, cs) =
     (if i < length cs then (case C (cs ! i) s of None \<Rightarrow> None | Some (t, s') \<Rightarrow> run_sys P C sch (s', ps, cs[i := t])) else None)"

lemma run_sys_steps: "run_sys P C sch cfg = Some cfg' \<Longrightarrow> (sys_step P C ^^ length sch) cfg cfg'"
  by (induction P C sch cfg rule: run_sys.induct)
     (auto simp del: relpowp.simps split: if_splits option.splits intro!: relpowp_0_I
       intro: relpowp_Suc_I2 sys_step.intros)

definition stuck :: "('p, 's) prog \<Rightarrow> ('c, 's) prog \<Rightarrow> 's \<times> 'p list \<times> 'c list \<Rightarrow> bool" where
  "stuck P C cfg \<longleftrightarrow> (case cfg of (s, ps, cs) \<Rightarrow> (\<forall>t \<in> set ps. P t s = None) \<and> (\<forall>t \<in> set cs. C t s = None))"

lemma stuckD:
  assumes "stuck P C (s, ps, cs)"
  shows "t \<in> set ps \<Longrightarrow> P t s = None" and "u \<in> set cs \<Longrightarrow> C u s = None"
  using assms by (auto simp: stuck_def)

lemma stuck_no_step: "stuck P C cfg \<Longrightarrow> \<not> sys_step P C cfg cfg'"
  by (cases cfg) (auto simp: stuck_def elim!: sys_stepE)

text \<open>A schedule that runs a system until nobody can step.\<close>

definition runs_out :: "('p, 's) prog \<Rightarrow> ('c, 's) prog \<Rightarrow> (nat + nat) list \<Rightarrow> 's \<times> 'p list \<times> 'c list \<Rightarrow> bool" where
  "runs_out P C sch cfg = (case run_sys P C sch cfg of None \<Rightarrow> False | Some cfg' \<Rightarrow> stuck P C cfg')"

lemma runs_outE:
  assumes "runs_out P C sch cfg"
  obtains k s ps cs where "(sys_step P C ^^ k) cfg (s, ps, cs)" "stuck P C (s, ps, cs)"
  using assms run_sys_steps [of P C sch cfg]
  by (auto simp: runs_out_def split: option.splits)

lemma not_stuck_step: "\<not> stuck P C cfg \<Longrightarrow> \<exists>cfg'. sys_step P C cfg cfg'"
  by (cases cfg) (auto simp: stuck_def in_set_conv_nth intro: sys_step.intros; metis sys_step.intros)

text \<open>Steps that change the configuration, for programs that poll.\<close>

definition progress :: "('p, 's) prog \<Rightarrow> ('c, 's) prog \<Rightarrow> 's \<times> 'p list \<times> 'c list \<Rightarrow> 's \<times> 'p list \<times> 'c list \<Rightarrow> bool" where
  "progress P C cfg cfg' \<longleftrightarrow> sys_step P C cfg cfg' \<and> cfg' \<noteq> cfg"

lemma stuck_no_progress: "stuck P C cfg \<Longrightarrow> \<not> progress P C cfg cfg'"
  by (simp add: progress_def stuck_no_step)

lemma sys_steps_progress: "(sys_step P C ^^ k) cfg cfg' \<Longrightarrow> \<exists>j. (progress P C ^^ j) cfg cfg'"
proof (induction k arbitrary: cfg')
  case 0
  then show ?case
    by (intro exI [of _ 0]) simp
next
  case (Suc k)
  then obtain mid where "(sys_step P C ^^ k) cfg mid" and step: "sys_step P C mid cfg'"
    by (blast elim: relpowp_Suc_E)
  with Suc.IH obtain j where mid: "(progress P C ^^ j) cfg mid" "sys_step P C mid cfg'"
    by blast
  show ?case
  proof (cases "cfg' = mid")
    case False
    with mid have "(progress P C ^^ Suc j) cfg cfg'"
      by (auto simp: progress_def)
    then show ?thesis
      by blast
  qed (use mid in blast)
qed

subsection \<open>Weights\<close>

text \<open>A weight summed over the program counters of a list of threads.\<close>

definition wsum :: "('a \<Rightarrow> nat) \<Rightarrow> 'a list \<Rightarrow> nat" where
  "wsum f xs = sum_list (map f xs)"

lemma wsum_simps [simp]: "wsum f [] = 0" "wsum f (x # xs) = f x + wsum f xs"
  by (simp_all add: wsum_def)

lemma wsum_update: "i < length xs \<Longrightarrow> wsum f (xs[i := x]) + f (xs ! i) = wsum f xs + f x"
  by (induction xs arbitrary: i) (auto split: nat.splits)

lemma wsum_ge: "i < length xs \<Longrightarrow> f (xs ! i) \<le> wsum f xs"
  by (induction xs arbitrary: i) (auto simp: nth_Cons split: nat.splits intro: le_SucI trans_le_add2)

lemma wsum_ge_mem: "x \<in> set xs \<Longrightarrow> f x \<le> wsum f xs"
  by (metis in_set_conv_nth wsum_ge)

lemma wsum_0: "(\<And>x. x \<in> set xs \<Longrightarrow> f x = 0) \<Longrightarrow> wsum f xs = 0"
  by (induction xs) auto

lemma wsum_le_length: "(\<And>x. f x \<le> 1) \<Longrightarrow> wsum f xs \<le> length xs"
proof (induction xs)
  case (Cons x xs)
  then have "f x \<le> 1" "wsum f xs \<le> length xs"
    by blast+
  then show ?case
    by simp
qed simp

lemma wsum_full:
  assumes "\<And>x. f x \<le> 1"
  shows "wsum f xs = length xs \<Longrightarrow> \<forall>x \<in> set xs. f x = 1"
proof (induction xs)
  case (Cons x xs)
  then have "f x = 1 \<and> wsum f xs = length xs"
    using assms [of x] wsum_le_length [of f xs, OF assms] by simp
  with Cons.IH show ?case
    by simp
qed simp

lemma wsum_replicate [simp]: "wsum f (replicate k x) = k * f x"
  by (induction k) auto

lemma set_update_all:
  assumes "\<forall>x \<in> set xs. Q x" "Q y"
  shows "\<forall>x \<in> set (xs[i := y]). Q x"
  using assms set_update_subset_insert [of xs i y] by blast

subsection \<open>Runs that end\<close>

locale draining =
  fixes R :: "'a \<Rightarrow> 'a \<Rightarrow> bool" and inv :: "'a \<Rightarrow> bool" and left :: "'a \<Rightarrow> nat"
  assumes step: "R a b \<Longrightarrow> inv a \<Longrightarrow> inv b \<and> left b < left a"
begin

lemma steps: "(R ^^ k) a b \<Longrightarrow> inv a \<Longrightarrow> inv b \<and> k + left b \<le> left a"
proof (induction k arbitrary: b)
  case (Suc k)
  then obtain mid where mid: "(R ^^ k) a mid" "R mid b"
    by auto
  from Suc.IH [OF mid(1) Suc.prems(2)] have "inv mid" "k + left mid \<le> left a"
    by simp_all
  with step [OF mid(2)] show ?case
    by auto
qed simp

end

end
