(* ===== verification/BoundedBuffer.thy ===== *)
theory BoundedBuffer
  imports Threads
begin

text \<open>
  The protocol of the bounded-buffer programs of \<^verbatim>\<open>src/unixipc/pxsem\<close>: producers and
  consumers that share a circular buffer of \<open>NBUFF\<close> slots and three counting semaphores. The
  theory holds the program counters of the two kinds of threads, the protocol as a relation over an abstract buffer that counts the items put and
  taken, and the locale \<open>bounded_buffer\<close>: any pair of thread programs that follows the protocol
  never reads a wrong item, always stops, and stops only when every thread has returned.
\<close>

subsection \<open>Threads\<close>

text \<open>
  A producer stands before a call on a semaphore or in the section the mutex protects; the
  counters of the exit path are \<open>PQuitStored\<close>, \<open>PQuitEmpty\<close>, \<open>PQuitMutex\<close>.
\<close>

datatype ppc = PEmpty | PMutex | PCrit | PUnlock | PStored | PQuitStored | PQuitEmpty | PQuitMutex | PExit

datatype cpc = CStored | CMutex | CCrit | CUnlock | CEmpty | CQuitStored | CQuitMutex | CExit

text \<open>A thread: program counter, local loop index, counter of items handled.\<close>

record pthr =
  p_pc :: ppc
  p_i :: nat
  p_count :: nat

record cthr =
  c_pc :: cpc
  c_i :: nat
  c_count :: nat

definition new_producer :: pthr where
  "new_producer = \<lparr>p_pc = PEmpty, p_i = 0, p_count = 0\<rparr>"

definition new_consumer :: cthr where
  "new_consumer = \<lparr>c_pc = CStored, c_i = 0, c_count = 0\<rparr>"

definition finished :: "pthr list \<Rightarrow> cthr list \<Rightarrow> bool" where
  "finished ps cs \<longleftrightarrow> (\<forall>t \<in> set ps. p_pc t = PExit) \<and> (\<forall>t \<in> set cs. c_pc t = CExit)"

subsection \<open>The protocol\<close>

definition NBUFF :: nat where "NBUFF = 10"

text \<open>The abstract buffer counts the items put and taken; \<open>b_out\<close> holds what the consumers print.\<close>

record bbuf =
  b_buff :: "nat \<Rightarrow> int"
  b_put :: nat
  b_got :: nat
  b_mutex :: nat
  b_nempty :: nat
  b_nstored :: nat
  b_out :: "(nat \<times> int) list"

text \<open>
  The moves of a producer and of a consumer when \<open>n\<close> items are to be transferred. With \<open>post\<close> a
  producer that finds everything put gives a stored token away before it leaves and the consumers
  leave the same way; without, a thread that has nothing left to do leaves from the loop head.
\<close>

inductive pmove :: "bool \<Rightarrow> nat \<Rightarrow> ppc \<Rightarrow> bbuf \<Rightarrow> ppc \<Rightarrow> bbuf \<Rightarrow> bool" for post n where
  "b_nempty b > 0 \<Longrightarrow> pmove post n PEmpty b PMutex (b\<lparr>b_nempty := b_nempty b - 1\<rparr>)"
| "\<not> post \<Longrightarrow> n \<le> b_put b \<Longrightarrow> pmove post n PEmpty b PExit b"
| "b_mutex b > 0 \<Longrightarrow> pmove post n PMutex b PCrit (b\<lparr>b_mutex := b_mutex b - 1\<rparr>)"
| "b_put b < n \<Longrightarrow> pmove post n PCrit b PUnlock
     (b\<lparr>b_buff := (b_buff b)(b_put b mod NBUFF := int (b_put b)), b_put := b_put b + 1\<rparr>)"
| "post \<Longrightarrow> n \<le> b_put b \<Longrightarrow> pmove post n PCrit b PQuitStored b"
| "\<not> post \<Longrightarrow> n \<le> b_put b \<Longrightarrow> pmove post n PCrit b PQuitEmpty b"
| "pmove post n PUnlock b PStored (b\<lparr>b_mutex := b_mutex b + 1\<rparr>)"
| "pmove post n PStored b PEmpty (b\<lparr>b_nstored := b_nstored b + 1\<rparr>)"
| "post \<Longrightarrow> pmove post n PQuitStored b PQuitEmpty (b\<lparr>b_nstored := b_nstored b + 1\<rparr>)"
| "pmove post n PQuitEmpty b PQuitMutex (b\<lparr>b_nempty := b_nempty b + 1\<rparr>)"
| "pmove post n PQuitMutex b PExit (b\<lparr>b_mutex := b_mutex b + 1\<rparr>)"

inductive cmove :: "bool \<Rightarrow> nat \<Rightarrow> cpc \<Rightarrow> bbuf \<Rightarrow> cpc \<Rightarrow> bbuf \<Rightarrow> bool" for post n where
  "b_nstored b > 0 \<Longrightarrow> cmove post n CStored b CMutex (b\<lparr>b_nstored := b_nstored b - 1\<rparr>)"
| "\<not> post \<Longrightarrow> n \<le> b_got b \<Longrightarrow> cmove post n CStored b CExit b"
| "b_mutex b > 0 \<Longrightarrow> cmove post n CMutex b CCrit (b\<lparr>b_mutex := b_mutex b - 1\<rparr>)"
| "b_got b < n \<Longrightarrow> x = b_buff b (b_got b mod NBUFF) \<Longrightarrow> x \<noteq> int (b_got b) \<Longrightarrow>
     cmove post n CCrit b CUnlock (b\<lparr>b_got := b_got b + 1, b_out := b_out b @ [(j, x)]\<rparr>)"
| "b_got b < n \<Longrightarrow> b_buff b (b_got b mod NBUFF) = int (b_got b) \<Longrightarrow>
     cmove post n CCrit b CUnlock (b\<lparr>b_got := b_got b + 1\<rparr>)"
| "post \<Longrightarrow> n \<le> b_got b \<Longrightarrow> cmove post n CCrit b CQuitStored b"
| "cmove post n CUnlock b CEmpty (b\<lparr>b_mutex := b_mutex b + 1\<rparr>)"
| "cmove post n CEmpty b CStored (b\<lparr>b_nempty := b_nempty b + 1\<rparr>)"
| "cmove post n CQuitStored b CQuitMutex (b\<lparr>b_nstored := b_nstored b + 1\<rparr>)"
| "cmove post n CQuitMutex b CExit (b\<lparr>b_mutex := b_mutex b + 1\<rparr>)"

subsection \<open>The invariant of the protocol\<close>

fun p_crit :: "ppc \<Rightarrow> nat" where
  "p_crit PCrit = 1"
| "p_crit PUnlock = 1"
| "p_crit PQuitStored = 1"
| "p_crit PQuitEmpty = 1"
| "p_crit PQuitMutex = 1"
| "p_crit _ = 0"

fun p_hold :: "ppc \<Rightarrow> nat" where
  "p_hold PMutex = 1"
| "p_hold PCrit = 1"
| "p_hold PQuitStored = 1"
| "p_hold PQuitEmpty = 1"
| "p_hold _ = 0"

fun p_pend :: "ppc \<Rightarrow> nat" where
  "p_pend PUnlock = 1"
| "p_pend PStored = 1"
| "p_pend _ = 0"

fun p_gone :: "ppc \<Rightarrow> nat" where
  "p_gone PQuitEmpty = 1"
| "p_gone PQuitMutex = 1"
| "p_gone PExit = 1"
| "p_gone _ = 0"

fun c_crit :: "cpc \<Rightarrow> nat" where
  "c_crit CCrit = 1"
| "c_crit CUnlock = 1"
| "c_crit CQuitStored = 1"
| "c_crit CQuitMutex = 1"
| "c_crit _ = 0"

fun c_hold :: "cpc \<Rightarrow> nat" where
  "c_hold CMutex = 1"
| "c_hold CCrit = 1"
| "c_hold CQuitStored = 1"
| "c_hold _ = 0"

fun c_pend :: "cpc \<Rightarrow> nat" where
  "c_pend CUnlock = 1"
| "c_pend CEmpty = 1"
| "c_pend _ = 0"

primrec p_rank :: "ppc \<Rightarrow> nat" where
  "p_rank PUnlock = 8"
| "p_rank PStored = 7"
| "p_rank PEmpty = 6"
| "p_rank PMutex = 5"
| "p_rank PCrit = 4"
| "p_rank PQuitStored = 3"
| "p_rank PQuitEmpty = 2"
| "p_rank PQuitMutex = 1"
| "p_rank PExit = 0"

primrec c_rank :: "cpc \<Rightarrow> nat" where
  "c_rank CUnlock = 7"
| "c_rank CEmpty = 6"
| "c_rank CStored = 5"
| "c_rank CMutex = 4"
| "c_rank CCrit = 3"
| "c_rank CQuitStored = 2"
| "c_rank CQuitMutex = 1"
| "c_rank CExit = 0"

text \<open>
  The mutex semaphore and the threads in the section add up to one; the empty tokens, with those
  held and those owed, and the items in the buffer add up to \<open>NBUFF\<close>; the stored tokens are the
  items in the buffer and those left by producers that are gone; the slots between the two counters
  hold their own numbers; a thread leaves only when its side is complete.
\<close>

definition bb_num :: "bool \<Rightarrow> nat \<Rightarrow> bbuf \<Rightarrow> ppc list \<Rightarrow> cpc list \<Rightarrow> bool" where
  "bb_num post n b pl cl \<longleftrightarrow>
     b_mutex b + wsum p_crit pl + wsum c_crit cl = 1 \<and>
     b_got b \<le> b_put b \<and> b_put b \<le> n \<and>
     b_nempty b + wsum p_hold pl + b_put b + wsum c_pend cl = NBUFF + b_got b \<and>
     b_nstored b + wsum c_hold cl + wsum p_pend pl + b_got b = b_put b + (if post then wsum p_gone pl else 0)"

definition bb_slots :: "bbuf \<Rightarrow> bool" where
  "bb_slots b \<longleftrightarrow> b_out b = [] \<and> (\<forall>j. b_got b \<le> j \<longrightarrow> j < b_put b \<longrightarrow> b_buff b (j mod NBUFF) = int j)"

fun p_left :: "ppc \<Rightarrow> bool" where
  "p_left x = (x \<in> {PQuitStored, PQuitEmpty, PQuitMutex, PExit})"

fun c_left :: "cpc \<Rightarrow> bool" where
  "c_left x = (x \<in> {CQuitStored, CQuitMutex, CExit})"

definition bb_left :: "nat \<Rightarrow> bbuf \<Rightarrow> ppc list \<Rightarrow> cpc list \<Rightarrow> bool" where
  "bb_left n b pl cl \<longleftrightarrow>
     (\<forall>x \<in> set pl. p_left x \<longrightarrow> n \<le> b_put b) \<and> (\<forall>x \<in> set cl. c_left x \<longrightarrow> n \<le> b_got b)"

definition bb_inv :: "bool \<Rightarrow> nat \<Rightarrow> bbuf \<Rightarrow> ppc list \<Rightarrow> cpc list \<Rightarrow> bool" where
  "bb_inv post n b pl cl \<longleftrightarrow> bb_num post n b pl cl \<and> bb_slots b \<and> bb_left n b pl cl"

definition bb_measure :: "nat \<Rightarrow> bbuf \<Rightarrow> ppc list \<Rightarrow> cpc list \<Rightarrow> nat" where
  "bb_measure n b pl cl = 10 * (n - b_put b) + 10 * (n - b_got b) + wsum p_rank pl + wsum c_rank cl"

lemma slot_neq:
  assumes "j < k" "k < j + NBUFF"
  shows "j mod NBUFF \<noteq> k mod NBUFF"
proof
  assume "j mod NBUFF = k mod NBUFF"
  then have "NBUFF dvd k - j"
    using assms by (metis mod_eq_dvd_iff_nat less_imp_le)
  then show False
    using assms by (auto dest: dvd_imp_le)
qed

lemma gone_full:
  assumes left: "bb_left n b pl cl" and pos: "0 < wsum p_gone pl"
  shows "n \<le> b_put b"
proof -
  obtain x where x: "x \<in> set pl" "p_gone x \<noteq> 0"
    using wsum_0 [of pl p_gone] pos by (metis less_irrefl)
  from x(2) have "p_left x"
    by (cases x) simp_all
  with left x(1) show ?thesis
    unfolding bb_left_def by blast
qed

lemma bb_numD:
  assumes "bb_num post n b pl cl"
  shows "b_mutex b + wsum p_crit pl + wsum c_crit cl = 1" "b_got b \<le> b_put b" "b_put b \<le> n"
    "b_nempty b + wsum p_hold pl + b_put b + wsum c_pend cl = NBUFF + b_got b"
    "b_nstored b + wsum c_hold cl + wsum p_pend pl + b_got b = b_put b + (if post then wsum p_gone pl else 0)"
  using assms by (simp_all add: bb_num_def)

lemma pmove_num:
  assumes move: "pmove post n (pl ! i) b x b'" and i: "i < length pl" and inv: "bb_num post n b pl cl"
  shows "bb_num post n b' (pl[i := x]) cl"
proof -
  have "b_mutex b' + wsum p_crit (pl[i := x]) + wsum c_crit cl = 1"
    using move wsum_update [OF i, of p_crit x] bb_numD(1) [OF inv] by cases simp_all
  moreover have "b_got b' \<le> b_put b'" "b_put b' \<le> n"
    using move bb_numD(2,3) [OF inv] by (cases; simp)+
  moreover have "b_nempty b' + wsum p_hold (pl[i := x]) + b_put b' + wsum c_pend cl = NBUFF + b_got b'"
    using move wsum_update [OF i, of p_hold x] bb_numD(4) [OF inv] by cases simp_all
  moreover have "b_nstored b' + wsum c_hold cl + wsum p_pend (pl[i := x]) + b_got b'
      = b_put b' + (if post then wsum p_gone (pl[i := x]) else 0)"
    using move wsum_update [OF i, of p_pend x] wsum_update [OF i, of p_gone x] bb_numD(5) [OF inv]
    by cases auto
  ultimately show ?thesis
    by (simp add: bb_num_def)
qed

lemma cmove_num:
  assumes move: "cmove post n (cl ! i) b x b'" and i: "i < length cl" and inv: "bb_num post n b pl cl"
    and avail: "cl ! i = CCrit \<Longrightarrow> b_got b < n \<Longrightarrow> b_got b < b_put b"
  shows "bb_num post n b' pl (cl[i := x])"
proof -
  have "b_mutex b' + wsum p_crit pl + wsum c_crit (cl[i := x]) = 1"
    using move wsum_update [OF i, of c_crit x] bb_numD(1) [OF inv] by cases simp_all
  moreover have "b_got b' \<le> b_put b'" "b_put b' \<le> n"
    using move bb_numD(2,3) [OF inv] avail by (cases; simp)+
  moreover have "b_nempty b' + wsum p_hold pl + b_put b' + wsum c_pend (cl[i := x]) = NBUFF + b_got b'"
    using move wsum_update [OF i, of c_pend x] bb_numD(4) [OF inv] by cases simp_all
  moreover have "b_nstored b' + wsum c_hold (cl[i := x]) + wsum p_pend pl + b_got b'
      = b_put b' + (if post then wsum p_gone pl else 0)"
    using move wsum_update [OF i, of c_hold x] bb_numD(5) [OF inv] by cases auto
  ultimately show ?thesis
    by (simp add: bb_num_def)
qed

lemma pmove_slots:
  assumes move: "pmove post n (pl ! i) b x b'" and i: "i < length pl"
    and num: "bb_num post n b pl cl" and inv: "bb_slots b"
  shows "bb_slots b'"
  using move
proof cases
  case 4
  have "p_hold (pl ! i) \<le> wsum p_hold pl"
    using i by (rule wsum_ge)
  then have "b_put b < b_got b + NBUFF"
    using num 4 by (simp add: bb_num_def)
  then have "j mod NBUFF \<noteq> b_put b mod NBUFF" if "b_got b \<le> j" "j < b_put b" for j
    using that by (intro slot_neq) linarith+
  then show ?thesis
    using inv 4 by (auto simp: bb_slots_def less_Suc_eq)
qed (use inv in \<open>simp_all add: bb_slots_def\<close>)

lemma cmove_slots:
  assumes move: "cmove post n (cl ! i) b x b'" and inv: "bb_slots b"
    and avail: "cl ! i = CCrit \<Longrightarrow> b_got b < n \<Longrightarrow> b_got b < b_put b"
  shows "bb_slots b'"
  using move inv avail by cases (simp_all add: bb_slots_def)

lemma pmove_left:
  assumes move: "pmove post n (pl ! i) b x b'" and i: "i < length pl" and inv: "bb_left n b pl cl"
  shows "bb_left n b' (pl[i := x]) cl"
proof -
  have grow: "b_put b \<le> b_put b'" "b_got b' = b_got b"
    using move by (cases; simp)+
  have "p_left x \<longrightarrow> n \<le> b_put b'"
    using move inv nth_mem [OF i] by cases (auto simp: bb_left_def)
  then have "\<forall>x \<in> set (pl[i := x]). p_left x \<longrightarrow> n \<le> b_put b'"
    using inv grow by (intro set_update_all) (auto simp: bb_left_def intro: order_trans)
  then show ?thesis
    using inv grow by (simp add: bb_left_def)
qed

lemma cmove_left:
  assumes move: "cmove post n (cl ! i) b x b'" and i: "i < length cl" and inv: "bb_left n b pl cl"
  shows "bb_left n b' pl (cl[i := x])"
proof -
  have grow: "b_got b \<le> b_got b'" "b_put b' = b_put b"
    using move by (cases; simp)+
  have "c_left x \<longrightarrow> n \<le> b_got b'"
    using move inv nth_mem [OF i] by cases (auto simp: bb_left_def)
  then have "\<forall>x \<in> set (cl[i := x]). c_left x \<longrightarrow> n \<le> b_got b'"
    using inv grow by (intro set_update_all) (auto simp: bb_left_def intro: order_trans)
  then show ?thesis
    using inv grow by (simp add: bb_left_def)
qed

lemma item_available:
  assumes inv: "bb_inv post n b pl cl" and i: "i < length cl" and at: "cl ! i = CCrit" "b_got b < n"
  shows "b_got b < b_put b"
proof (cases "post \<and> 0 < wsum p_gone pl")
  case True
  then show ?thesis
    using inv at gone_full [of n b pl cl] by (simp add: bb_inv_def)
next
  case False
  have "1 \<le> wsum c_hold cl"
    using wsum_ge [OF i, of c_hold] at by simp
  then show ?thesis
    using inv False by (cases post) (simp_all add: bb_inv_def bb_num_def)
qed

lemma pmove_inv:
  assumes "pmove post n (pl ! i) b x b'" and "i < length pl" and "bb_inv post n b pl cl"
  shows "bb_inv post n b' (pl[i := x]) cl"
  using assms pmove_num pmove_slots pmove_left unfolding bb_inv_def by metis

lemma cmove_inv:
  assumes "cmove post n (cl ! i) b x b'" and "i < length cl" and inv: "bb_inv post n b pl cl"
  shows "bb_inv post n b' pl (cl[i := x])"
  using assms item_available [OF inv] cmove_num cmove_slots cmove_left unfolding bb_inv_def by metis

lemma pmove_measure:
  assumes move: "pmove post n (pl ! i) b x b'" and i: "i < length pl"
  shows "bb_measure n b' (pl[i := x]) cl < bb_measure n b pl cl"
  using move wsum_update [OF i, of p_rank x] by cases (auto simp: bb_measure_def)

lemma cmove_measure:
  assumes move: "cmove post n (cl ! i) b x b'" and i: "i < length cl"
  shows "bb_measure n b' pl (cl[i := x]) < bb_measure n b pl cl"
  using move wsum_update [OF i, of c_rank x] by cases (auto simp: bb_measure_def)

text \<open>When nobody can move, the token equations leave only the final states.\<close>

lemma bb_no_deadlock:
  assumes inv: "bb_inv post n b pl cl"
    and P: "\<And>x. x \<in> set pl \<Longrightarrow> x = PExit \<or> x = PEmpty \<and> b_nempty b = 0 \<or> x = PMutex \<and> b_mutex b = 0"
    and C: "\<And>x. x \<in> set cl \<Longrightarrow>
      x = CExit \<or> x = CStored \<and> b_nstored b = 0 \<and> (post \<or> b_got b < n) \<or> x = CMutex \<and> b_mutex b = 0"
    and ne: "pl \<noteq> []" "cl \<noteq> []"
  shows "set pl = {PExit} \<and> set cl = {CExit} \<and> b_put b = n \<and> b_got b = n"
proof -
  have "wsum p_crit pl = 0" "wsum p_pend pl = 0" "wsum c_crit cl = 0" "wsum c_pend cl = 0"
    by (rule wsum_0, use P C in fastforce)+
  then have mutex: "b_mutex b = 1"
    using inv by (simp add: bb_inv_def bb_num_def)
  have "wsum p_hold pl = 0" "wsum c_hold cl = 0"
    by (rule wsum_0, use P C mutex in fastforce)+
  then have eqs: "b_nempty b + b_put b = NBUFF + b_got b"
    "b_nstored b + b_got b = b_put b + (if post then wsum p_gone pl else 0)" "b_got b \<le> b_put b" "b_put b \<le> n"
    using inv \<open>wsum p_pend pl = 0\<close> \<open>wsum c_pend cl = 0\<close> by (simp_all add: bb_inv_def bb_num_def)
  have left: "n \<le> b_put b" if "PExit \<in> set pl"
    using inv that by (auto simp: bb_inv_def bb_left_def)
  have exited: "n \<le> b_got b" if "CExit \<in> set cl"
    using inv that by (auto simp: bb_inv_def bb_left_def)
  have cl: "x = CExit" if x: "x \<in> set cl" for x
  proof (rule ccontr)
    assume "x \<noteq> CExit"
    with C [OF x] mutex have blocked: "b_nstored b = 0" "post \<or> b_got b < n"
      by auto
    with eqs have same: "b_put b = b_got b" and gone: "post \<longrightarrow> wsum p_gone pl = 0"
      by (auto split: if_splits)
    with eqs have "b_nempty b \<noteq> 0"
      by (simp add: NBUFF_def)
    with P mutex ne(1) have exit: "PExit \<in> set pl"
      by (cases pl) auto
    then have "1 \<le> wsum p_gone pl"
      using wsum_ge_mem [of PExit pl p_gone] by simp
    with gone blocked same left [OF exit] show False
      by auto
  qed
  then have "CExit \<in> set cl"
    using ne(2) by (cases cl) auto
  with exited eqs have full: "b_put b = n" "b_got b = n"
    by auto
  with eqs have "b_nempty b \<noteq> 0"
    by (simp add: NBUFF_def)
  then have pl: "x = PExit" if "x \<in> set pl" for x
    using P [OF that] mutex by auto
  have "set pl = {PExit}" "set cl = {CExit}"
    using pl cl ne by (cases pl; cases cl; auto)+
  with full show ?thesis
    by simp
qed

lemma bb_inv_start:
  "b = \<lparr>b_buff = f, b_put = 0, b_got = 0, b_mutex = 1, b_nempty = NBUFF, b_nstored = 0, b_out = []\<rparr> \<Longrightarrow>
   bb_inv post n b (replicate np PEmpty) (replicate nc CStored)"
  by (simp add: bb_inv_def bb_num_def bb_slots_def bb_left_def)

subsection \<open>Programs that follow the protocol\<close>

text \<open>
  A pair of thread programs, an abstraction of the shared data to the buffer above and an invariant
  of their own. The laws: the first configuration is the empty buffer; every step is a move of the
  protocol; a thread whose program does not step has returned or waits for a token that is not
  there.
\<close>

locale bounded_buffer =
  fixes P :: "(pthr, 's) prog" and C :: "(cthr, 's) prog"
    and buf :: "'s \<Rightarrow> pthr list \<Rightarrow> cthr list \<Rightarrow> bbuf"
    and ok :: "'s \<Rightarrow> pthr list \<Rightarrow> cthr list \<Rightarrow> bool"
    and post :: bool and n :: nat
  assumes P_move: "ok s ps cs \<Longrightarrow> i < length ps \<Longrightarrow> P (ps ! i) s = Some (t, s') \<Longrightarrow>
      ok s' (ps[i := t]) cs \<and> pmove post n (p_pc (ps ! i)) (buf s ps cs) (p_pc t) (buf s' (ps[i := t]) cs)"
    and C_move: "ok s ps cs \<Longrightarrow> i < length cs \<Longrightarrow> C (cs ! i) s = Some (u, s') \<Longrightarrow>
      ok s' ps (cs[i := u]) \<and> cmove post n (c_pc (cs ! i)) (buf s ps cs) (c_pc u) (buf s' ps (cs[i := u]))"
    and P_blocked: "ok s ps cs \<Longrightarrow> t \<in> set ps \<Longrightarrow> P t s = None \<Longrightarrow>
      p_pc t = PExit \<or> p_pc t = PEmpty \<and> b_nempty (buf s ps cs) = 0 \<or> p_pc t = PMutex \<and> b_mutex (buf s ps cs) = 0"
    and C_blocked: "ok s ps cs \<Longrightarrow> u \<in> set cs \<Longrightarrow> C u s = None \<Longrightarrow>
      c_pc u = CExit \<or> c_pc u = CStored \<and> b_nstored (buf s ps cs) = 0 \<and> (post \<or> b_got (buf s ps cs) < n)
      \<or> c_pc u = CMutex \<and> b_mutex (buf s ps cs) = 0"
    and somebody: "ok s ps cs \<Longrightarrow> ps \<noteq> [] \<and> cs \<noteq> []"
begin

definition inv :: "'s \<times> pthr list \<times> cthr list \<Rightarrow> bool" where
  "inv cfg \<longleftrightarrow> (case cfg of (s, ps, cs) \<Rightarrow>
     ok s ps cs \<and> bb_inv post n (buf s ps cs) (map p_pc ps) (map c_pc cs))"

definition left :: "'s \<times> pthr list \<times> cthr list \<Rightarrow> nat" where
  "left cfg = (case cfg of (s, ps, cs) \<Rightarrow> bb_measure n (buf s ps cs) (map p_pc ps) (map c_pc cs))"

lemma sys_step_inv: "sys_step P C cfg cfg' \<Longrightarrow> inv cfg \<Longrightarrow> inv cfg' \<and> left cfg' < left cfg"
proof (induction rule: sys_step.induct)
  case (producer i ps s t s' cs)
  then have "ok s ps cs" and bb: "bb_inv post n (buf s ps cs) (map p_pc ps) (map c_pc cs)"
    by (simp_all add: inv_def)
  from P_move [OF this(1) producer(1,2)]
  have "ok s' (ps[i := t]) cs"
    and "pmove post n (map p_pc ps ! i) (buf s ps cs) (p_pc t) (buf s' (ps[i := t]) cs)"
    using producer(1) by simp_all
  with pmove_inv [OF this(2) _ bb] pmove_measure [OF this(2)] producer(1) show ?case
    by (simp add: inv_def left_def map_update)
next
  case (consumer i cs s t s' ps)
  then have "ok s ps cs" and bb: "bb_inv post n (buf s ps cs) (map p_pc ps) (map c_pc cs)"
    by (simp_all add: inv_def)
  from C_move [OF this(1) consumer(1,2)]
  have "ok s' ps (cs[i := t])"
    and "cmove post n (map c_pc cs ! i) (buf s ps cs) (c_pc t) (buf s' ps (cs[i := t]))"
    using consumer(1) by simp_all
  with cmove_inv [OF this(2) _ bb] cmove_measure [OF this(2)] consumer(1) show ?case
    by (simp add: inv_def left_def map_update)
qed

end

sublocale bounded_buffer \<subseteq> draining "sys_step P C" inv left
  by unfold_locales (rule sys_step_inv)

context bounded_buffer
begin

lemma no_output: "inv (s, ps, cs) \<Longrightarrow> b_out (buf s ps cs) = []"
  by (simp add: inv_def bb_inv_def bb_slots_def)

lemma stuck_finished:
  assumes inv: "inv (s, ps, cs)" and stuck: "stuck P C (s, ps, cs)"
  shows "finished ps cs \<and> b_put (buf s ps cs) = n \<and> b_got (buf s ps cs) = n"
proof -
  have ok: "ok s ps cs" and bb: "bb_inv post n (buf s ps cs) (map p_pc ps) (map c_pc cs)"
    using inv by (simp_all add: inv_def)
  have "set (map p_pc ps) = {PExit} \<and> set (map c_pc cs) = {CExit}
      \<and> b_put (buf s ps cs) = n \<and> b_got (buf s ps cs) = n"
  proof (rule bb_no_deadlock [OF bb])
    fix x
    assume "x \<in> set (map p_pc ps)"
    then obtain t where t: "t \<in> set ps" "x = p_pc t"
      by auto
    show "x = PExit \<or> x = PEmpty \<and> b_nempty (buf s ps cs) = 0 \<or> x = PMutex \<and> b_mutex (buf s ps cs) = 0"
      unfolding t(2) by (rule P_blocked [OF ok t(1) stuckD(1) [OF stuck t(1)]])
  next
    fix x
    assume "x \<in> set (map c_pc cs)"
    then obtain u where u: "u \<in> set cs" "x = c_pc u"
      by auto
    show "x = CExit \<or> x = CStored \<and> b_nstored (buf s ps cs) = 0 \<and> (post \<or> b_got (buf s ps cs) < n)
        \<or> x = CMutex \<and> b_mutex (buf s ps cs) = 0"
      unfolding u(2) by (rule C_blocked [OF ok u(1) stuckD(2) [OF stuck u(1)]])
  qed (use somebody [OF ok] in auto)
  then show ?thesis
    by (auto simp: finished_def)
qed

end

end
