(* ===== verification/ProdConsSem.thy ===== *)
theory ProdConsSem
  imports BoundedBuffer
begin

text \<open>
  The producer-consumer programs of \<^verbatim>\<open>src/unixipc/pxsem\<close>: \<^verbatim>\<open>prodcons1.c\<close> and
  \<^verbatim>\<open>prodcons2.c\<close> (one producer, one consumer; named and unnamed semaphores),
  \<^verbatim>\<open>prodcons3.c\<close> (several producers) and \<^verbatim>\<open>prodcons4.c\<close> (several producers and
  consumers). A thread function becomes a program of \<open>BoundedBuffer\<close>: one step per semaphore call
  and one for the statements between the calls, so that every interleaving of the calls is covered.
  The semaphores of the system are counters whose wait blocks at zero. The theory interprets the
  locale \<open>bounded_buffer\<close> on the programs and states what it gives for each of them.
\<close>

subsection \<open>Shared data\<close>

text \<open>\<open>sh_out\<close> is the output of the consumers: index and value of each mismatch.\<close>

record shared1 =
  sh_buff :: "nat \<Rightarrow> int"
  sh_mutex :: nat
  sh_nempty :: nat
  sh_nstored :: nat
  sh_out :: "(nat \<times> int) list"

record shared3 = shared1 +
  sh_nput :: nat
  sh_nputval :: int

record shared4 = shared3 +
  sh_nget :: nat
  sh_ngetval :: int

definition sem_wait_mutex :: "'a shared1_scheme \<Rightarrow> 'a shared1_scheme option" where
  "sem_wait_mutex s = (if sh_mutex s > 0 then Some (s\<lparr>sh_mutex := sh_mutex s - 1\<rparr>) else None)"

definition sem_wait_nempty :: "'a shared1_scheme \<Rightarrow> 'a shared1_scheme option" where
  "sem_wait_nempty s = (if sh_nempty s > 0 then Some (s\<lparr>sh_nempty := sh_nempty s - 1\<rparr>) else None)"

definition sem_wait_nstored :: "'a shared1_scheme \<Rightarrow> 'a shared1_scheme option" where
  "sem_wait_nstored s = (if sh_nstored s > 0 then Some (s\<lparr>sh_nstored := sh_nstored s - 1\<rparr>) else None)"

definition sem_post_mutex :: "'a shared1_scheme \<Rightarrow> 'a shared1_scheme" where
  "sem_post_mutex s = s\<lparr>sh_mutex := sh_mutex s + 1\<rparr>"

definition sem_post_nempty :: "'a shared1_scheme \<Rightarrow> 'a shared1_scheme" where
  "sem_post_nempty s = s\<lparr>sh_nempty := sh_nempty s + 1\<rparr>"

definition sem_post_nstored :: "'a shared1_scheme \<Rightarrow> 'a shared1_scheme" where
  "sem_post_nstored s = s\<lparr>sh_nstored := sh_nstored s + 1\<rparr>"

lemmas sem_calls = sem_wait_mutex_def sem_wait_nempty_def sem_wait_nstored_def
  sem_post_mutex_def sem_post_nempty_def sem_post_nstored_def

text \<open>A wait that succeeds moves the thread on.\<close>

definition waits :: "'s option \<Rightarrow> 't \<Rightarrow> ('t \<times> 's) option" where
  "waits r t = map_option (Pair t) r"

lemma waits_simps [simp]: "waits None t = None" "waits (Some s) t = Some (t, s)"
  by (simp_all add: waits_def)

lemma waits_if [simp]: "waits (if b then Some s else None) t = (if b then Some (t, s) else None)"
  by simp

text \<open>What a consumer does in its section: compare, and print a mismatch.\<close>

definition check_item :: "nat \<Rightarrow> int \<Rightarrow> int \<Rightarrow> 'a shared1_scheme \<Rightarrow> 'a shared1_scheme" where
  "check_item j want x s = (if x \<noteq> want then s\<lparr>sh_out := sh_out s @ [(j, x)]\<rparr> else s)"

subsection \<open>One producer and one consumer\<close>

text \<open>
  \<^verbatim>\<open>produce\<close> and \<^verbatim>\<open>consume\<close> of \<^verbatim>\<open>prodcons1.c\<close>; \<open>PEmpty\<close> and \<open>CStored\<close> include the test of the
  loop, and the step after the last post increments the index.
\<close>

fun produce1 :: "nat \<Rightarrow> pthr \<Rightarrow> 'a shared1_scheme \<Rightarrow> (pthr \<times> 'a shared1_scheme) option" where
  "produce1 nitems t s = (case p_pc t of
     PEmpty \<Rightarrow> if p_i t < nitems then waits (sem_wait_nempty s) (t\<lparr>p_pc := PMutex\<rparr>)
               else Some (t\<lparr>p_pc := PExit\<rparr>, s)
   | PMutex \<Rightarrow> waits (sem_wait_mutex s) (t\<lparr>p_pc := PCrit\<rparr>)
   | PCrit \<Rightarrow> Some (t\<lparr>p_pc := PUnlock\<rparr>, s\<lparr>sh_buff := (sh_buff s)(p_i t mod NBUFF := int (p_i t))\<rparr>)
   | PUnlock \<Rightarrow> Some (t\<lparr>p_pc := PStored\<rparr>, sem_post_mutex s)
   | PStored \<Rightarrow> Some (t\<lparr>p_pc := PEmpty, p_i := p_i t + 1\<rparr>, sem_post_nstored s)
   | _ \<Rightarrow> None)"

fun consume1 :: "nat \<Rightarrow> cthr \<Rightarrow> 'a shared1_scheme \<Rightarrow> (cthr \<times> 'a shared1_scheme) option" where
  "consume1 nitems t s = (case c_pc t of
     CStored \<Rightarrow> if c_i t < nitems then waits (sem_wait_nstored s) (t\<lparr>c_pc := CMutex\<rparr>)
                else Some (t\<lparr>c_pc := CExit\<rparr>, s)
   | CMutex \<Rightarrow> waits (sem_wait_mutex s) (t\<lparr>c_pc := CCrit\<rparr>)
   | CCrit \<Rightarrow> Some (t\<lparr>c_pc := CUnlock\<rparr>,
       check_item (c_i t) (int (c_i t)) (sh_buff s (c_i t mod NBUFF)) s)
   | CUnlock \<Rightarrow> Some (t\<lparr>c_pc := CEmpty\<rparr>, sem_post_mutex s)
   | CEmpty \<Rightarrow> Some (t\<lparr>c_pc := CStored, c_i := c_i t + 1\<rparr>, sem_post_nempty s)
   | _ \<Rightarrow> None)"

definition shared1_init :: shared1 where
  "shared1_init = \<lparr>sh_buff = (\<lambda>_. 0), sh_mutex = 1, sh_nempty = NBUFF, sh_nstored = 0, sh_out = []\<rparr>"

text \<open>\<^verbatim>\<open>main\<close> up to the joins: \<^verbatim>\<open>atoi\<close> has read the argument; a negative number of items is none.\<close>

definition prodcons1_main :: "int \<Rightarrow> nat \<times> shared1 \<times> pthr list \<times> cthr list" where
  "prodcons1_main items = (nat items, shared1_init, [new_producer], [new_consumer])"

text \<open>\<^verbatim>\<open>prodcons2.c\<close> has the same threads over unnamed semaphores.\<close>

definition produce2 :: "nat \<Rightarrow> pthr \<Rightarrow> shared1 \<Rightarrow> (pthr \<times> shared1) option" where
  "produce2 = produce1"

definition consume2 :: "nat \<Rightarrow> cthr \<Rightarrow> shared1 \<Rightarrow> (cthr \<times> shared1) option" where
  "consume2 = consume1"

definition prodcons2_main :: "int \<Rightarrow> nat \<times> shared1 \<times> pthr list \<times> cthr list" where
  "prodcons2_main items = (nat items, shared1_init, [new_producer], [new_consumer])"

subsection \<open>Several producers\<close>

text \<open>
  \<^verbatim>\<open>produce\<close> of \<^verbatim>\<open>prodcons3.c\<close>: a producer that finds all items put posts \<^verbatim>\<open>nempty\<close> and the mutex
  and returns. The increment of the thread's own counter is part of the step of the last post.
\<close>

fun produce3 :: "nat \<Rightarrow> pthr \<Rightarrow> 'a shared3_scheme \<Rightarrow> (pthr \<times> 'a shared3_scheme) option" where
  "produce3 nitems t s = (case p_pc t of
     PEmpty \<Rightarrow> waits (sem_wait_nempty s) (t\<lparr>p_pc := PMutex\<rparr>)
   | PMutex \<Rightarrow> waits (sem_wait_mutex s) (t\<lparr>p_pc := PCrit\<rparr>)
   | PCrit \<Rightarrow> if sh_nput s \<ge> nitems then Some (t\<lparr>p_pc := PQuitEmpty\<rparr>, s)
       else Some (t\<lparr>p_pc := PUnlock\<rparr>, s\<lparr>sh_buff := (sh_buff s)(sh_nput s mod NBUFF := sh_nputval s),
              sh_nput := sh_nput s + 1, sh_nputval := sh_nputval s + 1\<rparr>)
   | PQuitEmpty \<Rightarrow> Some (t\<lparr>p_pc := PQuitMutex\<rparr>, sem_post_nempty s)
   | PQuitMutex \<Rightarrow> Some (t\<lparr>p_pc := PExit\<rparr>, sem_post_mutex s)
   | PUnlock \<Rightarrow> Some (t\<lparr>p_pc := PStored\<rparr>, sem_post_mutex s)
   | PStored \<Rightarrow> Some (t\<lparr>p_pc := PEmpty, p_count := p_count t + 1\<rparr>, sem_post_nstored s)
   | _ \<Rightarrow> None)"

definition consume3 :: "nat \<Rightarrow> cthr \<Rightarrow> shared3 \<Rightarrow> (cthr \<times> shared3) option" where
  "consume3 = consume1"

definition shared3_init :: shared3 where
  "shared3_init = \<lparr>sh_buff = (\<lambda>_. 0), sh_mutex = 1, sh_nempty = NBUFF, sh_nstored = 0, sh_out = [],
     sh_nput = 0, sh_nputval = 0\<rparr>"

definition MAXNTHREADS :: int where
  "MAXNTHREADS = 100"

definition prodcons3_main :: "int \<Rightarrow> int \<Rightarrow> nat \<times> shared3 \<times> pthr list \<times> cthr list" where
  "prodcons3_main items producers =
     (nat items, shared3_init, replicate (nat (min producers MAXNTHREADS)) new_producer, [new_consumer])"

subsection \<open>Several producers and several consumers\<close>

fun produce4 :: "nat \<Rightarrow> pthr \<Rightarrow> 'a shared4_scheme \<Rightarrow> (pthr \<times> 'a shared4_scheme) option" where
  "produce4 nitems t s = (case p_pc t of
     PEmpty \<Rightarrow> waits (sem_wait_nempty s) (t\<lparr>p_pc := PMutex\<rparr>)
   | PMutex \<Rightarrow> waits (sem_wait_mutex s) (t\<lparr>p_pc := PCrit\<rparr>)
   | PCrit \<Rightarrow> if sh_nput s \<ge> nitems then Some (t\<lparr>p_pc := PQuitStored\<rparr>, s)
       else Some (t\<lparr>p_pc := PUnlock\<rparr>, s\<lparr>sh_buff := (sh_buff s)(sh_nput s mod NBUFF := sh_nputval s),
              sh_nput := sh_nput s + 1, sh_nputval := sh_nputval s + 1\<rparr>)
   | PQuitStored \<Rightarrow> Some (t\<lparr>p_pc := PQuitEmpty\<rparr>, sem_post_nstored s)
   | PQuitEmpty \<Rightarrow> Some (t\<lparr>p_pc := PQuitMutex\<rparr>, sem_post_nempty s)
   | PQuitMutex \<Rightarrow> Some (t\<lparr>p_pc := PExit\<rparr>, sem_post_mutex s)
   | PUnlock \<Rightarrow> Some (t\<lparr>p_pc := PStored\<rparr>, sem_post_mutex s)
   | PStored \<Rightarrow> Some (t\<lparr>p_pc := PEmpty, p_count := p_count t + 1\<rparr>, sem_post_nstored s)
   | _ \<Rightarrow> None)"

fun consume4 :: "nat \<Rightarrow> cthr \<Rightarrow> 'a shared4_scheme \<Rightarrow> (cthr \<times> 'a shared4_scheme) option" where
  "consume4 nitems t s = (case c_pc t of
     CStored \<Rightarrow> waits (sem_wait_nstored s) (t\<lparr>c_pc := CMutex\<rparr>)
   | CMutex \<Rightarrow> waits (sem_wait_mutex s) (t\<lparr>c_pc := CCrit\<rparr>)
   | CCrit \<Rightarrow> if sh_nget s \<ge> nitems then Some (t\<lparr>c_pc := CQuitStored\<rparr>, s)
       else (let i = sh_nget s mod NBUFF; s' = check_item i (sh_ngetval s) (sh_buff s i) s in
         Some (t\<lparr>c_pc := CUnlock\<rparr>, s'\<lparr>sh_nget := sh_nget s + 1, sh_ngetval := sh_ngetval s + 1\<rparr>))
   | CQuitStored \<Rightarrow> Some (t\<lparr>c_pc := CQuitMutex\<rparr>, sem_post_nstored s)
   | CQuitMutex \<Rightarrow> Some (t\<lparr>c_pc := CExit\<rparr>, sem_post_mutex s)
   | CUnlock \<Rightarrow> Some (t\<lparr>c_pc := CEmpty\<rparr>, sem_post_mutex s)
   | CEmpty \<Rightarrow> Some (t\<lparr>c_pc := CStored, c_count := c_count t + 1\<rparr>, sem_post_nempty s)
   | _ \<Rightarrow> None)"

definition shared4_init :: shared4 where
  "shared4_init = \<lparr>sh_buff = (\<lambda>_. 0), sh_mutex = 1, sh_nempty = NBUFF, sh_nstored = 0, sh_out = [],
     sh_nput = 0, sh_nputval = 0, sh_nget = 0, sh_ngetval = 0\<rparr>"

definition prodcons4_main :: "int \<Rightarrow> int \<Rightarrow> int \<Rightarrow> nat \<times> shared4 \<times> pthr list \<times> cthr list" where
  "prodcons4_main items producers consumers =
     (nat items, shared4_init, replicate (nat (min producers MAXNTHREADS)) new_producer,
      replicate (nat (min consumers MAXNTHREADS)) new_consumer)"

subsection \<open>The programs follow the protocol\<close>

text \<open>
  A thread with a local index has put, or taken, as many items as the index says, and one more
  between its section and the end of the loop body.
\<close>

definition put_by :: "pthr \<Rightarrow> nat" where
  "put_by t = p_i t + p_pend (p_pc t)"

definition got_by :: "cthr \<Rightarrow> nat" where
  "got_by t = c_i t + c_pend (c_pc t)"

definition buf_of :: "nat \<Rightarrow> nat \<Rightarrow> 'a shared1_scheme \<Rightarrow> bbuf" where
  "buf_of np ng s = \<lparr>b_buff = sh_buff s, b_put = np, b_got = ng, b_mutex = sh_mutex s,
     b_nempty = sh_nempty s, b_nstored = sh_nstored s, b_out = sh_out s\<rparr>"

definition producer_ok :: "nat \<Rightarrow> pthr \<Rightarrow> bool" where
  "producer_ok n t \<longleftrightarrow> p_pc t \<notin> {PQuitStored, PQuitEmpty, PQuitMutex} \<and>
     (p_pc t \<in> {PMutex, PCrit, PUnlock, PStored} \<longrightarrow> p_i t < n)"

definition consumer_ok :: "nat \<Rightarrow> cthr \<Rightarrow> bool" where
  "consumer_ok n t \<longleftrightarrow> c_pc t \<notin> {CQuitStored, CQuitMutex} \<and>
     (c_pc t \<in> {CMutex, CCrit, CUnlock, CEmpty} \<longrightarrow> c_i t < n)"

definition ok1 :: "nat \<Rightarrow> shared1 \<Rightarrow> pthr list \<Rightarrow> cthr list \<Rightarrow> bool" where
  "ok1 n s ps cs \<longleftrightarrow> (\<exists>p c. ps = [p] \<and> cs = [c] \<and> producer_ok n p \<and> consumer_ok n c)"

definition buf1 :: "shared1 \<Rightarrow> pthr list \<Rightarrow> cthr list \<Rightarrow> bbuf" where
  "buf1 s ps cs = buf_of (put_by (hd ps)) (got_by (hd cs)) s"

lemmas buf_simps = buf_of_def put_by_def got_by_def

lemma produce1_move:
  assumes "producer_ok n t" "produce1 n t s = Some (t', s')"
  shows "producer_ok n t' \<and> pmove False n (p_pc t) (buf_of (put_by t) ng s) (p_pc t') (buf_of (put_by t') ng s')"
  using assms
  by (cases "p_pc t")
     (auto simp: producer_ok_def buf_simps sem_calls pmove.simps split: if_splits)

lemma consume1_move:
  assumes "consumer_ok n t" "consume1 n t s = Some (t', s')"
  shows "consumer_ok n t' \<and> cmove False n (c_pc t) (buf_of np (got_by t) s) (c_pc t') (buf_of np (got_by t') s')"
  using assms
  by (cases "c_pc t")
     (auto simp: consumer_ok_def buf_simps sem_calls check_item_def cmove.simps split: if_splits)

lemma consume1_other:
  assumes "consume1 n t s = Some (t', s')"
  shows "shared1.more s' = shared1.more s"
  using assms by (cases "c_pc t") (auto simp: sem_calls check_item_def split: if_splits)

lemma produce1_blocked:
  assumes "producer_ok n t" "produce1 n t s = None"
  shows "p_pc t = PExit \<or> p_pc t = PEmpty \<and> sh_nempty s = 0 \<or> p_pc t = PMutex \<and> sh_mutex s = 0"
  using assms by (cases "p_pc t") (auto simp: producer_ok_def sem_calls split: if_splits)

lemma consume1_blocked:
  assumes "consumer_ok n t" "consume1 n t s = None"
  shows "c_pc t = CExit \<or> c_pc t = CStored \<and> sh_nstored s = 0 \<and> got_by t < n \<or> c_pc t = CMutex \<and> sh_mutex s = 0"
  using assms by (cases "c_pc t") (auto simp: consumer_ok_def sem_calls got_by_def split: if_splits)

interpretation pc1: bounded_buffer "produce1 n" "consume1 n" buf1 "ok1 n" False n for n
proof (unfold_locales, goal_cases)
  case (1 s ps cs i t s')
  then obtain p c where pc: "ps = [p]" "cs = [c]" "i = 0" "producer_ok n p" "consumer_ok n c"
    by (auto simp: ok1_def)
  with produce1_move [of n p s t s' "got_by c"] 1(3) show ?case
    by (simp add: ok1_def buf1_def del: produce1.simps)
next
  case (2 s ps cs i u s')
  then obtain p c where pc: "ps = [p]" "cs = [c]" "i = 0" "producer_ok n p" "consumer_ok n c"
    by (auto simp: ok1_def)
  with consume1_move [of n c s u s' "put_by p"] 2(3) show ?case
    by (simp add: ok1_def buf1_def del: consume1.simps)
next
  case (3 s ps cs t)
  then show ?case
    using produce1_blocked [of n t s] by (auto simp: ok1_def buf1_def buf_of_def simp del: produce1.simps)
next
  case (4 s ps cs u)
  then show ?case
    using consume1_blocked [of n u s] by (auto simp: ok1_def buf1_def buf_of_def simp del: consume1.simps)
qed (auto simp: ok1_def)

text \<open>With several producers the shared counter counts, and the threads' own counters add up to it.\<close>

definition handled :: "pthr \<Rightarrow> nat" where
  "handled t = p_count t + p_pend (p_pc t)"

definition chandled :: "cthr \<Rightarrow> nat" where
  "chandled t = c_count t + c_pend (c_pc t)"

definition ok3 :: "nat \<Rightarrow> shared3 \<Rightarrow> pthr list \<Rightarrow> cthr list \<Rightarrow> bool" where
  "ok3 n s ps cs \<longleftrightarrow> ps \<noteq> [] \<and> (\<exists>c. cs = [c] \<and> consumer_ok n c) \<and> sh_nputval s = int (sh_nput s) \<and>
     (\<forall>t \<in> set ps. p_pc t \<noteq> PQuitStored) \<and> wsum handled ps = sh_nput s"

definition buf3 :: "shared3 \<Rightarrow> pthr list \<Rightarrow> cthr list \<Rightarrow> bbuf" where
  "buf3 s ps cs = buf_of (sh_nput s) (got_by (hd cs)) s"

definition ok4 :: "shared4 \<Rightarrow> pthr list \<Rightarrow> cthr list \<Rightarrow> bool" where
  "ok4 s ps cs \<longleftrightarrow> ps \<noteq> [] \<and> cs \<noteq> [] \<and> sh_nputval s = int (sh_nput s) \<and> sh_ngetval s = int (sh_nget s) \<and>
     wsum handled ps = sh_nput s \<and> wsum chandled cs = sh_nget s"

definition buf4 :: "shared4 \<Rightarrow> pthr list \<Rightarrow> cthr list \<Rightarrow> bbuf" where
  "buf4 s ps cs = buf_of (sh_nput s) (sh_nget s) s"

lemma produce3_move:
  assumes "p_pc t \<noteq> PQuitStored" "sh_nputval s = int (sh_nput s)" "produce3 n t s = Some (t', s')"
  shows "sh_nputval s' = int (sh_nput s') \<and> p_pc t' \<noteq> PQuitStored \<and>
    handled t' + sh_nput s = handled t + sh_nput s' \<and>
    pmove False n (p_pc t) (buf_of (sh_nput s) ng s) (p_pc t') (buf_of (sh_nput s') ng s')"
  using assms
  by (cases "p_pc t") (auto simp: handled_def buf_of_def sem_calls pmove.simps split: if_splits)

lemma produce3_blocked:
  assumes "p_pc t \<noteq> PQuitStored" "produce3 n t s = None"
  shows "p_pc t = PExit \<or> p_pc t = PEmpty \<and> sh_nempty s = 0 \<or> p_pc t = PMutex \<and> sh_mutex s = 0"
  using assms by (cases "p_pc t") (auto simp: sem_calls split: if_splits)

lemma produce4_move:
  assumes "sh_nputval s = int (sh_nput s)" "produce4 n t s = Some (t', s')"
  shows "sh_nputval s' = int (sh_nput s') \<and> handled t' + sh_nput s = handled t + sh_nput s' \<and>
    sh_nget s' = sh_nget s \<and> sh_ngetval s' = sh_ngetval s \<and>
    pmove True n (p_pc t) (buf_of (sh_nput s) (sh_nget s) s) (p_pc t') (buf_of (sh_nput s') (sh_nget s) s')"
  using assms
  by (cases "p_pc t") (auto simp: handled_def buf_of_def sem_calls pmove.simps split: if_splits)

lemma produce4_blocked:
  assumes "produce4 n t s = None"
  shows "p_pc t = PExit \<or> p_pc t = PEmpty \<and> sh_nempty s = 0 \<or> p_pc t = PMutex \<and> sh_mutex s = 0"
  using assms by (cases "p_pc t") (auto simp: sem_calls split: if_splits)

lemma consume4_move:
  assumes "sh_ngetval s = int (sh_nget s)" "consume4 n t s = Some (t', s')"
  shows "sh_ngetval s' = int (sh_nget s') \<and> chandled t' + sh_nget s = chandled t + sh_nget s' \<and>
    sh_nput s' = sh_nput s \<and> sh_nputval s' = sh_nputval s \<and>
    cmove True n (c_pc t) (buf_of (sh_nput s) (sh_nget s) s) (c_pc t') (buf_of (sh_nput s) (sh_nget s') s')"
  using assms
  by (cases "c_pc t")
     (auto simp: chandled_def buf_of_def sem_calls check_item_def Let_def cmove.simps split: if_splits)

lemma consume4_blocked:
  assumes "consume4 n t s = None"
  shows "c_pc t = CExit \<or> c_pc t = CStored \<and> sh_nstored s = 0 \<or> c_pc t = CMutex \<and> sh_mutex s = 0"
  using assms by (cases "c_pc t") (auto simp: sem_calls Let_def split: if_splits)

interpretation pc3: bounded_buffer "produce3 n" "consume3 n" buf3 "ok3 n" False n for n
proof (unfold_locales, goal_cases)
  case (1 s ps cs i t s')
  then have "p_pc (ps ! i) \<noteq> PQuitStored" "sh_nputval s = int (sh_nput s)"
    by (simp_all add: ok3_def)
  note move = produce3_move [OF this 1(3), of "got_by (hd cs)"]
  then have "\<forall>u \<in> set (ps[i := t]). p_pc u \<noteq> PQuitStored"
    using 1(1) by (intro set_update_all) (simp_all add: ok3_def)
  moreover have "wsum handled (ps[i := t]) = sh_nput s'"
    using wsum_update [OF 1(2), of handled t] move 1(1) by (simp add: ok3_def)
  ultimately show ?case
    using move 1(1) by (auto simp: ok3_def buf3_def)
next
  case (2 s ps cs i u s')
  then obtain c where c: "cs = [c]" "i = 0" "consumer_ok n c"
    by (auto simp: ok3_def)
  have step: "consume1 n c s = Some (u, s')"
    using 2(3) c by (simp add: consume3_def)
  then show ?case
    using consume1_move [OF c(3) step, of "sh_nput s"] consume1_other [OF step] 2(1) c
    by (cases s; cases s') (simp add: ok3_def buf3_def buf_of_def del: consume1.simps)
next
  case (3 s ps cs t)
  then show ?case
    using produce3_blocked [of t n s] by (auto simp: ok3_def buf3_def buf_of_def simp del: produce3.simps)
next
  case (4 s ps cs u)
  then show ?case
    using consume1_blocked [of n u s]
    by (auto simp: consume3_def ok3_def buf3_def buf_of_def simp del: consume1.simps)
qed (auto simp: ok3_def)

interpretation pc4: bounded_buffer "produce4 n" "consume4 n" buf4 ok4 True n for n
proof (unfold_locales, goal_cases)
  case (1 s ps cs i t s')
  then have "sh_nputval s = int (sh_nput s)"
    by (simp add: ok4_def)
  note move = produce4_move [OF this 1(3)]
  then show ?case
    using wsum_update [OF 1(2), of handled t] 1(1) by (auto simp: ok4_def buf4_def)
next
  case (2 s ps cs i u s')
  then have "sh_ngetval s = int (sh_nget s)"
    by (simp add: ok4_def)
  note move = consume4_move [OF this 2(3)]
  then show ?case
    using wsum_update [OF 2(2), of chandled u] 2(1) by (auto simp: ok4_def buf4_def)
next
  case (3 s ps cs t)
  then show ?case
    using produce4_blocked [of n t s] by (auto simp: buf4_def buf_of_def simp del: produce4.simps)
next
  case (4 s ps cs u)
  then show ?case
    using consume4_blocked [of n u s] by (auto simp: buf4_def buf_of_def simp del: consume4.simps)
qed (auto simp: ok4_def)

subsection \<open>What the programs do\<close>

lemma buf_of_start:
  "sh_mutex s = 1 \<Longrightarrow> sh_nempty s = NBUFF \<Longrightarrow> sh_nstored s = 0 \<Longrightarrow> sh_out s = [] \<Longrightarrow>
   bb_inv post n (buf_of 0 0 s) (replicate np PEmpty) (replicate nc CStored)"
  by (rule bb_inv_start) (simp add: buf_of_def)

lemma new_threads [simp]:
  "p_pc new_producer = PEmpty" "p_i new_producer = 0" "p_count new_producer = 0"
  "c_pc new_consumer = CStored" "c_i new_consumer = 0" "c_count new_consumer = 0"
  "handled new_producer = 0" "chandled new_consumer = 0"
  "put_by new_producer = 0" "got_by new_consumer = 0" "consumer_ok n new_consumer" "producer_ok n new_producer"
  by (simp_all add: new_producer_def new_consumer_def handled_def chandled_def put_by_def got_by_def
      consumer_ok_def producer_ok_def)

lemma finished_handled:
  "finished ps cs \<Longrightarrow> wsum handled ps = sum_list (map p_count ps)"
  "finished ps cs \<Longrightarrow> wsum chandled cs = sum_list (map c_count cs)"
  by (auto simp: finished_def wsum_def handled_def chandled_def intro!: arg_cong [of _ _ sum_list])

lemma start1:
  assumes "prodcons1_main items = (n, cfg)"
  shows "pc1.inv n cfg \<and> pc1.left n cfg = 20 * n + 11"
  using assms buf_of_start [of shared1_init False n 1 1]
  by (auto simp: prodcons1_main_def pc1.inv_def pc1.left_def ok1_def buf1_def bb_measure_def
      shared1_init_def buf_of_def)

lemma start3:
  assumes "prodcons3_main items producers = (n, s, ps, cs)" "1 \<le> producers"
  shows "pc3.inv n (s, ps, cs) \<and> pc3.left n (s, ps, cs) = 20 * n + 6 * length ps + 5"
  using assms buf_of_start [of shared3_init False n "nat (min producers MAXNTHREADS)" 1]
  by (auto simp: prodcons3_main_def pc3.inv_def pc3.left_def ok3_def buf3_def bb_measure_def
      shared3_init_def buf_of_def MAXNTHREADS_def)

lemma start4:
  assumes "prodcons4_main items producers consumers = (n, s, ps, cs)" "1 \<le> producers" "1 \<le> consumers"
  shows "pc4.inv n (s, ps, cs) \<and> pc4.left n (s, ps, cs) = 20 * n + 6 * length ps + 5 * length cs"
  using assms buf_of_start [of shared4_init True n "nat (min producers MAXNTHREADS)" "nat (min consumers MAXNTHREADS)"]
  by (auto simp: prodcons4_main_def pc4.inv_def pc4.left_def ok4_def buf4_def bb_measure_def
      shared4_init_def buf_of_def MAXNTHREADS_def)

text \<open>
  The program with one producer and one consumer is correct in every interleaving: it takes at most
  \<open>20 n + 11\<close> steps for \<open>n\<close> items, the consumer prints no mismatch, and when no thread can step
  both have returned from their functions after \<open>n\<close> rounds.
\<close>

theorem prodcons1_correct:
  assumes "prodcons1_main items = (n, cfg)"
    and "(sys_step (produce1 n) (consume1 n) ^^ k) cfg (s, ps, cs)"
  shows "k \<le> 20 * n + 11 \<and> sh_out s = [] \<and>
    (stuck (produce1 n) (consume1 n) (s, ps, cs) \<longrightarrow>
       (\<exists>p c. ps = [p] \<and> cs = [c] \<and> p_pc p = PExit \<and> c_pc c = CExit \<and> p_i p = n \<and> c_i c = n))"
proof -
  have inv: "pc1.inv n (s, ps, cs)" and "k \<le> 20 * n + 11"
    using pc1.steps [OF assms(2)] start1 [OF assms(1)] by simp_all
  moreover have "sh_out s = []"
    using pc1.no_output [OF inv] by (simp add: buf1_def buf_of_def)
  moreover have "\<exists>p c. ps = [p] \<and> cs = [c] \<and> p_pc p = PExit \<and> c_pc c = CExit \<and> p_i p = n \<and> c_i c = n"
    if "stuck (produce1 n) (consume1 n) (s, ps, cs)"
    using pc1.stuck_finished [OF inv that] inv
    by (auto simp: pc1.inv_def ok1_def buf1_def finished_def buf_of_def put_by_def got_by_def)
  ultimately show ?thesis
    by simp
qed

theorem prodcons1_correct_witness:
  "\<exists>k s p c. (sys_step (produce1 1) (consume1 1) ^^ k) (snd (prodcons1_main 1)) (s, [p], [c]) \<and>
     sh_out s = [] \<and> p_i p = 1 \<and> c_i c = 1"
proof -
  have "runs_out (produce1 1) (consume1 1) (map Inl (replicate 6 0) @ map Inr (replicate 6 0)) (snd (prodcons1_main 1))"
    by code_simp
  then obtain k s ps cs where
    run: "(sys_step (produce1 1) (consume1 1) ^^ k) (snd (prodcons1_main 1)) (s, ps, cs)"
    and stuck: "stuck (produce1 1) (consume1 1) (s, ps, cs)"
    by (rule runs_outE)
  have main: "prodcons1_main 1 = (1, snd (prodcons1_main 1))"
    by (simp add: prodcons1_main_def)
  obtain p c where "ps = [p]" "cs = [c]" "p_i p = 1" "c_i c = 1" "sh_out s = []"
    using prodcons1_correct [OF main run] stuck by blast
  with run show ?thesis
    by blast
qed

text \<open>
  The program with several producers is correct in every interleaving: it takes at most
  \<open>20 n + 6 p + 5\<close> steps for \<open>n\<close> items and \<open>p \<ge> 1\<close> producers, the consumer prints no mismatch, and
  when no thread can step all have returned, all items have been put, and the counters the producers
  report add up to \<open>n\<close>.
\<close>

theorem prodcons3_correct:
  assumes "prodcons3_main items producers = (n, s0, ps0, cs0)" "1 \<le> producers"
    and "(sys_step (produce3 n) (consume3 n) ^^ k) (s0, ps0, cs0) (s, ps, cs)"
  shows "k \<le> 20 * n + 6 * length ps0 + 5 \<and> sh_out s = [] \<and>
    (stuck (produce3 n) (consume3 n) (s, ps, cs) \<longrightarrow>
       finished ps cs \<and> sh_nput s = n \<and> map c_i cs = [n] \<and> sum_list (map p_count ps) = n)"
proof -
  have inv: "pc3.inv n (s, ps, cs)" and "k \<le> 20 * n + 6 * length ps0 + 5"
    using pc3.steps [OF assms(3)] start3 [OF assms(1,2)] by simp_all
  moreover have "sh_out s = []"
    using pc3.no_output [OF inv] by (simp add: buf3_def buf_of_def)
  moreover have "finished ps cs \<and> sh_nput s = n \<and> map c_i cs = [n] \<and> sum_list (map p_count ps) = n"
    if "stuck (produce3 n) (consume3 n) (s, ps, cs)"
    using pc3.stuck_finished [OF inv that] inv finished_handled(1) [of ps cs]
    by (auto simp: pc3.inv_def ok3_def buf3_def finished_def buf_of_def got_by_def)
  ultimately show ?thesis
    by simp
qed

theorem prodcons3_correct_witness:
  "\<exists>k s ps cs. (sys_step (produce3 1) (consume3 1) ^^ k) (snd (prodcons3_main 1 2)) (s, ps, cs) \<and>
     sh_out s = [] \<and> finished ps cs \<and> sum_list (map p_count ps) = 1"
proof -
  have "runs_out (produce3 1) (consume3 1) (map Inl (replicate 10 0 @ replicate 5 1) @ map Inr (replicate 6 0)) (snd (prodcons3_main 1 2))"
    by code_simp
  then obtain k s ps cs where
    run: "(sys_step (produce3 1) (consume3 1) ^^ k) (snd (prodcons3_main 1 2)) (s, ps, cs)"
    and stuck: "stuck (produce3 1) (consume3 1) (s, ps, cs)"
    by (rule runs_outE)
  obtain s0 ps0 cs0 where main: "prodcons3_main 1 2 = (1, s0, ps0, cs0)" "snd (prodcons3_main 1 2) = (s0, ps0, cs0)"
    by (simp add: prodcons3_main_def)
  have "sh_out s = []" "finished ps cs" "sum_list (map p_count ps) = 1"
    using prodcons3_correct [OF main(1) _ run [unfolded main(2)]] stuck by simp_all
  with run show ?thesis
    by blast
qed

text \<open>
  C4. The program with several producers and several consumers is correct in every interleaving: it takes
  at most \<open>20 n + 6 p + 5 c\<close> steps for \<open>n\<close> items, \<open>p \<ge> 1\<close> producers and \<open>c \<ge> 1\<close> consumers, no
  consumer prints a mismatch although producers post an extra token when they leave, and when no
  thread can step all have returned, \<open>n\<close> items have been put and taken, and both lists of counters
  add up to \<open>n\<close>.
\<close>

theorem prodcons4_correct:
  assumes "prodcons4_main items producers consumers = (n, s0, ps0, cs0)" "1 \<le> producers" "1 \<le> consumers"
    and "(sys_step (produce4 n) (consume4 n) ^^ k) (s0, ps0, cs0) (s, ps, cs)"
  shows "k \<le> 20 * n + 6 * length ps0 + 5 * length cs0 \<and> sh_out s = [] \<and>
    (stuck (produce4 n) (consume4 n) (s, ps, cs) \<longrightarrow>
       finished ps cs \<and> sh_nput s = n \<and> sh_nget s = n \<and>
       sum_list (map p_count ps) = n \<and> sum_list (map c_count cs) = n)"
proof -
  have inv: "pc4.inv n (s, ps, cs)" and "k \<le> 20 * n + 6 * length ps0 + 5 * length cs0"
    using pc4.steps [OF assms(4)] start4 [OF assms(1-3)] by simp_all
  moreover have "sh_out s = []"
    using pc4.no_output [OF inv] by (simp add: buf4_def buf_of_def)
  moreover have "finished ps cs \<and> sh_nput s = n \<and> sh_nget s = n \<and>
      sum_list (map p_count ps) = n \<and> sum_list (map c_count cs) = n"
    if "stuck (produce4 n) (consume4 n) (s, ps, cs)"
    using pc4.stuck_finished [OF inv that] inv finished_handled [of ps cs]
    by (auto simp: pc4.inv_def ok4_def buf4_def buf_of_def)
  ultimately show ?thesis
    by simp
qed

theorem prodcons4_correct_witness:
  "\<exists>k s ps cs. (sys_step (produce4 1) (consume4 1) ^^ k) (snd (prodcons4_main 1 1 2)) (s, ps, cs) \<and>
     sh_out s = [] \<and> finished ps cs \<and> sum_list (map c_count cs) = 1"
proof -
  have "runs_out (produce4 1) (consume4 1) (map Inl (replicate 11 0) @ map Inr (replicate 10 0 @ replicate 5 1)) (snd (prodcons4_main 1 1 2))"
    by code_simp
  then obtain k s ps cs where
    run: "(sys_step (produce4 1) (consume4 1) ^^ k) (snd (prodcons4_main 1 1 2)) (s, ps, cs)"
    and stuck: "stuck (produce4 1) (consume4 1) (s, ps, cs)"
    by (rule runs_outE)
  obtain s0 ps0 cs0 where main: "prodcons4_main 1 1 2 = (1, s0, ps0, cs0)" "snd (prodcons4_main 1 1 2) = (s0, ps0, cs0)"
    by (simp add: prodcons4_main_def)
  have "sh_out s = []" "finished ps cs" "sum_list (map c_count cs) = 1"
    using prodcons4_correct [OF main(1) _ _ run [unfolded main(2)]] stuck by simp_all
  with run show ?thesis
    by blast
qed

end
