(* ===== verification/ProdConsMutex.thy ===== *)
theory ProdConsMutex
  imports Threads
begin

text \<open>
  The producer-consumer programs of \<^verbatim>\<open>src/unixipc/mutex\<close>, in which several producers fill
  an array and one consumer checks it: \<^verbatim>\<open>prodcons1.c\<close> (no synchronisation),
  \<^verbatim>\<open>prodcons2.c\<close> (a mutex between the producers, the consumer starts afterwards),
  \<^verbatim>\<open>prodcons3.c\<close> and \<^verbatim>\<open>prodcons4.c\<close> (the consumer polls), \<^verbatim>\<open>prodcons5.c\<close> to
  \<^verbatim>\<open>prodcons7.c\<close> (a condition variable). The section between the lock and the unlock of a
  mutex is one step; the two mutexes of \<^verbatim>\<open>prodcons6.c\<close> and \<^verbatim>\<open>prodcons7.c\<close> protect different data, so their sections
  are steps of their own; what a thread does outside a section is one step.
\<close>

subsection \<open>Shared data and threads\<close>

text \<open>
  \<open>ms_waiting\<close> says that the consumer is blocked in \<^verbatim>\<open>pthread_cond_wait\<close>,
  \<open>ms_spurious\<close> is the number of wake-ups without a signal that are still to come, \<open>ms_exited\<close>
  counts the producers that have returned and \<open>ms_out\<close> is the output of the consumer.
\<close>

record mshared =
  ms_buff :: "nat \<Rightarrow> int"
  ms_nput :: nat
  ms_nval :: int
  ms_nready :: nat
  ms_nsignals :: nat
  ms_waiting :: bool
  ms_spurious :: nat
  ms_exited :: nat
  ms_out :: "(nat \<times> int) list"

datatype mpc = MPut | MStore | MNput | MNval | MReady | MExit

record mthr =
  m_pc :: mpc
  m_count :: nat

datatype kpc = KJoin | KTest | KPoll | KWait | KRead | KExit

record kthr =
  k_pc :: kpc
  k_i :: nat

definition MAXNITEMS :: int where
  "MAXNITEMS = 1000000"

definition MMAXNTHREADS :: int where
  "MMAXNTHREADS = 100"

definition mshared_init :: "nat \<Rightarrow> mshared" where
  "mshared_init sp = \<lparr>ms_buff = (\<lambda>_. 0), ms_nput = 0, ms_nval = 0, ms_nready = 0, ms_nsignals = 0,
     ms_waiting = False, ms_spurious = sp, ms_exited = 0, ms_out = []\<rparr>"

definition new_mthr :: mthr where
  "new_mthr = \<lparr>m_pc = MPut, m_count = 0\<rparr>"

text \<open>The pieces the programs share: storing the next value, returning, checking an element.\<close>

definition put_item :: "mshared \<Rightarrow> mshared" where
  "put_item s = s\<lparr>ms_buff := (ms_buff s)(ms_nput s := ms_nval s), ms_nput := ms_nput s + 1, ms_nval := ms_nval s + 1\<rparr>"

definition m_return :: "mthr \<Rightarrow> mshared \<Rightarrow> mthr \<times> mshared" where
  "m_return t s = (t\<lparr>m_pc := MExit\<rparr>, s\<lparr>ms_exited := ms_exited s + 1\<rparr>)"

definition read_item :: "kthr \<Rightarrow> mshared \<Rightarrow> kthr \<times> mshared" where
  "read_item t s = (let i = k_i t; x = ms_buff s i in
     (t\<lparr>k_pc := KTest, k_i := i + 1\<rparr>, if x \<noteq> int i then s\<lparr>ms_out := ms_out s @ [(i, x)]\<rparr> else s))"

text \<open>\<^verbatim>\<open>pthread_cond_signal\<close> wakes the consumer if it waits.\<close>

definition cond_signal :: "mshared \<Rightarrow> mshared" where
  "cond_signal s = s\<lparr>ms_waiting := False\<rparr>"

subsection \<open>Without synchronisation\<close>

text \<open>\<^verbatim>\<open>prodcons1.c\<close>: every statement of \<^verbatim>\<open>produce\<close> is a step of its own.\<close>

fun mproduce1 :: "nat \<Rightarrow> mthr \<Rightarrow> mshared \<Rightarrow> (mthr \<times> mshared) option" where
  "mproduce1 nitems t s = (case m_pc t of
     MPut \<Rightarrow> if ms_nput s \<ge> nitems then Some (m_return t s) else Some (t\<lparr>m_pc := MStore\<rparr>, s)
   | MStore \<Rightarrow> Some (t\<lparr>m_pc := MNput\<rparr>, s\<lparr>ms_buff := (ms_buff s)(ms_nput s := ms_nval s)\<rparr>)
   | MNput \<Rightarrow> Some (t\<lparr>m_pc := MNval\<rparr>, s\<lparr>ms_nput := ms_nput s + 1\<rparr>)
   | MNval \<Rightarrow> Some (t\<lparr>m_pc := MPut, m_count := m_count t + 1\<rparr>, s\<lparr>ms_nval := ms_nval s + 1\<rparr>)
   | _ \<Rightarrow> None)"

text \<open>The consumer is created after the joins of all producers.\<close>

fun mconsume1 :: "nat \<Rightarrow> nat \<Rightarrow> kthr \<Rightarrow> mshared \<Rightarrow> (kthr \<times> mshared) option" where
  "mconsume1 nthreads nitems t s = (case k_pc t of
     KJoin \<Rightarrow> if ms_exited s = nthreads then Some (t\<lparr>k_pc := KTest\<rparr>, s) else None
   | KTest \<Rightarrow> if k_i t < nitems then Some (t\<lparr>k_pc := KRead\<rparr>, s) else Some (t\<lparr>k_pc := KExit\<rparr>, s)
   | KRead \<Rightarrow> Some (read_item t s)
   | _ \<Rightarrow> None)"

text \<open>\<^verbatim>\<open>main\<close>: the numbers of items and of threads are cut to the sizes of the arrays.\<close>

definition mprodcons1_main :: "int \<Rightarrow> int \<Rightarrow> nat \<times> nat \<times> mshared \<times> mthr list \<times> kthr list" where
  "mprodcons1_main items threads =
     (let nitems = nat (min items MAXNITEMS); nthreads = nat (min threads MMAXNTHREADS) in
      (nitems, nthreads, mshared_init 0, replicate nthreads new_mthr, [\<lparr>k_pc = KJoin, k_i = 0\<rparr>]))"

subsection \<open>A mutex between the producers\<close>

fun mproduce2 :: "nat \<Rightarrow> mthr \<Rightarrow> mshared \<Rightarrow> (mthr \<times> mshared) option" where
  "mproduce2 nitems t s = (case m_pc t of
     MPut \<Rightarrow> if ms_nput s \<ge> nitems then Some (m_return t s)
             else Some (t\<lparr>m_count := m_count t + 1\<rparr>, put_item s)
   | _ \<Rightarrow> None)"

definition mconsume2 :: "nat \<Rightarrow> nat \<Rightarrow> kthr \<Rightarrow> mshared \<Rightarrow> (kthr \<times> mshared) option" where
  "mconsume2 = mconsume1"

definition mprodcons2_main :: "int \<Rightarrow> int \<Rightarrow> nat \<times> nat \<times> mshared \<times> mthr list \<times> kthr list" where
  "mprodcons2_main items threads =
     (let nitems = nat (min items MAXNITEMS); nthreads = nat (min threads MMAXNTHREADS) in
      (nitems, nthreads, mshared_init 0, replicate nthreads new_mthr, [\<lparr>k_pc = KJoin, k_i = 0\<rparr>]))"

subsection \<open>A consumer that polls\<close>

definition mproduce3 :: "nat \<Rightarrow> mthr \<Rightarrow> mshared \<Rightarrow> (mthr \<times> mshared) option" where
  "mproduce3 = mproduce2"

text \<open>One round of the loop of \<^verbatim>\<open>consume_wait\<close>; an unsuccessful round changes nothing.\<close>

definition consume_wait3 :: "kthr \<Rightarrow> mshared \<Rightarrow> (kthr \<times> mshared) option" where
  "consume_wait3 t s = (if k_i t < ms_nput s then Some (t\<lparr>k_pc := KRead\<rparr>, s) else Some (t, s))"

fun mconsume3 :: "nat \<Rightarrow> kthr \<Rightarrow> mshared \<Rightarrow> (kthr \<times> mshared) option" where
  "mconsume3 nitems t s = (case k_pc t of
     KTest \<Rightarrow> if k_i t < nitems then Some (t\<lparr>k_pc := KPoll\<rparr>, s) else Some (t\<lparr>k_pc := KExit\<rparr>, s)
   | KPoll \<Rightarrow> consume_wait3 t s
   | KRead \<Rightarrow> Some (read_item t s)
   | _ \<Rightarrow> None)"

definition mprodcons3_main :: "int \<Rightarrow> int \<Rightarrow> nat \<times> mshared \<times> mthr list \<times> kthr list" where
  "mprodcons3_main items threads =
     (nat (min items MAXNITEMS), mshared_init 0, replicate (nat (min threads MMAXNTHREADS)) new_mthr,
      [\<lparr>k_pc = KTest, k_i = 0\<rparr>])"

text \<open>\<^verbatim>\<open>prodcons4.c\<close> calls \<^verbatim>\<open>sched_yield\<close> in each round, which does not touch the data.\<close>

definition mproduce4 :: "nat \<Rightarrow> mthr \<Rightarrow> mshared \<Rightarrow> (mthr \<times> mshared) option" where
  "mproduce4 = mproduce2"

definition consume_wait4 :: "kthr \<Rightarrow> mshared \<Rightarrow> (kthr \<times> mshared) option" where
  "consume_wait4 = consume_wait3"

definition mconsume4 :: "nat \<Rightarrow> kthr \<Rightarrow> mshared \<Rightarrow> (kthr \<times> mshared) option" where
  "mconsume4 = mconsume3"

definition mprodcons4_main :: "int \<Rightarrow> int \<Rightarrow> nat \<times> mshared \<times> mthr list \<times> kthr list" where
  "mprodcons4_main items threads =
     (nat (min items MAXNITEMS), mshared_init 0, replicate (nat (min threads MMAXNTHREADS)) new_mthr,
      [\<lparr>k_pc = KTest, k_i = 0\<rparr>])"

subsection \<open>A condition variable\<close>

text \<open>\<^verbatim>\<open>prodcons5.c\<close>: one section stores the item, counts it and signals.\<close>

fun mproduce5 :: "nat \<Rightarrow> mthr \<Rightarrow> mshared \<Rightarrow> (mthr \<times> mshared) option" where
  "mproduce5 nitems t s = (case m_pc t of
     MPut \<Rightarrow> if ms_nput s \<ge> nitems then Some (m_return t s)
             else (let s' = put_item s in
               Some (t\<lparr>m_count := m_count t + 1\<rparr>, cond_signal (s'\<lparr>ms_nready := ms_nready s' + 1\<rparr>)))
   | _ \<Rightarrow> None)"

text \<open>
  The loop of \<^verbatim>\<open>consume\<close> from the test of \<^verbatim>\<open>nready\<close>, at the start of the section
  and at each return of \<^verbatim>\<open>pthread_cond_wait\<close>.
\<close>

definition take_ready :: "kthr \<Rightarrow> mshared \<Rightarrow> kthr \<times> mshared" where
  "take_ready t s = (if ms_nready s = 0 then (t\<lparr>k_pc := KWait\<rparr>, s\<lparr>ms_waiting := True\<rparr>)
     else (t\<lparr>k_pc := KRead\<rparr>, s\<lparr>ms_nready := ms_nready s - 1, ms_waiting := False\<rparr>))"

fun mconsume5 :: "nat \<Rightarrow> kthr \<Rightarrow> mshared \<Rightarrow> (kthr \<times> mshared) option" where
  "mconsume5 nitems t s = (case k_pc t of
     KTest \<Rightarrow> if k_i t < nitems then Some (take_ready t s) else Some (t\<lparr>k_pc := KExit\<rparr>, s)
   | KWait \<Rightarrow> if \<not> ms_waiting s then Some (take_ready t s)
       else if ms_spurious s > 0 then Some (take_ready t (s\<lparr>ms_spurious := ms_spurious s - 1\<rparr>)) else None
   | KRead \<Rightarrow> Some (read_item t s)
   | _ \<Rightarrow> None)"

definition mprodcons5_main :: "nat \<Rightarrow> int \<Rightarrow> int \<Rightarrow> nat \<times> mshared \<times> mthr list \<times> kthr list" where
  "mprodcons5_main sp items threads =
     (nat (min items MAXNITEMS), mshared_init sp, replicate (nat (min threads MMAXNTHREADS)) new_mthr,
      [\<lparr>k_pc = KTest, k_i = 0\<rparr>])"

text \<open>
  \<^verbatim>\<open>prodcons6.c\<close>: the item is stored in the section of \<^verbatim>\<open>put.mutex\<close> and counted in the section of
  \<^verbatim>\<open>nready.mutex\<close>, which signals only when the count was zero.
\<close>

definition count_ready6 :: "mshared \<Rightarrow> mshared" where
  "count_ready6 s = (let s' = (if ms_nready s = 0 then cond_signal s else s) in s'\<lparr>ms_nready := ms_nready s' + 1\<rparr>)"

fun mproduce6 :: "nat \<Rightarrow> mthr \<Rightarrow> mshared \<Rightarrow> (mthr \<times> mshared) option" where
  "mproduce6 nitems t s = (case m_pc t of
     MPut \<Rightarrow> if ms_nput s \<ge> nitems then Some (m_return t s) else Some (t\<lparr>m_pc := MReady\<rparr>, put_item s)
   | MReady \<Rightarrow> Some (t\<lparr>m_pc := MPut, m_count := m_count t + 1\<rparr>, count_ready6 s)
   | _ \<Rightarrow> None)"

definition mconsume6 :: "nat \<Rightarrow> kthr \<Rightarrow> mshared \<Rightarrow> (kthr \<times> mshared) option" where
  "mconsume6 = mconsume5"

definition mprodcons6_main :: "nat \<Rightarrow> int \<Rightarrow> int \<Rightarrow> nat \<times> mshared \<times> mthr list \<times> kthr list" where
  "mprodcons6_main sp items threads =
     (nat (min items MAXNITEMS), mshared_init sp, replicate (nat (min threads MMAXNTHREADS)) new_mthr,
      [\<lparr>k_pc = KTest, k_i = 0\<rparr>])"

text \<open>\<^verbatim>\<open>prodcons7.c\<close> also counts the signals.\<close>

definition count_ready7 :: "mshared \<Rightarrow> mshared" where
  "count_ready7 s = (let s' = (if ms_nready s = 0 then (cond_signal s)\<lparr>ms_nsignals := ms_nsignals s + 1\<rparr> else s)
     in s'\<lparr>ms_nready := ms_nready s' + 1\<rparr>)"

fun mproduce7 :: "nat \<Rightarrow> mthr \<Rightarrow> mshared \<Rightarrow> (mthr \<times> mshared) option" where
  "mproduce7 nitems t s = (case m_pc t of
     MPut \<Rightarrow> if ms_nput s \<ge> nitems then Some (m_return t s) else Some (t\<lparr>m_pc := MReady\<rparr>, put_item s)
   | MReady \<Rightarrow> Some (t\<lparr>m_pc := MPut, m_count := m_count t + 1\<rparr>, count_ready7 s)
   | _ \<Rightarrow> None)"

definition mconsume7 :: "nat \<Rightarrow> kthr \<Rightarrow> mshared \<Rightarrow> (kthr \<times> mshared) option" where
  "mconsume7 = mconsume5"

definition mprodcons7_main :: "nat \<Rightarrow> int \<Rightarrow> int \<Rightarrow> nat \<times> mshared \<times> mthr list \<times> kthr list" where
  "mprodcons7_main sp items threads =
     (nat (min items MAXNITEMS), mshared_init sp, replicate (nat (min threads MMAXNTHREADS)) new_mthr,
      [\<lparr>k_pc = KTest, k_i = 0\<rparr>])"

subsection \<open>The invariant\<close>

text \<open>
  How the consumer knows that an item is there; with a condition variable the producers store and
  count an item in one section, or in two.
\<close>

datatype mode = Joins | Polls | is_Waits: Waits (two_sections: bool)

fun m_pend :: "mpc \<Rightarrow> nat" where
  "m_pend MReady = 1"
| "m_pend _ = 0"

fun m_exit :: "mpc \<Rightarrow> nat" where
  "m_exit MExit = 1"
| "m_exit _ = 0"

fun m_rank :: "mpc \<Rightarrow> nat" where
  "m_rank MPut = 1"
| "m_rank MReady = 3"
| "m_rank _ = 0"

fun k_rank :: "kpc \<Rightarrow> nat" where
  "k_rank KJoin = 4"
| "k_rank KTest = 3"
| "k_rank KPoll = 2"
| "k_rank KWait = 2"
| "k_rank KRead = 1"
| "k_rank KExit = 0"

definition k_taken :: "kthr \<Rightarrow> nat" where
  "k_taken k = k_i k + (if k_pc k = KRead then 1 else 0)"

text \<open>The array holds its own indices below \<open>nput\<close> and is untouched above; nothing was printed.\<close>

definition arr_ok :: "nat \<Rightarrow> mshared \<Rightarrow> bool" where
  "arr_ok n s \<longleftrightarrow> ms_nval s = int (ms_nput s) \<and> ms_nput s \<le> n \<and> ms_out s = [] \<and>
     (\<forall>j. j < ms_nput s \<longrightarrow> ms_buff s j = int j) \<and> (\<forall>j. ms_nput s \<le> j \<longrightarrow> ms_buff s j = 0)"

definition mthr_ok :: "mode \<Rightarrow> nat \<Rightarrow> mshared \<Rightarrow> mthr \<Rightarrow> bool" where
  "mthr_ok mode n s t \<longleftrightarrow> m_pc t \<in> {MPut, MReady, MExit} \<and> (m_pc t = MReady \<longrightarrow> mode = Waits True) \<and> (m_pc t = MExit \<longrightarrow> n \<le> ms_nput s)"

abbreviation m_handled :: "mthr \<Rightarrow> nat" where
  "m_handled t \<equiv> m_count t + m_pend (m_pc t)"

abbreviation m_exited :: "mthr \<Rightarrow> nat" where
  "m_exited t \<equiv> m_exit (m_pc t)"

definition prods_ok :: "mode \<Rightarrow> nat \<Rightarrow> mshared \<Rightarrow> mthr list \<Rightarrow> bool" where
  "prods_ok mode n s ps \<longleftrightarrow> (\<forall>t \<in> set ps. mthr_ok mode n s t) \<and> wsum m_handled ps = ms_nput s \<and> wsum m_exited ps = ms_exited s"

text \<open>
  The consumer: what it has taken is there. With a condition variable the items counted ready,
  those taken and those not yet counted add up, and the consumer is blocked only at zero.
\<close>

fun cons_ok :: "mode \<Rightarrow> nat \<Rightarrow> mshared \<Rightarrow> nat \<Rightarrow> nat \<Rightarrow> kthr \<Rightarrow> bool" where
  "cons_ok Joins n s np pend k \<longleftrightarrow> k_pc k \<in> {KJoin, KTest, KRead, KExit} \<and> (k_pc k \<noteq> KJoin \<longrightarrow> ms_exited s = np)"
| "cons_ok Polls n s np pend k \<longleftrightarrow> k_pc k \<in> {KTest, KPoll, KRead, KExit} \<and> k_taken k \<le> ms_nput s"
| "cons_ok (Waits two) n s np pend k \<longleftrightarrow> k_pc k \<in> {KTest, KWait, KRead, KExit} \<and>
     ms_nready s + k_taken k + pend = ms_nput s \<and>
     (ms_waiting s \<longrightarrow> k_pc k = KWait) \<and> (k_pc k = KWait \<longrightarrow> ms_waiting s = (ms_nready s = 0))"

definition m_inv :: "mode \<Rightarrow> nat \<Rightarrow> mshared \<times> mthr list \<times> kthr list \<Rightarrow> bool" where
  "m_inv mode n cfg \<longleftrightarrow> (case cfg of (s, ps, cs) \<Rightarrow> arr_ok n s \<and> prods_ok mode n s ps \<and> ps \<noteq> [] \<and>
     (\<exists>k. cs = [k] \<and> k_i k \<le> n \<and> (k_pc k \<in> {KRead, KPoll, KWait} \<longrightarrow> k_i k < n) \<and> (k_pc k = KExit \<longrightarrow> k_i k = n) \<and>
       cons_ok mode n s (length ps) (wsum (\<lambda>t. m_pend (m_pc t)) ps) k))"

definition m_left :: "nat \<Rightarrow> mshared \<times> mthr list \<times> kthr list \<Rightarrow> nat" where
  "m_left n cfg = (case cfg of (s, ps, cs) \<Rightarrow>
     4 * (n - ms_nput s) + wsum (\<lambda>t. m_rank (m_pc t)) ps + wsum (\<lambda>k. 4 * (n - k_i k) + k_rank (k_pc k)) cs + ms_spurious s)"

lemma all_exited:
  assumes "prods_ok mode n s ps" "ps \<noteq> []" "ms_exited s = length ps"
  shows "n \<le> ms_nput s \<and> (\<forall>t \<in> set ps. m_pc t = MExit)"
proof -
  have "m_exit x \<le> 1" for x
    by (cases x) simp_all
  then have "\<forall>t \<in> set ps. m_exited t = 1"
    using assms by (intro wsum_full) (simp_all add: prods_ok_def)
  then have "m_pc t = MExit" if "t \<in> set ps" for t
    using that by (cases "m_pc t") fastforce+
  moreover from this have "n \<le> ms_nput s"
    using assms(1,2) by (cases ps) (auto simp: prods_ok_def mthr_ok_def)
  ultimately show ?thesis
    by simp
qed

text \<open>What a step of a producer does to its own thread and to the counters.\<close>

definition m_law :: "mode \<Rightarrow> nat \<Rightarrow> mthr \<Rightarrow> mshared \<Rightarrow> mthr \<Rightarrow> mshared \<Rightarrow> bool" where
  "m_law mode n t s t' s' \<longleftrightarrow> arr_ok n s' \<and> mthr_ok mode n s' t' \<and> ms_nput s \<le> ms_nput s' \<and> ms_spurious s' = ms_spurious s \<and>
     ms_exited s \<le> ms_exited s' \<and> m_handled t' + ms_nput s = m_handled t + ms_nput s' \<and>
     m_exited t' + ms_exited s = m_exited t + ms_exited s' \<and>
     4 * (n - ms_nput s') + m_rank (m_pc t') < 4 * (n - ms_nput s) + m_rank (m_pc t) \<and>
     (is_Waits mode \<longrightarrow> ms_nready s' + m_pend (m_pc t') + ms_nput s = ms_nready s + m_pend (m_pc t) + ms_nput s' \<and>
       (ms_waiting s' \<longrightarrow> ms_waiting s) \<and> (ms_nready s' = ms_nready s \<longrightarrow> ms_waiting s' = ms_waiting s) \<and>
       ms_nready s \<le> ms_nready s' \<and> (ms_nready s = 0 \<longrightarrow> ms_nready s' > 0 \<longrightarrow> \<not> ms_waiting s'))"

lemma m_lawD:
  assumes "m_law mode n t s t' s'"
  shows "arr_ok n s'" "mthr_ok mode n s' t'" "ms_nput s \<le> ms_nput s'" "ms_spurious s' = ms_spurious s"
    "m_handled t' + ms_nput s = m_handled t + ms_nput s'"
    "m_exited t' + ms_exited s = m_exited t + ms_exited s'"
    "4 * (n - ms_nput s') + m_rank (m_pc t') < 4 * (n - ms_nput s) + m_rank (m_pc t)"
    "is_Waits mode \<Longrightarrow> ms_nready s' + m_pend (m_pc t') + ms_nput s = ms_nready s + m_pend (m_pc t) + ms_nput s'"
    "is_Waits mode \<Longrightarrow> (ms_waiting s' \<longrightarrow> ms_waiting s) \<and> (ms_nready s' = ms_nready s \<longrightarrow> ms_waiting s' = ms_waiting s) \<and>
       ms_nready s \<le> ms_nready s' \<and> (ms_nready s = 0 \<longrightarrow> ms_nready s' > 0 \<longrightarrow> \<not> ms_waiting s')"
    "ms_exited s \<le> ms_exited s'"
  using assms by (simp_all add: m_law_def)

lemma prods_step:
  assumes law: "m_law mode n (ps ! i) s t s'" and i: "i < length ps" and ok: "prods_ok mode n s ps"
  shows "prods_ok mode n s' (ps[i := t])"
proof -
  have "mthr_ok mode n s' u" if "u \<in> set ps" for u
    using ok that m_lawD(3) [OF law] by (auto simp: prods_ok_def mthr_ok_def)
  then have "\<forall>u \<in> set (ps[i := t]). mthr_ok mode n s' u"
    using m_lawD(2) [OF law] by (intro set_update_all) simp_all
  moreover have "wsum m_handled (ps[i := t]) = ms_nput s'"
    using wsum_update [OF i, of m_handled t] m_lawD(5) [OF law] ok by (simp add: prods_ok_def)
  moreover have "wsum m_exited (ps[i := t]) = ms_exited s'"
    using wsum_update [OF i, of m_exited t] m_lawD(6) [OF law] ok by (simp add: prods_ok_def)
  ultimately show ?thesis
    by (simp add: prods_ok_def)
qed

lemma cons_ok_step:
  assumes law: "m_law mode n (ps ! i) s t s'" and i: "i < length ps"
    and ok: "prods_ok mode n s ps"
    and c: "cons_ok mode n s (length ps) (wsum (\<lambda>t. m_pend (m_pc t)) ps) k"
  shows "cons_ok mode n s' (length ps) (wsum (\<lambda>t. m_pend (m_pc t)) (ps[i := t])) k"
proof (cases mode)
  case Joins
  have "ms_exited s' = length ps" if "ms_exited s = length ps"
  proof -
    have "length ps \<le> ms_exited s'"
      using m_lawD(10) [OF law] that by simp
    moreover have "m_exit x \<le> 1" for x
      by (cases x) simp_all
    then have "ms_exited s' \<le> length ps"
      using prods_step [OF law i ok] wsum_le_length [of m_exited "ps[i := t]"] by (simp add: prods_ok_def)
    ultimately show ?thesis
      by simp
  qed
  with c Joins show ?thesis
    by auto
next
  case Polls
  with c m_lawD(3) [OF law] show ?thesis
    by auto
next
  case (Waits two)
  then show ?thesis
    using c m_lawD(8,9) [OF law] wsum_update [OF i, of "\<lambda>t. m_pend (m_pc t)" t] by auto
qed

subsection \<open>Programs that fill the array\<close>

text \<open>
  The laws of a pair of thread programs: the steps of a producer obey \<open>m_law\<close>, the steps of the
  consumer that change something keep the invariant and use up the measure, and a thread that does
  not step has returned or has to wait for an item.
\<close>

locale array_filling =
  fixes P :: "(mthr, mshared) prog" and C :: "(kthr, mshared) prog" and mode :: mode and n :: nat and np :: nat
  assumes P_law: "arr_ok n s \<Longrightarrow> mthr_ok mode n s t \<Longrightarrow> P t s = Some (t', s') \<Longrightarrow> m_law mode n t s t' s'"
    and C_law: "m_inv mode n (s, ps, [k]) \<Longrightarrow> length ps = np \<Longrightarrow> C k s = Some (k', s') \<Longrightarrow> (k', s') \<noteq> (k, s) \<Longrightarrow>
      m_inv mode n (s', ps, [k']) \<and> m_left n (s', ps, [k']) < m_left n (s, ps, [k])"
    and P_idle: "mthr_ok mode n s t \<Longrightarrow> P t s = None \<Longrightarrow> m_pc t = MExit"
    and C_idle: "m_inv mode n (s, ps, [k]) \<Longrightarrow> length ps = np \<Longrightarrow> C k s \<in> {None, Some (k, s)} \<Longrightarrow>
      k_pc k = KExit \<or> k_pc k = KJoin \<and> ms_exited s \<noteq> length ps \<or> k_pc k = KPoll \<and> ms_nput s \<le> k_i k \<or>
      k_pc k = KWait \<and> ms_waiting s"
begin

definition inv :: "mshared \<times> mthr list \<times> kthr list \<Rightarrow> bool" where
  "inv cfg \<longleftrightarrow> m_inv mode n cfg \<and> length (fst (snd cfg)) = np"

lemma progress_inv:
  assumes "progress P C cfg cfg'" "inv cfg"
  shows "inv cfg' \<and> m_left n cfg' < m_left n cfg"
proof -
  from assms(1) have "sys_step P C cfg cfg'" and neq: "cfg' \<noteq> cfg"
    by (simp_all add: progress_def)
  from this(1) show ?thesis
  proof cases
    case (producer i ps s t s' cs)
    from assms(2) producer(1) obtain k where inv: "arr_ok n s" "prods_ok mode n s ps" "ps \<noteq> []" "length ps = np"
      and k: "cs = [k]" "cons_ok mode n s (length ps) (wsum (\<lambda>t. m_pend (m_pc t)) ps) k"
        "k_i k \<le> n" "k_pc k \<in> {KRead, KPoll, KWait} \<longrightarrow> k_i k < n" "k_pc k = KExit \<longrightarrow> k_i k = n"
      by (auto simp: inv_def m_inv_def)
    have "mthr_ok mode n s (ps ! i)"
      using inv(2) producer(3) by (simp add: prods_ok_def)
    from P_law [OF inv(1) this producer(4)] have law: "m_law mode n (ps ! i) s t s'" .
    have "m_inv mode n (s', ps[i := t], cs)"
      using m_lawD(1) [OF law] prods_step [OF law producer(3) inv(2)]
        cons_ok_step [OF law producer(3) inv(2) k(2)] inv(3) k(1,3-5)
      by (simp add: m_inv_def)
    moreover have "m_left n (s', ps[i := t], cs) < m_left n (s, ps, cs)"
      using wsum_update [OF producer(3), of "\<lambda>t. m_rank (m_pc t)" t] m_lawD(4,7) [OF law]
      by (simp add: m_left_def)
    ultimately show ?thesis
      using inv(4) producer(1,2) by (simp add: inv_def)
  next
    case (consumer i cs s k' s' ps)
    from assms(2) consumer(1,3) obtain k where k: "cs = [k]" "i = 0" and inv: "m_inv mode n (s, ps, [k])" "length ps = np"
      by (auto simp: inv_def m_inv_def)
    have "C k s = Some (k', s')" "(k', s') \<noteq> (k, s)"
      using consumer k neq by auto
    from C_law [OF inv this] show ?thesis
      using consumer(1,2) k inv(2) by (simp add: inv_def)
  qed
qed

lemma idle_finished:
  assumes inv: "inv (s, ps, cs)" and idle: "\<nexists>cfg. progress P C (s, ps, cs) cfg"
  shows "(\<forall>t \<in> set ps. m_pc t = MExit) \<and> map k_pc cs = [KExit] \<and> ms_nput s = n \<and> map k_i cs = [n] \<and>
    sum_list (map m_count ps) = n"
proof -
  obtain k where k: "cs = [k]" and m: "m_inv mode n (s, ps, [k])" and ps: "ps \<noteq> []" "length ps = np"
    using inv by (auto simp: inv_def m_inv_def)
  have ok: "arr_ok n s" "prods_ok mode n s ps"
    using m by (simp_all add: m_inv_def)
  have exit: "m_pc t = MExit" if mem: "t \<in> set ps" for t
  proof (cases "P t s")
    case None
    then show ?thesis
      using P_idle ok(2) mem by (auto simp: prods_ok_def)
  next
    case (Some r)
    then obtain t' s' where r: "P t s = Some (t', s')"
      by (cases r) auto
    have "mthr_ok mode n s t"
      using ok(2) mem by (simp add: prods_ok_def)
    from m_lawD(7) [OF P_law [OF ok(1) this r]] have "t' \<noteq> t \<or> s' \<noteq> s"
      by auto
    moreover obtain i where i: "i < length ps" "ps ! i = t"
      using mem by (auto simp: in_set_conv_nth)
    ultimately have "progress P C (s, ps, cs) (s', ps[i := t'], cs)"
      using r by (auto simp: progress_def list_update_same_conv intro!: sys_step.producer)
    with idle show ?thesis
      by blast
  qed
  have full: "ms_nput s = n"
    using ok exit ps by (cases ps) (auto simp: arr_ok_def prods_ok_def mthr_ok_def)
  have sum: "wsum m_handled ps = sum_list (map m_count ps)" "wsum m_exited ps = length ps"
    "wsum (\<lambda>t. m_pend (m_pc t)) ps = 0"
    using exit by (induction ps) auto
  have "C k s \<in> {None, Some (k, s)}"
  proof (rule ccontr)
    assume "C k s \<notin> {None, Some (k, s)}"
    then obtain k' s' where "C k s = Some (k', s')" "(k', s') \<noteq> (k, s)"
      by auto
    then have "progress P C (s, ps, [k]) (s', ps, [k'])"
      using sys_step.consumer [of 0 "[k]" C s k' s' P ps] by (auto simp: progress_def)
    with idle k show False
      by blast
  qed
  note idle_at = C_idle [OF m ps(2) this]
  have c: "cons_ok mode n s (length ps) 0 k" and lt: "k_pc k \<in> {KRead, KPoll, KWait} \<longrightarrow> k_i k < n"
    and last: "k_pc k = KExit \<longrightarrow> k_i k = n"
    using m sum(3) by (simp_all add: m_inv_def)
  have exited: "ms_exited s = length ps" "sum_list (map m_count ps) = n"
    using ok(2) sum(1,2) full by (simp_all add: prods_ok_def)
  have "\<not> (k_pc k = KWait \<and> ms_waiting s)"
    using c lt full by (cases mode) (auto simp: k_taken_def)
  with idle_at exited(1) lt full have "k_pc k = KExit"
    by auto
  with last full exit exited(2) k show ?thesis
    by simp
qed

end

sublocale array_filling \<subseteq> draining "progress P C" inv "m_left n"
  by unfold_locales (rule progress_inv)

text \<open>The end of a run: all threads have returned and all items were put and checked.\<close>

definition all_done :: "nat \<Rightarrow> mshared \<Rightarrow> mthr list \<Rightarrow> kthr list \<Rightarrow> bool" where
  "all_done n s ps cs \<longleftrightarrow> (\<forall>t \<in> set ps. m_pc t = MExit) \<and> map k_pc cs = [KExit] \<and> ms_nput s = n \<and> map k_i cs = [n] \<and>
     sum_list (map m_count ps) = n"

context array_filling
begin

lemma outcome:
  assumes "inv cfg" "(progress P C ^^ k) cfg (s, ps, cs)"
  shows "k \<le> m_left n cfg \<and> ms_out s = [] \<and> (\<forall>j. n \<le> j \<longrightarrow> ms_buff s j = 0) \<and>
    ((\<nexists>cfg'. progress P C (s, ps, cs) cfg') \<longrightarrow> all_done n s ps cs)"
proof -
  have fin: "inv (s, ps, cs)" and "k \<le> m_left n cfg"
    using steps [OF assms(2,1)] by simp_all
  moreover have "arr_ok n s"
    using fin by (simp add: inv_def m_inv_def)
  then have "ms_out s = [] \<and> (\<forall>j. n \<le> j \<longrightarrow> ms_buff s j = 0)"
    by (auto simp: arr_ok_def)
  ultimately show ?thesis
    using idle_finished [OF fin] by (simp add: all_done_def)
qed

end

subsection \<open>The programs obey the laws\<close>

lemmas m_steps = put_item_def m_return_def read_item_def cond_signal_def take_ready_def
  count_ready6_def count_ready7_def consume_wait3_def Let_def

lemmas m_oks = m_law_def arr_ok_def mthr_ok_def

lemma mproduce2_law:
  assumes "arr_ok n s" "mthr_ok mode n s t" "mproduce2 n t s = Some (t', s')" "\<not> is_Waits mode"
  shows "m_law mode n t s t' s'"
  using assms by (cases "m_pc t") (auto simp: m_oks m_steps split: if_splits)

lemma mproduce5_law:
  assumes "arr_ok n s" "mthr_ok (Waits False) n s t" "mproduce5 n t s = Some (t', s')"
  shows "m_law (Waits False) n t s t' s'"
  using assms by (cases "m_pc t") (auto simp: m_oks m_steps split: if_splits)

lemma mproduce6_law:
  assumes "arr_ok n s" "mthr_ok (Waits True) n s t" "mproduce6 n t s = Some (t', s')"
  shows "m_law (Waits True) n t s t' s'"
  using assms by (cases "m_pc t") (auto simp: m_oks m_steps split: if_splits)

lemma mproduce7_law:
  assumes "arr_ok n s" "mthr_ok (Waits True) n s t" "mproduce7 n t s = Some (t', s')"
  shows "m_law (Waits True) n t s t' s'"
  using assms by (cases "m_pc t") (auto simp: m_oks m_steps split: if_splits)

lemma read_item_ok:
  assumes "arr_ok n s" "k_i k < ms_nput s"
  shows "read_item k s = (k\<lparr>k_pc := KTest, k_i := k_i k + 1\<rparr>, s)"
  using assms by (simp add: read_item_def arr_ok_def)

lemma kthr_upd_same [simp]:
  "k\<lparr>k_pc := x\<rparr> = k \<longleftrightarrow> k_pc k = x" "k\<lparr>k_pc := x, k_i := y\<rparr> = k \<longleftrightarrow> k_pc k = x \<and> k_i k = y"
  by (cases k; auto)+

lemma mconsume1_law:
  assumes inv: "m_inv Joins n (s, ps, [k])" and len: "length ps = np" and step: "mconsume1 np n k s = Some (k', s')"
  shows "m_inv Joins n (s', ps, [k']) \<and> m_left n (s', ps, [k']) < m_left n (s, ps, [k])"
proof -
  have ok: "arr_ok n s" "prods_ok Joins n s ps" "ps \<noteq> []"
    using inv by (simp_all add: m_inv_def)
  have "n \<le> ms_nput s" if "k_pc k \<noteq> KJoin"
    using inv that all_exited [OF ok(2,3)] by (simp add: m_inv_def)
  then have "read_item k s = (k\<lparr>k_pc := KTest, k_i := k_i k + 1\<rparr>, s)" if "k_pc k = KRead"
    using read_item_ok [OF ok(1)] inv that by (auto simp: m_inv_def)
  then show ?thesis
    using inv step len by (cases "k_pc k") (auto simp: m_inv_def m_left_def split: if_splits)
qed

lemma mconsume3_law:
  assumes inv: "m_inv Polls n (s, ps, [k])" and step: "mconsume3 n k s = Some (k', s')" "(k', s') \<noteq> (k, s)"
  shows "m_inv Polls n (s', ps, [k']) \<and> m_left n (s', ps, [k']) < m_left n (s, ps, [k])"
proof -
  have "read_item k s = (k\<lparr>k_pc := KTest, k_i := k_i k + 1\<rparr>, s)" if "k_pc k = KRead"
    using inv that by (intro read_item_ok) (auto simp: m_inv_def k_taken_def)
  then show ?thesis
    using inv step
    by (cases "k_pc k") (auto simp: m_inv_def m_left_def k_taken_def consume_wait3_def split: if_splits)
qed

lemma cond_fields [simp]:
  "arr_ok n (s\<lparr>ms_nready := x\<rparr>) = arr_ok n s" "arr_ok n (s\<lparr>ms_waiting := w\<rparr>) = arr_ok n s"
  "arr_ok n (s\<lparr>ms_spurious := x\<rparr>) = arr_ok n s" "prods_ok mode n (s\<lparr>ms_nready := x\<rparr>) ps = prods_ok mode n s ps"
  "prods_ok mode n (s\<lparr>ms_waiting := w\<rparr>) ps = prods_ok mode n s ps"
  "prods_ok mode n (s\<lparr>ms_spurious := x\<rparr>) ps = prods_ok mode n s ps"
  by (simp_all add: arr_ok_def prods_ok_def mthr_ok_def)

lemma mconsume5_law:
  assumes inv: "m_inv (Waits two) n (s, ps, [k])" and step: "mconsume5 n k s = Some (k', s')"
  shows "m_inv (Waits two) n (s', ps, [k']) \<and> m_left n (s', ps, [k']) < m_left n (s, ps, [k])"
proof -
  have "read_item k s = (k\<lparr>k_pc := KTest, k_i := k_i k + 1\<rparr>, s)" if "k_pc k = KRead"
    using inv that by (intro read_item_ok) (auto simp: m_inv_def k_taken_def)
  then show ?thesis
    using inv step
    by (cases "k_pc k")
       (auto simp: m_inv_def m_left_def k_taken_def take_ready_def split: if_splits)
qed

interpretation mpc2: array_filling "mproduce2 n" "mconsume2 np n" Joins n np for n np
proof (unfold_locales, goal_cases)
  case 1 then show ?case by (auto intro: mproduce2_law)
next
  case 2 then show ?case unfolding mconsume2_def by (intro mconsume1_law) simp_all
next
  case (3 s t) then show ?case by (cases "m_pc t") (auto simp: mthr_ok_def split: if_splits)
next
  case (4 s ps k) then show ?case
    by (cases "k_pc k") (auto simp: mconsume2_def m_inv_def read_item_def Let_def split: if_splits)
qed

interpretation mpc3: array_filling "mproduce3 n" "mconsume3 n" Polls n np for n np
proof (unfold_locales, goal_cases)
  case 1 then show ?case unfolding mproduce3_def by (auto intro: mproduce2_law)
next
  case 2 then show ?case by (intro mconsume3_law) simp_all
next
  case (3 s t) then show ?case by (cases "m_pc t") (auto simp: mproduce3_def mthr_ok_def split: if_splits)
next
  case (4 s ps k) then show ?case
    by (cases "k_pc k") (auto simp: m_inv_def read_item_def consume_wait3_def Let_def split: if_splits)
qed

lemma mconsume5_idle:
  assumes "m_inv (Waits two) n (s, ps, [k])" "mconsume5 n k s \<in> {None, Some (k, s)}"
  shows "k_pc k = KExit \<or> k_pc k = KWait \<and> ms_waiting s"
  using assms
  by (cases "k_pc k") (auto simp: m_inv_def read_item_def take_ready_def Let_def split: if_splits)

interpretation mpc5: array_filling "mproduce5 n" "mconsume5 n" "Waits False" n np for n np
proof (unfold_locales, goal_cases)
  case 1 then show ?case by (intro mproduce5_law)
next
  case 2 then show ?case by (intro mconsume5_law)
next
  case (3 s t) then show ?case by (cases "m_pc t") (auto simp: mthr_ok_def Let_def split: if_splits)
next
  case (4 s ps k) then show ?case using mconsume5_idle by blast
qed

interpretation mpc6: array_filling "mproduce6 n" "mconsume6 n" "Waits True" n np for n np
proof (unfold_locales, goal_cases)
  case 1 then show ?case by (intro mproduce6_law)
next
  case 2 then show ?case unfolding mconsume6_def by (intro mconsume5_law)
next
  case (3 s t) then show ?case by (cases "m_pc t") (auto simp: mthr_ok_def split: if_splits)
next
  case (4 s ps k) then show ?case unfolding mconsume6_def using mconsume5_idle by blast
qed

interpretation mpc7: array_filling "mproduce7 n" "mconsume7 n" "Waits True" n np for n np
proof (unfold_locales, goal_cases)
  case 1 then show ?case by (intro mproduce7_law)
next
  case 2 then show ?case unfolding mconsume7_def by (intro mconsume5_law)
next
  case (3 s t) then show ?case by (cases "m_pc t") (auto simp: mthr_ok_def split: if_splits)
next
  case (4 s ps k) then show ?case unfolding mconsume7_def using mconsume5_idle by blast
qed

subsection \<open>What the programs do\<close>

lemma start_inv:
  assumes "1 \<le> np" "pc = (if mode = Joins then KJoin else KTest)"
  shows "m_inv mode n (mshared_init sp, replicate np new_mthr, [\<lparr>k_pc = pc, k_i = 0\<rparr>])"
  using assms
  by (cases mode) (auto simp: m_inv_def mshared_init_def new_mthr_def arr_ok_def prods_ok_def mthr_ok_def k_taken_def)

lemma start_left:
  "m_left n (mshared_init sp, replicate np new_mthr, [\<lparr>k_pc = pc, k_i = 0\<rparr>]) = 8 * n + np + k_rank pc + sp"
  by (simp add: m_left_def mshared_init_def new_mthr_def)

lemma nat_threads: "1 \<le> threads \<Longrightarrow> 1 \<le> nat (min threads MMAXNTHREADS)"
  by (simp add: MMAXNTHREADS_def)

text \<open>
  C31. The three programs with a condition variable are correct in every interleaving, with any finite
  number \<open>sp\<close> of spurious wake-ups: for \<open>n\<close> items and at least one producer they take at most
  \<open>8 n + p + 3 + sp\<close> steps, the consumer prints no mismatch, nothing is written beyond the items, no
  signal is lost (also when the producers signal only at zero), and when nobody can step all
  threads have returned and the producers' counters add up to \<open>n\<close>.
\<close>

theorem mprodcons_cond_correct:
  assumes "(main, P, C) \<in> {(mprodcons5_main, mproduce5, mconsume5), (mprodcons6_main, mproduce6, mconsume6),
      (mprodcons7_main, mproduce7, mconsume7)}"
    and "main sp items threads = (n, s0, ps0, cs0)" "1 \<le> threads"
    and "(progress (P n) (C n) ^^ k) (s0, ps0, cs0) (s, ps, cs)"
  shows "k \<le> 8 * n + length ps0 + 3 + sp \<and> ms_out s = [] \<and> (\<forall>j. n \<le> j \<longrightarrow> ms_buff s j = 0) \<and>
    ((\<nexists>cfg'. progress (P n) (C n) (s, ps, cs) cfg') \<longrightarrow> all_done n s ps cs)"
proof -
  let ?np = "nat (min threads MMAXNTHREADS)"
  have start: "s0 = mshared_init sp" "ps0 = replicate ?np new_mthr" "cs0 = [\<lparr>k_pc = KTest, k_i = 0\<rparr>]"
    using assms(1,2) by (auto simp: mprodcons5_main_def mprodcons6_main_def mprodcons7_main_def)
  have inv: "m_inv (Waits two) n (s0, ps0, cs0)" for two
    unfolding start by (rule start_inv [OF nat_threads [OF assms(3)]]) simp
  have left: "m_left n (s0, ps0, cs0) = 8 * n + length ps0 + 3 + sp" and len: "length ps0 = ?np"
    unfolding start by (simp_all add: start_left)
  consider "P = mproduce5" "C = mconsume5" | "P = mproduce6" "C = mconsume6" | "P = mproduce7" "C = mconsume7"
    using assms(1) by auto
  then show ?thesis
  proof cases
    case 1
    from mpc5.outcome [of n ?np "(s0, ps0, cs0)" k s ps cs] assms(4) inv left len show ?thesis
      unfolding 1 by (simp add: mpc5.inv_def)
  next
    case 2
    from mpc6.outcome [of n ?np "(s0, ps0, cs0)" k s ps cs] assms(4) inv left len show ?thesis
      unfolding 2 by (simp add: mpc6.inv_def)
  next
    case 3
    from mpc7.outcome [of n ?np "(s0, ps0, cs0)" k s ps cs] assms(4) inv left len show ?thesis
      unfolding 3 by (simp add: mpc7.inv_def)
  qed
qed

theorem mprodcons_cond_correct_witness:
  "\<exists>k s ps cs. (progress (mproduce6 1) (mconsume6 1) ^^ k) (snd (mprodcons6_main 1 1 2)) (s, ps, cs) \<and>
     ms_out s = [] \<and> all_done 1 s ps cs"
proof -
  have "runs_out (mproduce6 1) (mconsume6 1)
      ([Inr 0, Inr 0] @ map Inl [0, 1, 0, 0] @ map Inr (replicate 3 0)) (snd (mprodcons6_main 1 1 2))"
    by code_simp
  then obtain k s ps cs where run: "(sys_step (mproduce6 1) (mconsume6 1) ^^ k) (snd (mprodcons6_main 1 1 2)) (s, ps, cs)"
    and stuck: "stuck (mproduce6 1) (mconsume6 1) (s, ps, cs)"
    by (rule runs_outE)
  obtain j where prog: "(progress (mproduce6 1) (mconsume6 1) ^^ j) (snd (mprodcons6_main 1 1 2)) (s, ps, cs)"
    using sys_steps_progress [OF run] by blast
  obtain s0 ps0 cs0 where main: "mprodcons6_main 1 1 2 = (1, s0, ps0, cs0)" "snd (mprodcons6_main 1 1 2) = (s0, ps0, cs0)"
    by (simp add: mprodcons6_main_def MAXNITEMS_def)
  have "ms_out s = []" "all_done 1 s ps cs"
    using mprodcons_cond_correct [where main = mprodcons6_main and P = mproduce6 and C = mconsume6,
        OF _ main(1) _ prog [unfolded main(2)]]
      stuck_no_progress [OF stuck] by auto
  with prog show ?thesis
    by blast
qed

text \<open>
  The programs that poll are correct in every interleaving: for \<open>n\<close> items and at least one
  producer at most \<open>8 n + p + 3\<close> steps change anything (a failed poll does not), the consumer prints
  no mismatch, nothing is written beyond the items, and when no step changes anything all threads
  have returned and the producers' counters add up to \<open>n\<close>.
\<close>

theorem mprodcons_poll_correct:
  assumes "(main, P, C) \<in> {(mprodcons3_main, mproduce3, mconsume3), (mprodcons4_main, mproduce4, mconsume4)}"
    and "main items threads = (n, s0, ps0, cs0)" "1 \<le> threads"
    and "(progress (P n) (C n) ^^ k) (s0, ps0, cs0) (s, ps, cs)"
  shows "k \<le> 8 * n + length ps0 + 3 \<and> ms_out s = [] \<and> (\<forall>j. n \<le> j \<longrightarrow> ms_buff s j = 0) \<and>
    ((\<nexists>cfg'. progress (P n) (C n) (s, ps, cs) cfg') \<longrightarrow> all_done n s ps cs)"
proof -
  let ?np = "nat (min threads MMAXNTHREADS)"
  have start: "s0 = mshared_init 0" "ps0 = replicate ?np new_mthr" "cs0 = [\<lparr>k_pc = KTest, k_i = 0\<rparr>]"
    and PC: "P = mproduce3" "C = mconsume3"
    using assms(1,2) by (auto simp: mprodcons3_main_def mprodcons4_main_def mproduce3_def mproduce4_def mconsume4_def)
  have inv: "m_inv Polls n (s0, ps0, cs0)"
    unfolding start by (rule start_inv [OF nat_threads [OF assms(3)]]) simp
  have left: "m_left n (s0, ps0, cs0) = 8 * n + length ps0 + 3" and len: "length ps0 = ?np"
    unfolding start by (simp_all add: start_left)
  from mpc3.outcome [of n ?np "(s0, ps0, cs0)" k s ps cs] assms(4) inv left len show ?thesis
    unfolding PC by (simp add: mpc3.inv_def)
qed

theorem mprodcons_poll_correct_witness:
  "\<exists>k s ps cs. (progress (mproduce3 1) (mconsume3 1) ^^ k) (snd (mprodcons3_main 1 2)) (s, ps, cs) \<and>
     ms_out s = [] \<and> all_done 1 s ps cs"
proof -
  have "runs_out (mproduce3 1) (mconsume3 1)
      ([Inr 0, Inr 0, Inr 0] @ map Inl [0, 1, 0] @ map Inr (replicate 3 0)) (snd (mprodcons3_main 1 2))"
    by code_simp
  then obtain k s ps cs where run: "(sys_step (mproduce3 1) (mconsume3 1) ^^ k) (snd (mprodcons3_main 1 2)) (s, ps, cs)"
    and stuck: "stuck (mproduce3 1) (mconsume3 1) (s, ps, cs)"
    by (rule runs_outE)
  obtain j where prog: "(progress (mproduce3 1) (mconsume3 1) ^^ j) (snd (mprodcons3_main 1 2)) (s, ps, cs)"
    using sys_steps_progress [OF run] by blast
  obtain s0 ps0 cs0 where main: "mprodcons3_main 1 2 = (1, s0, ps0, cs0)" "snd (mprodcons3_main 1 2) = (s0, ps0, cs0)"
    by (simp add: mprodcons3_main_def MAXNITEMS_def)
  have "ms_out s = []" "all_done 1 s ps cs"
    using mprodcons_poll_correct [where main = mprodcons3_main and P = mproduce3 and C = mconsume3,
        OF _ main(1) _ prog [unfolded main(2)]]
      stuck_no_progress [OF stuck] by auto
  with prog show ?thesis
    by blast
qed

text \<open>The program whose consumer starts after the joins, with the mutex.\<close>

lemma mprodcons2_outcome:
  assumes "mprodcons2_main items threads = (n, np, cfg)" "1 \<le> threads"
    and "(progress (mproduce2 n) (mconsume2 np n) ^^ k) cfg (s, ps, cs)"
  shows "k \<le> 8 * n + np + 4 \<and> ms_out s = [] \<and> (\<forall>j. n \<le> j \<longrightarrow> ms_buff s j = 0) \<and>
    ((\<nexists>cfg'. progress (mproduce2 n) (mconsume2 np n) (s, ps, cs) cfg') \<longrightarrow> all_done n s ps cs)"
proof -
  have np: "np = nat (min threads MMAXNTHREADS)"
    and cfg: "cfg = (mshared_init 0, replicate np new_mthr, [\<lparr>k_pc = KJoin, k_i = 0\<rparr>])"
    using assms(1) by (auto simp: mprodcons2_main_def Let_def)
  have "m_inv Joins n cfg"
    unfolding cfg np by (rule start_inv [OF nat_threads [OF assms(2)]]) simp
  moreover have "m_left n cfg = 8 * n + np + 4"
    unfolding cfg by (simp add: start_left)
  ultimately show ?thesis
    using mpc2.outcome [of n np cfg k s ps cs] assms(3) cfg by (simp add: mpc2.inv_def)
qed

text \<open>A run of the program without the mutex that ends with output.\<close>

definition prints_mismatch :: "nat \<Rightarrow> nat \<Rightarrow> (nat + nat) list \<Rightarrow> mshared \<times> mthr list \<times> kthr list \<Rightarrow> bool" where
  "prints_mismatch np n sch cfg = (case run_sys (mproduce1 n) (mconsume1 np n) sch cfg of
     None \<Rightarrow> False
   | Some (s, ps, cs) \<Rightarrow> ms_out s \<noteq> [] \<and> ms_nput s > n \<and> stuck (mproduce1 n) (mconsume1 np n) (s, ps, cs))"

lemma prints_mismatchE:
  assumes "prints_mismatch np n sch cfg"
  obtains k s ps cs where "(sys_step (mproduce1 n) (mconsume1 np n) ^^ k) cfg (s, ps, cs)"
    "ms_out s \<noteq> []" "ms_nput s > n" "stuck (mproduce1 n) (mconsume1 np n) (s, ps, cs)"
  using assms run_sys_steps [of "mproduce1 n" "mconsume1 np n" sch cfg]
  by (auto simp: prints_mismatch_def split: option.splits)

text \<open>
  Without the mutex the program is wrong: with two items and two producers some interleaving of their
  statements fills a slot beyond the items, ends, and lets the consumer print a mismatch.
\<close>

theorem mprodcons1_mismatch:
  "\<exists>k s ps cs. (sys_step (mproduce1 2) (mconsume1 2 2) ^^ k) (snd (snd (mprodcons1_main 2 2))) (s, ps, cs) \<and>
     ms_out s \<noteq> [] \<and> ms_nput s > 2 \<and> stuck (mproduce1 2) (mconsume1 2 2) (s, ps, cs)"
proof -
  have "prints_mismatch 2 2
     (map Inl ([0, 0, 0, 1, 1, 0, 0] @ [1, 1, 1] @ [0, 0, 0, 0]) @ map Inr (replicate 6 0)) (snd (snd (mprodcons1_main 2 2)))"
    by code_simp
  then show ?thesis
    by (rule prints_mismatchE) blast
qed

end
