(* ===== verification/Text.thy ===== *)
theory Text
  imports Prelude
begin

unbundle bit_operations_syntax

text \<open>
  Text as lists of characters (a C string without its terminating zero): \<^verbatim>\<open>strchr\<close>, the
  digits the address functions search, numbers printed by \<^verbatim>\<open>sprintf\<close> in base 10 and 16 and read
  back digit by digit, and joining and splitting at a separator.
\<close>

subsection \<open>Digits\<close>

primrec strchr :: "string \<Rightarrow> char \<Rightarrow> nat option" where
  "strchr [] c = None"
| "strchr (x # xs) c = (if x = c then Some 0 else map_option Suc (strchr xs c))"

definition digits :: string where
  "digits = ''0123456789''"

definition xdigits_l :: string where
  "xdigits_l = ''0123456789abcdef''"

definition xdigits_u :: string where
  "xdigits_u = ''0123456789ABCDEF''"

lemma strchr_Some: "strchr xs c = Some d \<Longrightarrow> d < length xs \<and> xs ! d = c"
  by (induction xs arbitrary: d) (auto split: if_splits)

lemma strchr_nth: "distinct xs \<Longrightarrow> d < length xs \<Longrightarrow> strchr xs (xs ! d) = Some d"
proof (induction xs arbitrary: d)
  case (Cons x xs)
  then show ?case
    by (cases d) (auto simp: nth_mem)
qed simp

lemma strchr_None: "strchr xs c = None \<longleftrightarrow> c \<notin> set xs"
  by (induction xs) auto

lemma digits_distinct: "distinct digits" "distinct xdigits_l" "distinct xdigits_u"
  by code_simp+

lemma digits_length [simp]: "length digits = 10" "length xdigits_l = 16" "length xdigits_u = 16"
  by (simp_all add: digits_def xdigits_l_def xdigits_u_def)

lemma digits_take: "digits = take 10 xdigits_l"
  by code_simp

lemma strchr_digits [simp]: "d < 10 \<Longrightarrow> strchr digits (digits ! d) = Some d"
  by (simp add: strchr_nth digits_distinct)

lemma strchr_xdigits [simp]: "d < 16 \<Longrightarrow> strchr xdigits_l (xdigits_l ! d) = Some d"
  by (simp add: strchr_nth digits_distinct)

lemma strchr_take: "strchr (take n xs) c = Some d \<Longrightarrow> strchr xs c = Some d"
  by (induction xs arbitrary: n d) (auto simp: take_Cons split: nat.splits if_splits)

lemma digit_xdigit: "strchr digits c = Some d \<Longrightarrow> strchr xdigits_l c = Some d \<and> d < 10"
  using strchr_Some [of digits c d] strchr_take [of 10 xdigits_l c d] by (simp add: digits_take)

lemma separators [simp]: "strchr digits CHR ''.'' = None" "strchr digits CHR '':'' = None"
  "strchr xdigits_l CHR ''.'' = None" "strchr xdigits_l CHR '':'' = None"
  "strchr xdigits_u CHR ''.'' = None" "strchr xdigits_u CHR '':'' = None"
  by (simp_all add: digits_def xdigits_l_def xdigits_u_def)

subsection \<open>Numbers\<close>

text \<open>\<^verbatim>\<open>sprintf\<close> with \<^verbatim>\<open>%u\<close> and \<^verbatim>\<open>%x\<close>.\<close>

fun show_dec :: "nat \<Rightarrow> string" where
  "show_dec n = (if n < 10 then [digits ! n] else show_dec (n div 10) @ [digits ! (n mod 10)])"

fun show_hex :: "nat \<Rightarrow> string" where
  "show_hex n = (if n < 16 then [xdigits_l ! n] else show_hex (n div 16) @ [xdigits_l ! (n mod 16)])"

declare show_dec.simps [simp del] show_hex.simps [simp del]

text \<open>The value of a string of decimal digits, read from a value \<open>v\<close> on; \<open>None\<close> at another character.\<close>

fun read_dec :: "nat \<Rightarrow> string \<Rightarrow> nat option" where
  "read_dec v [] = Some v"
| "read_dec v (c # cs) = (case strchr digits c of None \<Rightarrow> None | Some d \<Rightarrow> read_dec (10 * v + d) cs)"

lemma read_dec_append: "read_dec v (xs @ ys) = (case read_dec v xs of None \<Rightarrow> None | Some w \<Rightarrow> read_dec w ys)"
  by (induction v xs rule: read_dec.induct) (auto split: option.splits)

lemma read_dec_le: "read_dec v xs = Some w \<Longrightarrow> v \<le> w"
  by (induction v xs rule: read_dec.induct) (fastforce split: option.splits)+

lemma read_show_dec [simp]: "read_dec 0 (show_dec n) = Some n"
proof (induction n rule: show_dec.induct)
  case (1 n)
  then show ?case
    by (subst show_dec.simps) (auto simp: read_dec_append)
qed

lemma show_nonempty [simp]: "show_dec n \<noteq> []" "show_hex n \<noteq> []"
  by (subst show_dec.simps show_hex.simps, simp)+

lemma read_dec_set: "read_dec v xs \<noteq> None \<longleftrightarrow> (\<forall>c \<in> set xs. strchr digits c \<noteq> None)"
  by (induction v xs rule: read_dec.induct) (auto split: option.splits)

lemma show_dec_digits: "c \<in> set (show_dec n) \<Longrightarrow> strchr digits c \<noteq> None"
  using read_dec_set [of 0 "show_dec n"] by simp

lemma length_show_dec: "n < 256 \<Longrightarrow> length (show_dec n) \<le> 3"
  by (subst show_dec.simps, subst show_dec.simps, subst show_dec.simps) auto

lemma length_show_hex: "n < 65536 \<Longrightarrow> length (show_hex n) \<le> 4"
  by (subst show_hex.simps, subst show_hex.simps, subst show_hex.simps, subst show_hex.simps) auto

lemma byte_less [simp]: "unat (b :: byte) < 256" "unat (b :: byte) \<le> 255"
proof -
  show "unat b < 256"
    using unsigned_less [of b, where 'a = nat] by simp
  then show "unat b \<le> 255"
    by simp
qed

lemma push_or: "d < 2 ^ k \<Longrightarrow> push_bit k v OR d = 2 ^ k * v + (d :: nat)"
proof -
  assume d: "d < 2 ^ k"
  have "push_bit k v AND d = 0"
  proof (rule bit_eqI)
    fix n
    have "\<not> bit d n" if "k \<le> n"
    proof -
      have "(2::nat) ^ k \<le> 2 ^ n"
        using that by (rule power_increasing) simp
      with d have "d < 2 ^ n"
        by (rule order.strict_trans2)
      then show ?thesis
        by (simp add: bit_nat_def)
    qed
    then show "bit (push_bit k v AND d) n = bit (0::nat) n"
      by (auto simp: bit_simps)
  qed
  then show ?thesis
    by (simp add: disjunctive_add_eq_or [symmetric] push_bit_eq_mult)
qed

lemma shift_or: "d < 16 \<Longrightarrow> push_bit 4 v OR d = 16 * v + (d :: nat)"
  using push_or [of d 4 v] by simp

lemma byte_or: "d < 256 \<Longrightarrow> push_bit 8 v OR d = 256 * v + (d :: nat)"
  using push_or [of d 8 v] by simp

subsection \<open>Joining and splitting\<close>

fun join :: "char \<Rightarrow> string list \<Rightarrow> string" where
  "join c [] = []"
| "join c [f] = f"
| "join c (f # fs) = f @ c # join c fs"

fun split :: "char \<Rightarrow> string \<Rightarrow> string list" where
  "split c [] = [[]]"
| "split c (x # xs) = (if x = c then [] # split c xs else (x # hd (split c xs)) # tl (split c xs))"

lemma split_nonempty [simp]: "split c xs \<noteq> []"
  by (cases xs) auto

lemma join_Cons: "fs \<noteq> [] \<Longrightarrow> join c (f # fs) = f @ c # join c fs"
  by (cases fs) auto

lemma join_split [simp]: "join c (split c xs) = xs"
proof (induction xs)
  case (Cons x xs)
  then show ?case
    by (cases "split c xs"; cases "tl (split c xs)") (auto simp: join_Cons)
qed simp

lemma split_no_sep: "f \<in> set (split c xs) \<Longrightarrow> c \<notin> set f"
proof (induction xs arbitrary: f)
  case (Cons x xs)
  then show ?case
    by (cases "split c xs") (auto split: if_splits)
qed simp

lemma split_field: "c \<notin> set f \<Longrightarrow> split c f = [f]"
  by (induction f) auto

lemma split_append: "c \<notin> set f \<Longrightarrow> split c (f @ c # xs) = f # split c xs"
  by (induction f) auto

lemma split_join: "fs \<noteq> [] \<Longrightarrow> (\<And>f. f \<in> set fs \<Longrightarrow> c \<notin> set f) \<Longrightarrow> split c (join c fs) = fs"
  by (induction c fs rule: join.induct) (auto simp: split_field split_append)

end
