(* ===== verification/InetV4.thy ===== *)
theory InetV4
  imports Text
begin

unbundle bit_operations_syntax

text \<open>
  IPv4 addresses as text: \<^verbatim>\<open>inet_pton4\<close> and \<^verbatim>\<open>inet_ntop4\<close> of
  \<^verbatim>\<open>src/unixNetV1/libfree/inet_pton.c\<close> and \<^verbatim>\<open>inet_ntop.c\<close>, the older
  \<^verbatim>\<open>inet_aton.c\<close>, and the IPv4-only \<^verbatim>\<open>inet_pton_ipv4.c\<close> and \<^verbatim>\<open>inet_ntop_ipv4.c\<close>.
  The loops keep the source's variables as arguments. The theory shows that \<open>inet_pton4\<close> accepts
  exactly the dotted quads and reads back what \<open>inet_ntop4\<close> prints.
\<close>

subsection \<open>Reading a dotted quad\<close>

text \<open>
  The loop of \<^verbatim>\<open>inet_pton4\<close> over the rest of the string, with \<^verbatim>\<open>saw_digit\<close>, \<^verbatim>\<open>octets\<close>,
  the four bytes \<^verbatim>\<open>tmp\<close> and the index \<^verbatim>\<open>tp\<close>; \<open>None\<close> is the return of 0.
\<close>

fun inet_pton4_loop :: "string \<Rightarrow> bool \<Rightarrow> nat \<Rightarrow> byte list \<Rightarrow> nat \<Rightarrow> (nat \<times> byte list) option" where
  "inet_pton4_loop [] saw octets tmp tp = Some (octets, tmp)"
| "inet_pton4_loop (ch # src) saw octets tmp tp = (case strchr digits ch of
     Some d \<Rightarrow> (let new = unat (tmp ! tp) * 10 + d; tmp' = tmp[tp := of_nat new] in
       if new > 255 then None
       else if \<not> saw then (if octets + 1 > 4 then None else inet_pton4_loop src True (octets + 1) tmp' tp)
       else inet_pton4_loop src True octets tmp' tp)
   | None \<Rightarrow> if ch = CHR ''.'' \<and> saw
       then (if octets = 4 then None else inet_pton4_loop src False octets (tmp[tp + 1 := 0]) (tp + 1))
       else None)"

text \<open>
  Only \<^verbatim>\<open>tmp[0]\<close> is set before the loop; the loop clears each other byte before it reads it, so
  their first values \<open>u1\<close>, \<open>u2\<close>, \<open>u3\<close> are arbitrary.
\<close>

definition inet_pton4_from :: "byte \<Rightarrow> byte \<Rightarrow> byte \<Rightarrow> string \<Rightarrow> byte list option" where
  "inet_pton4_from u1 u2 u3 src = (case inet_pton4_loop src False 0 [0, u1, u2, u3] 0 of
     None \<Rightarrow> None
   | Some (octets, tmp) \<Rightarrow> if octets < 4 then None else Some tmp)"

definition inet_pton4 :: "string \<Rightarrow> byte list option" where
  "inet_pton4 = inet_pton4_from 0 0 0"

subsection \<open>Printing a dotted quad\<close>

definition dotted_quad :: "byte list \<Rightarrow> string" where
  "dotted_quad src = show_dec (unat (src ! 0)) @ ''.'' @ show_dec (unat (src ! 1)) @ ''.'' @
     show_dec (unat (src ! 2)) @ ''.'' @ show_dec (unat (src ! 3))"

text \<open>The result is the string copied to \<^verbatim>\<open>dst\<close>, which takes one more byte for the terminating zero.\<close>

definition inet_ntop4 :: "byte list \<Rightarrow> nat \<Rightarrow> string res" where
  "inet_ntop4 src sz = (let tmp = dotted_quad src in
     if length tmp > sz then Inl ENOSPC else Inr tmp)"

definition bytes_written :: "string \<Rightarrow> nat" where
  "bytes_written s = length s + 1"

subsection \<open>The older functions\<close>

text \<open>
  \<^verbatim>\<open>inet_aton\<close>: \<^verbatim>\<open>acc\<close> and \<^verbatim>\<open>addr\<close> are 64-bit, so the accumulation of digits wraps; the loop ends
  after the terminating zero, which is the last case. The result is the 32-bit address in host order.
\<close>

definition aton_field :: "u64 \<Rightarrow> u64 \<Rightarrow> u64 option" where
  "aton_field addr acc = (if acc > 255 then None else Some (push_bit 8 addr OR acc))"

fun inet_aton_loop :: "string \<Rightarrow> nat \<Rightarrow> u64 \<Rightarrow> u64 \<Rightarrow> (nat \<times> u64) option" where
  "inet_aton_loop [] dots acc addr = map_option (Pair dots) (aton_field addr acc)"
| "inet_aton_loop (cc # cp) dots acc addr = (case strchr digits cc of
     Some d \<Rightarrow> inet_aton_loop cp dots (acc * 10 + of_nat d) addr
   | None \<Rightarrow> if cc = CHR ''.'' then
       (if dots + 1 > 3 then None else (case aton_field addr acc of
          None \<Rightarrow> None
        | Some addr' \<Rightarrow> inet_aton_loop cp (dots + 1) 0 addr'))
     else None)"

definition inet_aton :: "string \<Rightarrow> u32 option" where
  "inet_aton cp = (case inet_aton_loop cp 0 0 0 of
     None \<Rightarrow> None
   | Some (dots, addr) \<Rightarrow> Some (ucast (if dots < 3 then push_bit (8 * (3 - dots)) addr else addr)))"

text \<open>\<^verbatim>\<open>inet_pton\<close> and \<^verbatim>\<open>inet_ntop\<close> for IPv4 only; the bytes of the address are in network order.\<close>

datatype addr_family = AF_UNSPEC | AF_LOCAL | AF_INET | AF_INET6 | AF_OTHER int

definition htonl_bytes :: "u32 \<Rightarrow> byte list" where
  "htonl_bytes a = [ucast (drop_bit 24 a), ucast (drop_bit 16 a), ucast (drop_bit 8 a), ucast a]"

definition inet_pton_ipv4 :: "addr_family \<Rightarrow> string \<Rightarrow> byte list option res" where
  "inet_pton_ipv4 family str =
     (if family = AF_INET then Inr (map_option htonl_bytes (inet_aton str)) else Inl EAFNOSUPPORT)"

definition inet_ntop_ipv4 :: "addr_family \<Rightarrow> byte list \<Rightarrow> nat \<Rightarrow> string res" where
  "inet_ntop_ipv4 family p len =
     (if family = AF_INET then
        let temp = dotted_quad p in if length temp \<ge> len then Inl ENOSPC else Inr temp
      else Inl EAFNOSUPPORT)"

subsection \<open>What \<open>inet_pton4\<close> accepts\<close>

text \<open>The specification: four nonempty fields of decimal digits between dots, each at most 255.\<close>

definition octet_of :: "string \<Rightarrow> byte option" where
  "octet_of f = (if f = [] then None else case read_dec 0 f of None \<Rightarrow> None | Some v \<Rightarrow> if v \<le> 255 then Some (of_nat v) else None)"

fun octets_of :: "string list \<Rightarrow> byte list option" where
  "octets_of [] = Some []"
| "octets_of (f # fs) = (case octet_of f of None \<Rightarrow> None | Some b \<Rightarrow> map_option (Cons b) (octets_of fs))"

definition quad_spec :: "string \<Rightarrow> byte list option" where
  "quad_spec src = (let fs = split CHR ''.'' src in if length fs = 4 then octets_of fs else None)"

definition pton4_end :: "(nat \<times> byte list) option \<Rightarrow> byte list option" where
  "pton4_end r = (case r of None \<Rightarrow> None | Some (octets, tmp) \<Rightarrow> if octets < 4 then None else Some tmp)"

lemma unat_of_nat_byte: "v \<le> 255 \<Longrightarrow> unat (of_nat v :: byte) = v"
  by (simp add: unat_of_nat take_bit_eq_mod)

lemma read_dec_big: "v > 255 \<Longrightarrow> read_dec v f = Some w \<Longrightarrow> w > 255"
  using read_dec_le [of v f w] by simp

lemma pton4_digits:
  assumes "tp < length tmp" "CHR ''.'' \<notin> set f" "rest = [] \<or> hd rest = CHR ''.''"
  shows "inet_pton4_loop (f @ rest) True octets tmp tp = (case read_dec (unat (tmp ! tp)) f of
     None \<Rightarrow> None | Some v \<Rightarrow> if v \<le> 255 then inet_pton4_loop rest True octets (tmp[tp := of_nat v]) tp else None)"
  using assms
proof (induction f arbitrary: tmp)
  case Nil
  then show ?case
    by simp
next
  case (Cons c f)
  show ?case
  proof (cases "strchr digits c")
    case None
    with Cons.prems show ?thesis
      by auto
  next
    case (Some d)
    define new where "new = unat (tmp ! tp) * 10 + d"
    have val: "read_dec (unat (tmp ! tp)) (c # f) = read_dec new f"
      using Some by (simp add: new_def mult.commute)
    show ?thesis
    proof (cases "new > 255")
      case True
      then show ?thesis
        unfolding val using Some read_dec_big [of new f] by (auto simp: new_def split: option.splits)
    next
      case False
      have "inet_pton4_loop ((c # f) @ rest) True octets tmp tp =
          inet_pton4_loop (f @ rest) True octets (tmp[tp := of_nat new]) tp"
        using Some False by (simp add: new_def Let_def)
      then show ?thesis
        unfolding val using Cons.IH [of "tmp[tp := of_nat new]"] Cons.prems False
        by (simp add: unat_of_nat_byte del: inet_pton4_loop.simps split: option.splits)
    qed
  qed
qed

text \<open>From the start of field number \<open>k\<close> on, the loop reads exactly the fields that remain.\<close>

lemma map_append_Nil [simp]: "map_option ((@) []) r = r"
  by (cases r) auto

lemma pton4_fields:
  assumes "fs \<noteq> []" "k < 4" "length tmp = 4" "tmp ! k = 0" "\<forall>f \<in> set fs. CHR ''.'' \<notin> set f"
  shows "pton4_end (inet_pton4_loop (join CHR ''.'' fs) False k tmp k) =
    (if k + length fs = 4 then map_option ((@) (take k tmp)) (octets_of fs) else None)"
  using assms
proof (induction fs arbitrary: k tmp)
  case (Cons f fs)
  show ?case
  proof (cases f)
    case Nil
    then show ?thesis
      using Cons.prems by (cases fs) (auto simp: pton4_end_def octet_of_def)
  next
    case (Cons c f')
    note f = this
    let ?rest = "if fs = [] then [] else CHR ''.'' # join CHR ''.'' fs"
    have str: "join CHR ''.'' (f # fs) = c # f' @ ?rest"
      using f by (simp add: join_Cons)
    show ?thesis
    proof (cases "strchr digits c")
      case None
      then show ?thesis
        using f Cons.prems str by (auto simp: pton4_end_def octet_of_def)
    next
      case (Some d)
      then have d: "d \<le> 255"
        using strchr_Some [of digits c d] by simp
      let ?tmp = "tmp[k := of_nat d]"
      have "inet_pton4_loop (join CHR ''.'' (f # fs)) False k tmp k =
          inet_pton4_loop (f' @ ?rest) True (k + 1) ?tmp k"
        unfolding str using Some d Cons.prems by (simp add: Let_def)
      also have "\<dots> = (case read_dec d f' of None \<Rightarrow> None
          | Some v \<Rightarrow> if v \<le> 255 then inet_pton4_loop ?rest True (k + 1) (tmp[k := of_nat v]) k else None)"
        using Cons.prems f pton4_digits [of k ?tmp f' ?rest "k + 1"] d
        by (simp add: unat_of_nat_byte split: option.splits)
      finally have loop: "inet_pton4_loop (join CHR ''.'' (f # fs)) False k tmp k =
        (case octet_of f of None \<Rightarrow> None | Some b \<Rightarrow> inet_pton4_loop ?rest True (k + 1) (tmp[k := b]) k)"
        using f Some by (auto simp: octet_of_def split: option.splits)
      show ?thesis
      proof (cases "octet_of f")
        case None
        then show ?thesis
          using loop by (simp add: pton4_end_def)
      next
        case (Some b)
        note b = this
        show ?thesis
        proof (cases "fs = []")
          case True
          then show ?thesis
            using loop b Cons.prems by (auto simp: pton4_end_def upd_conv_take_nth_drop)
        next
          case False
          show ?thesis
          proof (cases "k = 3")
            case True
            then show ?thesis
              using loop b False by (auto simp: pton4_end_def)
          next
            case less: False
            let ?next = "tmp[k := b, k + 1 := 0]"
            have "take (Suc k) ?next = take k tmp @ [b]"
              using Cons.prems by (simp add: take_Suc_conv_app_nth)
            then show ?thesis
              using loop b False less Cons.prems Cons.IH [of "k + 1" ?next]
              by (cases "octets_of fs") (auto split: option.splits)
          qed
        qed
      qed
    qed
  qed
qed simp

lemma pton4_from_quad: "inet_pton4_from u1 u2 u3 src = quad_spec src"
proof -
  have "inet_pton4_from u1 u2 u3 (join CHR ''.'' (split CHR ''.'' src)) = quad_spec src"
    using pton4_fields [of "split CHR ''.'' src" 0 "[0, u1, u2, u3]"] split_no_sep [of _ "CHR ''.''" src]
    by (auto simp: inet_pton4_from_def pton4_end_def quad_spec_def)
  then show ?thesis
    by simp
qed

lemma dotted_quad_join:
  "length src = 4 \<Longrightarrow> dotted_quad src = join CHR ''.'' (map (\<lambda>b. show_dec (unat b)) src)"
  by (auto simp: dotted_quad_def numeral_eq_Suc length_Suc_conv)

lemma octet_of_show [simp]: "octet_of (show_dec (unat (b :: byte))) = Some b"
  by (simp add: octet_of_def)

lemma octets_of_show [simp]: "octets_of (map (\<lambda>b. show_dec (unat b)) bs) = Some bs"
  by (induction bs) auto

lemma inet_pton4_dotted:
  assumes "length bs = 4"
  shows "inet_pton4 (dotted_quad bs) = Some bs"
proof -
  have "split CHR ''.'' (dotted_quad bs) = map (\<lambda>b. show_dec (unat b)) bs"
    using assms show_dec_digits unfolding dotted_quad_join [OF assms]
    by (intro split_join) (force dest: show_dec_digits)+
  then show ?thesis
    using assms by (simp add: inet_pton4_def pton4_from_quad quad_spec_def)
qed

text \<open>
  C33. \<open>inet_pton4\<close> accepts exactly the dotted quads: four nonempty fields of decimal digits between dots,
  each of value at most 255, and returns their values; every other string gives 0, whatever the
  uninitialised bytes of \<^verbatim>\<open>tmp\<close> hold.
\<close>

theorem inet_pton4_accepts_quads: "inet_pton4_from u1 u2 u3 src = quad_spec src"
  by (rule pton4_from_quad)

text \<open>
  \<open>inet_ntop4\<close> with a buffer of exactly the length of the text succeeds and stores one byte more than the
  buffer has (the test uses \<open>>\<close> without the terminating zero); the IPv4-only version refuses
  that size and stores at most the size given.
\<close>

theorem inet_ntop4_one_byte_over:
  "inet_ntop4 q (length (dotted_quad q)) = Inr (dotted_quad q) \<and>
   bytes_written (dotted_quad q) = length (dotted_quad q) + 1 \<and>
   inet_ntop_ipv4 AF_INET q (length (dotted_quad q)) = Inl ENOSPC \<and>
   (case inet_ntop_ipv4 AF_INET q len of Inl e \<Rightarrow> True | Inr s \<Rightarrow> bytes_written s \<le> len)"
  by (simp add: inet_ntop4_def inet_ntop_ipv4_def bytes_written_def Let_def)

subsection \<open>\<open>inet_aton\<close> on dotted quads\<close>

lemma aton_digits:
  "read_dec v f = Some w \<Longrightarrow> inet_aton_loop (f @ rest) dots (of_nat v) addr = inet_aton_loop rest dots (of_nat w) addr"
proof (induction v f rule: read_dec.induct)
  case (2 v c cs)
  then obtain d where d: "strchr digits c = Some d" "read_dec (10 * v + d) cs = Some w"
    by (auto split: option.splits)
  then show ?case
    using "2.IH" [OF d(1)] by (simp add: mult.commute)
qed simp

lemma aton_octet:
  assumes "octet_of f = Some b"
  shows "inet_aton_loop (f @ rest) dots 0 addr = inet_aton_loop rest dots (ucast b) addr"
proof -
  obtain v where v: "read_dec 0 f = Some v" "v \<le> 255" "b = of_nat v"
    using assms by (auto simp: octet_of_def split: option.splits if_splits)
  then have "(ucast b :: u64) = of_nat v"
    by (simp add: unsigned_of_nat take_bit_nat_eq_self)
  with aton_digits [OF v(1), of rest dots addr] show ?thesis
    by simp
qed

lemma aton_byte: "aton_field addr (ucast (b :: byte)) = Some (push_bit 8 addr OR ucast b)"
proof -
  have "unat b < 2 ^ 64"
    by (rule less_trans [OF byte_less(1)]) simp
  then have "unat (ucast b :: u64) \<le> 255"
    by (simp add: unsigned_ucast_eq take_bit_nat_eq_self)
  then have "(ucast b :: u64) \<le> 255"
    by (simp add: word_le_nat_alt)
  then show ?thesis
    by (simp add: aton_field_def not_less)
qed

lemma byte_high: "8 \<le> n \<Longrightarrow> \<not> bit (b :: byte) n"
  by (auto dest: bit_imp_le_length)

lemma htonl_quad:
  "htonl_bytes (ucast (((push_bit 24 (ucast a) OR push_bit 16 (ucast b)) OR push_bit 8 (ucast c)) OR (ucast d :: u64))) =
   [a, b, c, d :: byte]"
  by (auto simp: htonl_bytes_def intro!: bit_word_eqI simp: bit_simps byte_high)

lemma octets_of_length: "octets_of fs = Some bs \<Longrightarrow> length bs = length fs"
  by (induction fs arbitrary: bs) (auto split: option.splits)

lemma aton_quad:
  assumes "octets_of [f0, f1, f2, f3] = Some bs"
  shows "map_option htonl_bytes (inet_aton (join CHR ''.'' [f0, f1, f2, f3])) = Some bs"
proof -
  obtain b0 b1 b2 b3 where b: "octet_of f0 = Some b0" "octet_of f1 = Some b1" "octet_of f2 = Some b2" "octet_of f3 = Some b3"
    and bs: "bs = [b0, b1, b2, b3]"
    using assms by (auto split: option.splits)
  have "inet_aton_loop f3 dots 0 addr = map_option (Pair dots) (aton_field addr (ucast b3))" for dots addr
    using aton_octet [OF b(4), of "[]" dots addr] by simp
  then show ?thesis
    by (simp add: inet_aton_def aton_octet [OF b(1)] aton_octet [OF b(2)] aton_octet [OF b(3)] aton_byte htonl_quad bs)
qed

text \<open>
  C38. \<open>inet_aton\<close>, and with it the IPv4-only \<open>inet_pton\<close>, reads every dotted quad to the same four bytes as
  \<open>inet_pton4\<close>.
\<close>

theorem inet_aton_agrees:
  assumes "inet_pton4 src = Some bs"
  shows "inet_pton_ipv4 AF_INET src = Inr (Some bs)"
proof -
  let ?fs = "split CHR ''.'' src"
  have fs: "length ?fs = 4" "octets_of ?fs = Some bs"
    using assms by (auto simp: inet_pton4_def pton4_from_quad quad_spec_def Let_def split: if_splits)
  then obtain f0 f1 f2 f3 where q: "?fs = [f0, f1, f2, f3]"
    by (auto simp: numeral_eq_Suc length_Suc_conv)
  have "src = join CHR ''.'' [f0, f1, f2, f3]"
    unfolding q [symmetric] by simp
  then show ?thesis
    using aton_quad [of f0 f1 f2 f3 bs] fs(2) q by (simp add: inet_pton_ipv4_def)
qed

theorem inet_aton_agrees_witness:
  "inet_pton4 ''192.168.0.1'' = Some [192, 168, 0, 1] \<and>
   inet_pton_ipv4 AF_INET ''192.168.0.1'' = Inr (Some [192, 168, 0, 1])"
proof -
  have "inet_pton4 ''192.168.0.1'' = Some [192, 168, 0, 1]"
    by code_simp
  then show ?thesis
    using inet_aton_agrees by simp
qed

text \<open>Outside of the quads it is lenient: empty fields are zero and a long field wraps at 64 bits.\<close>

lemma inet_aton_lenient:
  "inet_aton ''...'' = Some 0" "inet_aton ''1.2'' = Some 0x01020000"
  "inet_aton ''18446744073709551617.0.0.1'' = Some 0x01000001"
  by code_simp+

end
