(* ===== verification/InetV6.thy ===== *)
theory InetV6
  imports InetV4
begin

unbundle bit_operations_syntax

text \<open>
  IPv6 addresses as text: \<^verbatim>\<open>inet_pton6\<close> and \<^verbatim>\<open>inet_ntop6\<close> of
  \<^verbatim>\<open>src/unixNetV1/libfree/inet_pton.c\<close> and \<^verbatim>\<open>inet_ntop.c\<close>, and the switches
  \<^verbatim>\<open>inet_pton\<close> and \<^verbatim>\<open>inet_ntop\<close> over the address family. The main result is the round trip: what
  \<open>inet_ntop\<close> prints, with the longest run of zero words shortened and an IPv4 tail, \<open>inet_pton\<close>
  reads back.
\<close>

definition IN6ADDRSZ :: nat where "IN6ADDRSZ = 16"

definition INADDRSZ :: nat where "INADDRSZ = 4"

definition INT16SZ :: nat where "INT16SZ = 2"

lemmas sizes [simp] = IN6ADDRSZ_def INADDRSZ_def INT16SZ_def

subsection \<open>Reading\<close>

definition xdigit :: "char \<Rightarrow> nat option" where
  "xdigit ch = (case strchr xdigits_l ch of Some d \<Rightarrow> Some d | None \<Rightarrow> strchr xdigits_u ch)"

text \<open>\<^verbatim>\<open>*tp++ = (val >> 8) & 0xff; *tp++ = val & 0xff\<close>\<close>

definition val_bytes :: "nat \<Rightarrow> byte list" where
  "val_bytes val = [of_nat (drop_bit 8 val AND 0xff), of_nat (val AND 0xff)]"

text \<open>
  The loop of \<^verbatim>\<open>inet_pton6\<close> over the rest of the string, with \<^verbatim>\<open>curtok\<close>, \<^verbatim>\<open>saw_xdigit\<close>,
  \<^verbatim>\<open>val\<close>, the bytes stored in \<^verbatim>\<open>tmp\<close> so far (their number is \<^verbatim>\<open>tp - tmp\<close>) and
  \<^verbatim>\<open>colonp - tmp\<close> if it is not null. \<^verbatim>\<open>val\<close> stays below \<open>2\<^sup>2\<^sup>0\<close>.
\<close>

fun inet_pton6_loop :: "string \<Rightarrow> string \<Rightarrow> bool \<Rightarrow> nat \<Rightarrow> byte list \<Rightarrow> nat option \<Rightarrow>
    (bool \<times> nat \<times> byte list \<times> nat option) option" where
  "inet_pton6_loop [] curtok saw val tmp colonp = Some (saw, val, tmp, colonp)"
| "inet_pton6_loop (ch # src) curtok saw val tmp colonp = (case xdigit ch of
     Some d \<Rightarrow> (let val' = push_bit 4 val OR d in
       if val' > 0xffff then None else inet_pton6_loop src curtok True val' tmp colonp)
   | None \<Rightarrow>
       if ch = CHR '':'' then
         (if \<not> saw then
            (if colonp \<noteq> None then None else inet_pton6_loop src src saw val tmp (Some (length tmp)))
          else if length tmp + INT16SZ > IN6ADDRSZ then None
          else inet_pton6_loop src src False 0 (tmp @ val_bytes val) colonp)
       else if ch = CHR ''.'' \<and> length tmp + INADDRSZ \<le> IN6ADDRSZ then
         (case inet_pton4 curtok of None \<Rightarrow> None | Some q \<Rightarrow> Some (False, val, tmp @ q, colonp))
       else None)"

text \<open>The shift by hand over the 16 bytes of \<^verbatim>\<open>tmp\<close>, from \<^verbatim>\<open>i\<close> to \<^verbatim>\<open>n = tp - colonp\<close>.\<close>

definition shift_one :: "nat \<Rightarrow> nat \<Rightarrow> nat \<Rightarrow> byte list \<Rightarrow> byte list" where
  "shift_one colonp n i tmp = (let tmp' = tmp[IN6ADDRSZ - i := tmp ! (colonp + n - i)] in tmp'[colonp + n - i := 0])"

definition shift_tail :: "nat \<Rightarrow> nat \<Rightarrow> byte list \<Rightarrow> byte list" where
  "shift_tail colonp n tmp = fold (shift_one colonp n) [1..<n + 1] tmp"

text \<open>What follows the loop.\<close>

definition inet_pton6_end :: "bool \<Rightarrow> nat \<Rightarrow> byte list \<Rightarrow> nat option \<Rightarrow> byte list option" where
  "inet_pton6_end saw val tmp colonp =
     (if saw \<and> length tmp + INT16SZ > IN6ADDRSZ then None
      else let tmp = (if saw then tmp @ val_bytes val else tmp);
               full = tmp @ replicate (IN6ADDRSZ - length tmp) 0 in
        case colonp of
          Some c \<Rightarrow> Some (shift_tail c (length tmp - c) full)
        | None \<Rightarrow> if length tmp \<noteq> IN6ADDRSZ then None else Some full)"

definition inet_pton6_tok :: "string \<Rightarrow> byte list option" where
  "inet_pton6_tok src = (case inet_pton6_loop src src False 0 [] None of
     None \<Rightarrow> None
   | Some (saw, val, tmp, colonp) \<Rightarrow> inet_pton6_end saw val tmp colonp)"

definition inet_pton6 :: "string \<Rightarrow> byte list option" where
  "inet_pton6 src = (case src of
     c # src' \<Rightarrow> if c = CHR '':'' then (if src' \<noteq> [] \<and> hd src' = CHR '':'' then inet_pton6_tok src' else None)
                 else inet_pton6_tok src
   | [] \<Rightarrow> inet_pton6_tok src)"

text \<open>\<^verbatim>\<open>inet_pton\<close>: the outer left injection is the return of -1, the option the result 0 or 1.\<close>

definition inet_pton :: "addr_family \<Rightarrow> string \<Rightarrow> byte list option res" where
  "inet_pton af src = (case af of
     AF_INET \<Rightarrow> Inr (inet_pton4 src)
   | AF_INET6 \<Rightarrow> Inr (inet_pton6 src)
   | _ \<Rightarrow> Inl EAFNOSUPPORT)"

subsection \<open>Printing\<close>

text \<open>The word array, and the search for the longest run of zero words.\<close>

definition ntop6_words :: "byte list \<Rightarrow> nat list" where
  "ntop6_words src = map (\<lambda>i. push_bit 8 (unat (src ! (2 * i))) OR unat (src ! (2 * i + 1))) [0..<8]"

record run =
  r_base :: nat
  r_len :: nat

definition better_run :: "run option \<Rightarrow> run \<Rightarrow> run option" where
  "better_run best cur = (case best of
     None \<Rightarrow> Some cur
   | Some r \<Rightarrow> if r_len cur > r_len r then Some cur else best)"

fun scan_runs :: "nat list \<Rightarrow> nat \<Rightarrow> run option \<Rightarrow> run option \<Rightarrow> run option" where
  "scan_runs [] i best cur = (case cur of None \<Rightarrow> best | Some c \<Rightarrow> better_run best c)"
| "scan_runs (w # ws) i best cur =
     (if w = 0 then scan_runs ws (i + 1) best
        (Some (case cur of None \<Rightarrow> \<lparr>r_base = i, r_len = 1\<rparr> | Some c \<Rightarrow> c\<lparr>r_len := r_len c + 1\<rparr>))
      else scan_runs ws (i + 1) (case cur of None \<Rightarrow> best | Some c \<Rightarrow> better_run best c) None)"

definition best_run :: "nat list \<Rightarrow> run option" where
  "best_run ws = (case scan_runs ws 0 None None of
     Some r \<Rightarrow> if r_len r < 2 then None else Some r
   | None \<Rightarrow> None)"

definition in_run :: "run option \<Rightarrow> nat \<Rightarrow> bool" where
  "in_run best i = (case best of None \<Rightarrow> False | Some r \<Rightarrow> r_base r \<le> i \<and> i < r_base r + r_len r)"

definition v4_tail :: "run option \<Rightarrow> nat list \<Rightarrow> nat \<Rightarrow> bool" where
  "v4_tail best ws i = (case best of None \<Rightarrow> False
     | Some r \<Rightarrow> i = 6 \<and> r_base r = 0 \<and> (r_len r = 6 \<or> r_len r = 5 \<and> ws ! 5 = 0xffff))"

text \<open>The size of \<^verbatim>\<open>tmp\<close> and the loop that formats from word \<open>i\<close> on; \<open>out\<close> is the text before \<^verbatim>\<open>tp\<close>.\<close>

definition tmp_size :: nat where
  "tmp_size = length ''ffff:ffff:ffff:ffff:ffff:ffff:255.255.255.255'' + 1"

function inet_ntop6_loop :: "byte list \<Rightarrow> nat list \<Rightarrow> run option \<Rightarrow> nat \<Rightarrow> string \<Rightarrow> string res" where
  "inet_ntop6_loop src ws best i out =
     (if i \<ge> 8 then Inr out
      else if in_run best i then
        inet_ntop6_loop src ws best (i + 1) (if Some i = map_option r_base best then out @ '':'' else out)
      else let out = (if i \<noteq> 0 then out @ '':'' else out) in
        if v4_tail best ws i then
          (case inet_ntop4 (drop 12 src) (tmp_size - length out) of Inl e \<Rightarrow> Inl e | Inr t \<Rightarrow> Inr (out @ t))
        else inet_ntop6_loop src ws best (i + 1) (out @ show_hex (ws ! i)))"
  by pat_completeness auto
termination
  by (relation "measure (\<lambda>(src, ws, best, i, out). 8 - i)") auto

declare inet_ntop6_loop.simps [simp del]

definition inet_ntop6 :: "byte list \<Rightarrow> nat \<Rightarrow> string res" where
  "inet_ntop6 src sz = (let ws = ntop6_words src; best = best_run ws in
     case inet_ntop6_loop src ws best 0 [] of
       Inl e \<Rightarrow> Inl e
     | Inr out \<Rightarrow>
         let out = (case best of Some r \<Rightarrow> if r_base r + r_len r = 8 then out @ '':'' else out | None \<Rightarrow> out) in
         if length out + 1 > sz then Inl ENOSPC else Inr out)"

definition inet_ntop :: "addr_family \<Rightarrow> byte list \<Rightarrow> nat \<Rightarrow> string res" where
  "inet_ntop af src sz = (case af of
     AF_INET \<Rightarrow> inet_ntop4 src sz
   | AF_INET6 \<Rightarrow> inet_ntop6 src sz
   | _ \<Rightarrow> Inl EAFNOSUPPORT)"

subsection \<open>Bytes and words\<close>

lemma and_ff: "(n :: nat) AND 0xff = n mod 256"
  using take_bit_eq_mask [of 8 n] by (simp add: take_bit_eq_mod mask_eq_exp_minus_1)

lemma val_bytes_pair [simp]:
  "val_bytes (256 * unat (a :: byte) + unat (b :: byte)) = [a, b]"
  by (simp add: val_bytes_def and_ff drop_bit_eq_div)

lemma length_val_bytes [simp]: "length (val_bytes w) = 2"
  by (simp add: val_bytes_def)

lemma val_bytes_0 [simp]: "val_bytes 0 = [0, 0]"
  by (simp add: val_bytes_def)

definition words_bytes :: "nat list \<Rightarrow> byte list" where
  "words_bytes ws = concat (map val_bytes ws)"

lemma words_bytes_simps [simp]:
  "words_bytes [] = []" "words_bytes (w # ws) = val_bytes w @ words_bytes ws"
  "words_bytes (us @ ws) = words_bytes us @ words_bytes ws"
  by (simp_all add: words_bytes_def)

lemma length_words_bytes [simp]: "length (words_bytes ws) = 2 * length ws"
  by (induction ws) auto

lemma words_bytes_zero: "words_bytes (replicate n 0) = replicate (2 * n) 0"
  by (induction n) auto

lemma length_ntop6_words [simp]: "length (ntop6_words src) = 8"
  by (simp add: ntop6_words_def)

lemma list16:
  assumes "length xs = 16"
  obtains a b c d e f g h i j k l m n p q where "xs = [a, b, c, d, e, f, g, h, i, j, k, l, m, n, p, q]"
  using assms by (auto simp: numeral_eq_Suc length_Suc_conv)

lemma ntop6_words_bytes: "length src = 16 \<Longrightarrow> words_bytes (ntop6_words src) = src"
  by (erule list16) (simp add: ntop6_words_def upt_rec byte_or)

lemma ntop6_words_le: "length src = 16 \<Longrightarrow> w \<in> set (ntop6_words src) \<Longrightarrow> w \<le> 0xffff"
proof -
  have "256 * unat (a :: byte) + unat (b :: byte) \<le> 0xffff" for a b
    using byte_less(2) [of a] byte_less(2) [of b] by linarith
  then show "length src = 16 \<Longrightarrow> w \<in> set (ntop6_words src) \<Longrightarrow> w \<le> 0xffff"
    by (auto simp: ntop6_words_def byte_or)
qed

subsection \<open>The shift\<close>

lemma shift_one_gap:
  assumes "length xs + length ys + g = 16" "0 < g" "xs \<noteq> []" "i = length ys + 1" "c + n - i = length xs - 1"
  shows "shift_one c n i (xs @ replicate g 0 @ ys) = butlast xs @ replicate g 0 @ last xs # ys"
proof -
  obtain us x where xs: "xs = us @ [x]"
    using assms(3) by (metis rev_exhaust)
  obtain h where g: "g = Suc h"
    using assms(2) by (cases g) auto
  have rep: "replicate (Suc h) (0 :: byte) = replicate h 0 @ [0]"
    by (simp add: replicate_append_same)
  have pos: "16 - i = length us + 1 + h" "c + n - i = length us"
    using assms xs g by auto
  have "shift_one c n i (us @ [x] @ (replicate h 0 @ [0]) @ ys) = us @ [0] @ replicate h 0 @ [x] @ ys"
    unfolding shift_one_def sizes pos by (simp add: nth_append list_update_append)
  then show ?thesis
    using xs g rep by simp
qed

lemma shift_tail_gap:
  assumes "c \<le> length bs" "length bs < 16"
  shows "shift_tail c (length bs - c) (bs @ replicate (16 - length bs) 0) =
    take c bs @ replicate (16 - length bs) 0 @ drop c bs"
proof -
  let ?n = "length bs - c" and ?g = "16 - length bs"
  have "fold (shift_one c ?n) [1..<k + 1] (bs @ replicate ?g 0) =
      take (length bs - k) bs @ replicate ?g 0 @ drop (length bs - k) bs" if "k \<le> ?n" for k
    using that
  proof (induction k)
    case (Suc k)
    let ?xs = "take (length bs - k) bs" and ?ys = "drop (length bs - k) bs"
    have ne: "?xs \<noteq> []"
      using Suc.prems by auto
    have lst: "last ?xs = bs ! (length bs - Suc k)" and bl: "butlast ?xs = take (length bs - Suc k) bs"
      using Suc.prems last_conv_nth [OF ne] by (auto simp: butlast_take)
    have "shift_one c ?n (k + 1) (?xs @ replicate ?g 0 @ ?ys) = butlast ?xs @ replicate ?g 0 @ last ?xs # ?ys"
      using Suc.prems assms ne by (intro shift_one_gap) auto
    moreover have "bs ! (length bs - Suc k) # ?ys = drop (length bs - Suc k) bs"
      using Suc.prems by (subst Cons_nth_drop_Suc [symmetric]) (auto simp: Suc_diff_Suc)
    ultimately show ?case
      using Suc.IH Suc.prems lst bl by simp
  qed simp
  from this [of ?n] show ?thesis
    using assms by (simp add: shift_tail_def)
qed

subsection \<open>Reading groups\<close>

lemma xdigit_hex [simp]: "d < 16 \<Longrightarrow> xdigit (xdigits_l ! d) = Some d"
  by (simp add: xdigit_def)

lemma xdigit_seps [simp]: "xdigit CHR '':'' = None" "xdigit CHR ''.'' = None"
  by (simp_all add: xdigit_def)

lemma xdigit_dec: "strchr digits c = Some d \<Longrightarrow> xdigit c = Some d \<and> d < 10"
  using digit_xdigit [of c d] by (simp add: xdigit_def)

lemma pton6_hex:
  "n \<le> 0xffff \<Longrightarrow> inet_pton6_loop (show_hex n @ rest) ct saw 0 tmp cp = inet_pton6_loop rest ct True n tmp cp"
proof (induction n arbitrary: saw rest rule: show_hex.induct)
  case (1 n)
  show ?case
  proof (cases "n < 16")
    case True
    then show ?thesis
      using 1(2) by (subst show_hex.simps) (simp add: Let_def)
  next
    case False
    then show ?thesis
      using 1 by (subst show_hex.simps) (simp add: Let_def shift_or)
  qed
qed

lemma pton6_dec:
  assumes "\<forall>c \<in> set ds. strchr digits c \<noteq> None" "v < 16 ^ (4 - length ds)" "length ds \<le> 3" "ds \<noteq> []"
  shows "\<exists>v'. inet_pton6_loop (ds @ rest) ct saw v tmp cp = inet_pton6_loop rest ct True v' tmp cp"
  using assms
proof (induction ds arbitrary: v saw)
  case (Cons c ds)
  obtain d where d: "strchr digits c = Some d"
    using Cons.prems by auto
  have dx: "xdigit c = Some d" "d < 16"
    using xdigit_dec [OF d] by auto
  have le: "16 * v + d < 16 ^ (4 - length ds)"
  proof -
    have "Suc v \<le> 16 ^ (3 - length ds)"
      using Cons.prems by (simp add: Suc_le_eq)
    then have "16 * Suc v \<le> 16 ^ Suc (3 - length ds)"
      by simp
    also have "Suc (3 - length ds) = 4 - length ds"
      using Cons.prems by simp
    finally show ?thesis
      using dx(2) by simp
  qed
  also have "(16::nat) ^ (4 - length ds) \<le> 16 ^ 4"
    by (rule power_increasing) simp_all
  finally have "16 * v + d \<le> 0xffff"
    by simp
  then have step: "inet_pton6_loop ((c # ds) @ rest) ct saw v tmp cp = inet_pton6_loop (ds @ rest) ct True (16 * v + d) tmp cp"
    using dx by (simp add: Let_def shift_or)
  show ?case
  proof (cases "ds = []")
    case True
    with step show ?thesis
      by auto
  next
    case False
    with Cons.IH [of "16 * v + d" True] Cons.prems le show ?thesis
      unfolding step by simp
  qed
qed simp

lemma pton6_group:
  assumes "w \<le> 0xffff" "length tmp + 2 \<le> 16"
  shows "inet_pton6_loop (show_hex w @ CHR '':'' # rest) ct saw 0 tmp cp =
    inet_pton6_loop rest rest False 0 (tmp @ val_bytes w) cp"
  using pton6_hex [OF assms(1), of "CHR '':'' # rest" ct saw tmp cp] assms(2) by simp

definition colon_terminated :: "nat list \<Rightarrow> string" where
  "colon_terminated ws = concat (map (\<lambda>w. show_hex w @ '':'') ws)"

definition colon_joined :: "nat list \<Rightarrow> string" where
  "colon_joined ws = join CHR '':'' (map show_hex ws)"

lemma pton6_prefix:
  assumes "\<forall>w \<in> set ws. w \<le> 0xffff" "length tmp + 2 * length ws \<le> 16"
  shows "inet_pton6_loop (colon_terminated ws @ CHR '':'' # rest) ct False 0 tmp None =
    inet_pton6_loop rest rest False 0 (tmp @ words_bytes ws) (Some (length tmp + 2 * length ws))"
  using assms
proof (induction ws arbitrary: tmp ct)
  case Nil
  then show ?case
    by (simp add: colon_terminated_def)
next
  case (Cons w ws)
  then show ?case
    using pton6_group [of w tmp "colon_terminated ws @ CHR '':'' # rest" ct False None]
    by (simp add: colon_terminated_def)
qed

lemma pton6_groups:
  assumes "ws \<noteq> []" "\<forall>w \<in> set ws. w \<le> 0xffff" "length tmp + 2 * length ws \<le> 16"
  shows "inet_pton6_loop (colon_joined ws) ct False 0 tmp cp =
    Some (True, last ws, tmp @ words_bytes (butlast ws), cp)"
  using assms
proof (induction ws arbitrary: tmp ct)
  case (Cons w ws)
  show ?case
  proof (cases "ws = []")
    case True
    then show ?thesis
      using Cons.prems pton6_hex [of w "[]" ct False tmp cp] by (simp add: colon_joined_def)
  next
    case False
    then show ?thesis
      using Cons.prems Cons.IH [of "tmp @ val_bytes w"] pton6_group [of w tmp "colon_joined ws" ct False cp]
      by (simp add: colon_joined_def join_Cons)
  qed
qed simp

text \<open>An IPv4 tail: the first octet is read as hexadecimal digits before the dot.\<close>

lemma pton6_quad:
  assumes "length q = 4" "length tmp \<le> 12"
  shows "\<exists>v. inet_pton6_loop (dotted_quad q) (dotted_quad q) False 0 tmp cp = Some (False, v, tmp @ q, cp)"
proof -
  let ?d = "show_dec (unat (q ! 0))"
  obtain rest where rest: "dotted_quad q = ?d @ CHR ''.'' # rest"
    by (simp add: dotted_quad_def)
  have "\<exists>v. inet_pton6_loop (?d @ CHR ''.'' # rest) (dotted_quad q) False 0 tmp cp =
      inet_pton6_loop (CHR ''.'' # rest) (dotted_quad q) True v tmp cp"
    using length_show_dec [of "unat (q ! 0)"] by (intro pton6_dec) (auto dest: show_dec_digits)
  then show ?thesis
    using assms inet_pton4_dotted [OF assms(1)] unfolding rest [symmetric] by auto
qed

lemma pton6_end_groups:
  assumes "ws \<noteq> []" "length tmp + 2 * length ws \<le> 16"
  shows "inet_pton6_end True (last ws) (tmp @ words_bytes (butlast ws)) cp = inet_pton6_end False 0 (tmp @ words_bytes ws) cp"
proof -
  have "words_bytes ws = words_bytes (butlast ws) @ val_bytes (last ws)"
    using words_bytes_simps(3) [of "butlast ws" "[last ws]"] assms(1) by simp
  moreover have "length ws \<ge> 1"
    using assms(1) by (cases ws) auto
  ultimately show ?thesis
    using assms by (auto simp: inet_pton6_end_def Let_def)
qed

lemma pton6_end_gap:
  assumes "length us + l + length vs = 8" "1 \<le> l" "bs = words_bytes us @ vb" "length vb = 2 * length vs"
  shows "inet_pton6_end False v bs (Some (2 * length us)) = Some (words_bytes us @ replicate (2 * l) 0 @ vb)"
proof -
  have "16 - length bs = 2 * l" "length bs < 16" "length bs - 2 * length us = length vb"
    using assms by auto
  then show ?thesis
    using shift_tail_gap [of "2 * length us" bs] assms(3) by (simp add: inet_pton6_end_def Let_def)
qed

lemma pton6_terminated:
  assumes "\<forall>w \<in> set ws. w \<le> 0xffff" "length tmp + 2 * length ws \<le> 16"
  shows "inet_pton6_loop (colon_terminated ws @ rest) (colon_terminated ws @ rest) False 0 tmp cp =
    inet_pton6_loop rest rest False 0 (tmp @ words_bytes ws) cp"
proof -
  have "inet_pton6_loop (colon_terminated ws @ rest) ct False 0 tmp cp =
      inet_pton6_loop rest rest False 0 (tmp @ words_bytes ws) cp" if "ws \<noteq> []" for ct
    using assms that
  proof (induction ws arbitrary: tmp ct)
    case (Cons w ws)
    then show ?case
      using pton6_group [of w tmp "colon_terminated ws @ rest" ct False cp]
      by (cases "ws = []") (simp_all add: colon_terminated_def)
  qed simp
  then show ?thesis
    by (cases "ws = []") (simp_all add: colon_terminated_def)
qed

subsection \<open>Reading the three forms of text\<close>

lemma pton6_tok_full:
  assumes "length ws = 8" "\<forall>w \<in> set ws. w \<le> 0xffff"
  shows "inet_pton6_tok (colon_joined ws) = Some (words_bytes ws)"
proof -
  have "ws \<noteq> []"
    using assms(1) by auto
  then have "inet_pton6_tok (colon_joined ws) = inet_pton6_end False 0 (words_bytes ws) None"
    using pton6_groups [of ws "[]"] pton6_end_groups [of ws "[]"] assms by (simp add: inet_pton6_tok_def)
  then show ?thesis
    using assms(1) by (simp add: inet_pton6_end_def Let_def)
qed

lemma pton6_tok_gap:
  assumes "length us + l + length vs = 8" "1 \<le> l" "\<forall>w \<in> set us \<union> set vs. w \<le> 0xffff"
  shows "inet_pton6_tok (colon_terminated us @ CHR '':'' # colon_joined vs) =
    Some (words_bytes us @ replicate (2 * l) 0 @ words_bytes vs)"
proof -
  have loop: "inet_pton6_loop (colon_terminated us @ CHR '':'' # colon_joined vs) ct False 0 [] None =
      inet_pton6_loop (colon_joined vs) (colon_joined vs) False 0 (words_bytes us) (Some (2 * length us))" for ct
    using pton6_prefix [of us "[]" "colon_joined vs" ct] assms by simp
  have tail: "inet_pton6_end False 0 (words_bytes us @ words_bytes vs) (Some (2 * length us)) =
      Some (words_bytes us @ replicate (2 * l) 0 @ words_bytes vs)"
    using assms by (intro pton6_end_gap [where vs = vs]) auto
  show ?thesis
  proof (cases "vs = []")
    case True
    then show ?thesis
      using loop tail by (simp add: inet_pton6_tok_def colon_joined_def)
  next
    case False
    then show ?thesis
      using loop tail pton6_groups [of vs "words_bytes us" "colon_joined vs" "Some (2 * length us)"]
        pton6_end_groups [of vs "words_bytes us" "Some (2 * length us)"] assms
      by (simp add: inet_pton6_tok_def)
  qed
qed

lemma pton6_tok_quad:
  assumes "length us + l + length vs = 6" "1 \<le> l" "\<forall>w \<in> set us \<union> set vs. w \<le> 0xffff" "length q = 4"
  shows "inet_pton6_tok (colon_terminated us @ CHR '':'' # colon_terminated vs @ dotted_quad q) =
    Some (words_bytes us @ replicate (2 * l) 0 @ words_bytes vs @ q)"
proof -
  let ?rest = "colon_terminated vs @ dotted_quad q"
  obtain v where v: "inet_pton6_loop (dotted_quad q) (dotted_quad q) False 0 (words_bytes us @ words_bytes vs) (Some (2 * length us)) =
      Some (False, v, (words_bytes us @ words_bytes vs) @ q, Some (2 * length us))"
    using pton6_quad [OF assms(4), of "words_bytes us @ words_bytes vs" "Some (2 * length us)"] assms(1) by auto
  have "inet_pton6_loop (colon_terminated us @ CHR '':'' # ?rest) ct False 0 [] None =
      Some (False, v, words_bytes us @ words_bytes vs @ q, Some (2 * length us))" for ct
    using pton6_prefix [of us "[]" ?rest ct] pton6_terminated [of vs "words_bytes us" "dotted_quad q" "Some (2 * length us)"]
      v assms by simp
  moreover have "inet_pton6_end False v (words_bytes us @ words_bytes vs @ q) (Some (2 * length us)) =
      Some (words_bytes us @ replicate (2 * l) 0 @ words_bytes vs @ q)"
    using assms by (intro pton6_end_gap [where vs = "vs @ [0, 0]"]) auto
  ultimately show ?thesis
    by (simp add: inet_pton6_tok_def)
qed

text \<open>A leading double colon loses its first colon; other texts start with a digit.\<close>

lemma hd_show_hex: "xdigit (hd (show_hex n)) \<noteq> None"
proof (induction n rule: show_hex.induct)
  case (1 n)
  then show ?case
    by (subst show_hex.simps) (auto simp: hd_append)
qed

lemma hd_show_hex_colon: "hd (show_hex n) \<noteq> CHR '':''"
  using hd_show_hex [of n] by auto

lemma inet_pton6_colons: "inet_pton6 (CHR '':'' # CHR '':'' # rest) = inet_pton6_tok (CHR '':'' # rest)"
  by (simp add: inet_pton6_def)

lemma inet_pton6_digit: "inet_pton6 (show_hex w @ rest) = inet_pton6_tok (show_hex w @ rest)"
  using hd_show_hex_colon [of w] by (cases "show_hex w") (auto simp: inet_pton6_def)

subsection \<open>The run of zeros\<close>

definition zero_run :: "nat list \<Rightarrow> run \<Rightarrow> bool" where
  "zero_run ws r \<longleftrightarrow> r_base r + r_len r \<le> length ws \<and> (\<forall>j. r_base r \<le> j \<longrightarrow> j < r_base r + r_len r \<longrightarrow> ws ! j = 0)"

definition zero_runs :: "nat list \<Rightarrow> run option \<Rightarrow> bool" where
  "zero_runs ws best \<longleftrightarrow> (\<forall>r. best = Some r \<longrightarrow> zero_run ws r)"

lemma zero_runs_simps [simp]: "zero_runs ws None" "zero_runs ws (Some r) = zero_run ws r"
  by (simp_all add: zero_runs_def)

lemma better_run_zero: "zero_runs ws best \<Longrightarrow> zero_run ws c \<Longrightarrow> zero_runs ws (better_run best c)"
  by (cases best) (simp_all add: better_run_def)

lemma scan_runs_zero:
  assumes "ws = drop i all" "i \<le> length all" "zero_runs all best"
    "case cur of None \<Rightarrow> True | Some c \<Rightarrow> zero_run all c \<and> r_base c + r_len c = i"
  shows "zero_runs all (scan_runs ws i best cur)"
  using assms
proof (induction ws i best cur rule: scan_runs.induct)
  case (1 i best cur)
  then show ?case
    by (cases cur) (simp_all add: better_run_zero)
next
  case (2 w ws i best cur)
  have i: "i < length all"
    using 2(3) by (cases "i < length all") auto
  have "w # ws = all ! i # drop (Suc i) all"
    unfolding 2(3) by (rule Cons_nth_drop_Suc [OF i, symmetric])
  then have w: "all ! i = w" and ws: "ws = drop (i + 1) all"
    by simp_all
  have best: "zero_runs all (case cur of None \<Rightarrow> best | Some c \<Rightarrow> better_run best c)"
    using 2(5,6) by (cases cur) (simp_all add: better_run_zero)
  show ?case
  proof (cases "w = 0")
    case True
    have "case Some (case cur of None \<Rightarrow> \<lparr>r_base = i, r_len = 1\<rparr> | Some c \<Rightarrow> c\<lparr>r_len := r_len c + 1\<rparr>) of
        None \<Rightarrow> True | Some c \<Rightarrow> zero_run all c \<and> r_base c + r_len c = i + 1"
      using 2(6) i w True by (cases cur) (auto simp: zero_run_def less_Suc_eq)
    then show ?thesis
      using 2(1) [OF True ws] 2(5) i True by simp
  next
    case False
    then show ?thesis
      using 2(2) [OF False ws] best i by simp
  qed
qed

lemma best_run_zero:
  assumes "best_run ws = Some r"
  shows "zero_run ws r \<and> 2 \<le> r_len r"
  using assms scan_runs_zero [of ws 0 ws None None]
  by (auto simp: best_run_def zero_runs_def split: option.splits if_splits)

subsection \<open>The text \<open>inet_ntop6\<close> builds\<close>

text \<open>The words \<open>i\<close> to \<open>j - 1\<close> as the loop prints them outside of the run.\<close>

definition groups :: "nat list \<Rightarrow> nat \<Rightarrow> nat \<Rightarrow> string" where
  "groups ws i j = concat (map (\<lambda>k. (if k \<noteq> 0 then '':'' else []) @ show_hex (ws ! k)) [i..<j])"

lemma ntop6_loop_groups:
  assumes "i \<le> j" "j \<le> 8" "\<forall>k. i \<le> k \<longrightarrow> k < j \<longrightarrow> \<not> in_run best k \<and> \<not> v4_tail best ws k"
  shows "inet_ntop6_loop src ws best i out = inet_ntop6_loop src ws best j (out @ groups ws i j)"
  using assms
proof (induction "j - i" arbitrary: i out)
  case 0
  then show ?case
    by (simp add: groups_def)
next
  case (Suc d)
  then have "groups ws i j = (if i \<noteq> 0 then '':'' else []) @ show_hex (ws ! i) @ groups ws (i + 1) j"
    by (simp add: groups_def upt_conv_Cons)
  moreover have "i < 8"
    using Suc.hyps(2) Suc.prems by simp
  ultimately show ?case
    using Suc.hyps(1) [of "i + 1"] Suc.hyps(2) Suc.prems
    by (subst inet_ntop6_loop.simps) (simp add: Let_def)
qed

lemma ntop6_loop_inside:
  assumes "best = Some r" "r_base r \<le> i" "i < r_base r + r_len r" "i < 8"
  shows "inet_ntop6_loop src ws best i out =
    inet_ntop6_loop src ws best (i + 1) (if i = r_base r then out @ '':'' else out)"
proof -
  have "in_run best i" "(Some i = map_option r_base best) = (i = r_base r)"
    using assms by (simp_all add: in_run_def)
  then show ?thesis
    using assms(4) by (subst inet_ntop6_loop.simps) (simp only: if_True not_le [symmetric] if_False)
qed

lemma ntop6_loop_run:
  assumes "best = Some r" "r_base r < i" "i \<le> r_base r + r_len r" "r_base r + r_len r \<le> 8"
  shows "inet_ntop6_loop src ws best i out = inet_ntop6_loop src ws best (r_base r + r_len r) out"
  using assms(2,3)
proof (induction "r_base r + r_len r - i" arbitrary: i)
  case (Suc d)
  have "inet_ntop6_loop src ws best i out = inet_ntop6_loop src ws best (i + 1) out"
    using ntop6_loop_inside [OF assms(1), of i src ws out] Suc.hyps(2) Suc.prems assms(4) by simp
  also have "\<dots> = inet_ntop6_loop src ws best (r_base r + r_len r) out"
    using Suc.hyps(2) Suc.prems by (intro Suc.hyps(1)) simp_all
  finally show ?case .
qed simp

lemma ntop6_loop_enter:
  assumes "best = Some r" "2 \<le> r_len r" "r_base r + r_len r \<le> 8"
  shows "inet_ntop6_loop src ws best (r_base r) out = inet_ntop6_loop src ws best (r_base r + r_len r) (out @ '':'')"
proof -
  have "inet_ntop6_loop src ws best (r_base r) out = inet_ntop6_loop src ws best (r_base r + 1) (out @ '':'')"
    using ntop6_loop_inside [OF assms(1), of "r_base r" src ws out] assms(2,3) by simp
  also have "\<dots> = inet_ntop6_loop src ws best (r_base r + r_len r) (out @ '':'')"
    using assms by (intro ntop6_loop_run) simp_all
  finally show ?thesis .
qed

lemma ntop6_loop_end: "inet_ntop6_loop src ws best 8 out = Inr out"
  by (subst inet_ntop6_loop.simps) simp

lemma groups_Suc: "i \<le> b \<Longrightarrow> groups ws i (Suc b) = groups ws i b @ (if b \<noteq> 0 then '':'' else []) @ show_hex (ws ! b)"
  by (simp add: groups_def)

lemma terminated_Suc:
  "b < length ws \<Longrightarrow> colon_terminated (take (Suc b) ws) = colon_terminated (take b ws) @ show_hex (ws ! b) @ '':''"
  by (simp add: colon_terminated_def take_Suc_conv_app_nth)

lemma groups_empty [simp]: "groups ws i i = []" "colon_terminated [] = []" "colon_joined [] = []"
  by (simp_all add: groups_def colon_terminated_def colon_joined_def)

lemma groups_terminated:
  "b \<le> length ws \<Longrightarrow> 0 < b \<Longrightarrow> groups ws 0 b @ '':'' = colon_terminated (take b ws)"
proof (induction b)
  case (Suc b)
  then have "groups ws 0 b @ (if b \<noteq> 0 then '':'' else []) = colon_terminated (take b ws)"
    by (cases "b = 0") simp_all
  then have "groups ws 0 (Suc b) = colon_terminated (take b ws) @ show_hex (ws ! b)"
    unfolding groups_Suc [OF le0] by (metis append_assoc)
  then show ?case
    using Suc.prems by (simp add: terminated_Suc)
qed simp

lemma groups_joined:
  "0 < i \<Longrightarrow> i < length ws \<Longrightarrow> groups ws i (length ws) = CHR '':'' # colon_joined (drop i ws)"
proof (induction "length ws - i" arbitrary: i)
  case (Suc d)
  then have "groups ws i (length ws) = CHR '':'' # show_hex (ws ! i) @ groups ws (i + 1) (length ws)"
    by (simp add: groups_def upt_conv_Cons)
  moreover have drop: "drop i ws = ws ! i # drop (i + 1) ws"
    using Suc.prems by (simp add: Cons_nth_drop_Suc)
  ultimately show ?case
    using Suc.hyps(1) [of "i + 1"] Suc.hyps(2) Suc.prems
    by (cases "i + 1 < length ws") (auto simp: colon_joined_def join_Cons groups_def)
qed simp

lemma groups_all: "groups (w # ws) 0 (Suc (length ws)) = colon_joined (w # ws)"
proof -
  have "groups (w # ws) 0 (Suc (length ws)) = show_hex w @ groups (w # ws) 1 (Suc (length ws))"
    by (simp add: groups_def upt_conv_Cons del: upt_Suc)
  then show ?thesis
    using groups_joined [of 1 "w # ws"]
    by (cases "ws = []") (simp_all add: colon_joined_def join_Cons groups_def)
qed

definition ntop6_text :: "byte list \<Rightarrow> string res" where
  "ntop6_text src = (let ws = ntop6_words src; best = best_run ws in
     case inet_ntop6_loop src ws best 0 [] of
       Inl e \<Rightarrow> Inl e
     | Inr out \<Rightarrow> Inr (case best of Some r \<Rightarrow> if r_base r + r_len r = 8 then out @ '':'' else out | None \<Rightarrow> out))"

lemma inet_ntop6_text:
  "inet_ntop6 src sz = (case ntop6_text src of Inl e \<Rightarrow> Inl e
     | Inr out \<Rightarrow> if length out + 1 > sz then Inl ENOSPC else Inr out)"
  by (auto simp: inet_ntop6_def ntop6_text_def Let_def split: sum.splits)

lemma v4_tail_None [simp]: "\<not> v4_tail None ws k" "\<not> in_run None k"
  by (simp_all add: v4_tail_def in_run_def)

lemma ntop6_text_full:
  assumes "best_run (ntop6_words src) = None"
  shows "ntop6_text src = Inr (colon_joined (ntop6_words src))"
proof -
  let ?ws = "ntop6_words src"
  obtain w ws where ws: "?ws = w # ws" "length ws = 7"
    using length_ntop6_words [of src] by (cases ?ws) (auto simp del: length_ntop6_words)
  have "inet_ntop6_loop src ?ws None 0 [] = Inr (groups ?ws 0 8)"
    using ntop6_loop_groups [of 0 8 None ?ws src "[]"] by (simp add: ntop6_loop_end)
  also have "groups ?ws 0 8 = colon_joined ?ws"
    using groups_all [of w ws] ws by simp
  finally show ?thesis
    using assms by (simp add: ntop6_text_def)
qed

text \<open>With a run: the words before it, two colons, the words after it.\<close>

definition before_run :: "nat list \<Rightarrow> run \<Rightarrow> string" where
  "before_run ws r = (if r_base r = 0 then '':'' else colon_terminated (take (r_base r) ws))"

lemma ntop6_loop_before:
  assumes "length ws = 8" "best = Some r" "2 \<le> r_len r" "r_base r + r_len r \<le> 8"
  shows "inet_ntop6_loop src ws best 0 [] = inet_ntop6_loop src ws best (r_base r + r_len r) (before_run ws r)"
proof -
  have "inet_ntop6_loop src ws best 0 [] = inet_ntop6_loop src ws best (r_base r) (groups ws 0 (r_base r))"
    using ntop6_loop_groups [of 0 "r_base r" best ws src "[]"] assms by (simp add: in_run_def v4_tail_def)
  also have "\<dots> = inet_ntop6_loop src ws best (r_base r + r_len r) (groups ws 0 (r_base r) @ '':'')"
    using assms by (intro ntop6_loop_enter)
  finally show ?thesis
    using groups_terminated [of "r_base r" ws] assms by (simp add: before_run_def)
qed

lemma ntop6_text_gap:
  assumes "best_run (ntop6_words src) = Some r" "\<not> v4_tail (Some r) (ntop6_words src) 6"
  shows "ntop6_text src = Inr (before_run (ntop6_words src) r @ CHR '':'' #
    colon_joined (drop (r_base r + r_len r) (ntop6_words src)))"
proof -
  let ?ws = "ntop6_words src" and ?m = "r_base r + r_len r"
  have r: "2 \<le> r_len r" "?m \<le> 8"
    using best_run_zero [OF assms(1)] by (auto simp: zero_run_def)
  have "\<not> v4_tail (Some r) ?ws k" for k
    using assms(2) by (auto simp: v4_tail_def)
  then have "inet_ntop6_loop src ?ws (Some r) 0 [] = Inr (before_run ?ws r @ groups ?ws ?m 8)"
    using ntop6_loop_before [of ?ws "Some r" r src] ntop6_loop_groups [of ?m 8 "Some r" ?ws src "before_run ?ws r"] r
    by (simp add: ntop6_loop_end in_run_def)
  moreover have "groups ?ws ?m 8 = (if ?m = 8 then [] else CHR '':'' # colon_joined (drop ?m ?ws))"
    using groups_joined [of ?m ?ws] r by simp
  ultimately show ?thesis
    using assms(1) by (simp add: ntop6_text_def Let_def)
qed

lemma length_dotted_quad: "length (dotted_quad q) \<le> 15"
  using length_show_dec [of "unat (q ! 0)"] length_show_dec [of "unat (q ! 1)"]
    length_show_dec [of "unat (q ! 2)"] length_show_dec [of "unat (q ! 3)"]
  by (simp add: dotted_quad_def)

lemma ntop6_loop_quad:
  assumes "v4_tail (Some r) ws 6" "length out \<le> 6"
  shows "inet_ntop6_loop src ws (Some r) 6 out = Inr (out @ CHR '':'' # dotted_quad (drop 12 src))"
proof -
  have "\<not> in_run (Some r) 6"
    using assms(1) by (auto simp: v4_tail_def in_run_def)
  then show ?thesis
    using assms length_dotted_quad [of "drop 12 src"]
    by (subst inet_ntop6_loop.simps) (simp add: Let_def inet_ntop4_def tmp_size_def)
qed

lemma ntop6_text_quad:
  assumes "best_run (ntop6_words src) = Some r" "v4_tail (Some r) (ntop6_words src) 6"
  shows "ntop6_text src = Inr (CHR '':'' # CHR '':'' #
    colon_terminated (if r_len r = 6 then [] else [0xffff]) @ dotted_quad (drop 12 src))"
proof -
  let ?ws = "ntop6_words src"
  have r: "r_base r = 0" "r_len r = 6 \<or> r_len r = 5 \<and> ?ws ! 5 = 0xffff"
    using assms(2) by (auto simp: v4_tail_def)
  have start: "inet_ntop6_loop src ?ws (Some r) 0 [] = inet_ntop6_loop src ?ws (Some r) (r_len r) '':''"
    using ntop6_loop_before [of ?ws "Some r" r src] r by (auto simp: before_run_def)
  show ?thesis
  proof (cases "r_len r = 6")
    case True
    then show ?thesis
      using start ntop6_loop_quad [OF assms(2), of "'':''" src] assms(1) r(1) by (simp add: ntop6_text_def)
  next
    case False
    then have five: "r_len r = 5" "?ws ! 5 = 0xffff"
      using r(2) by auto
    have "inet_ntop6_loop src ?ws (Some r) 5 '':'' = inet_ntop6_loop src ?ws (Some r) 6 ('':'' @ groups ?ws 5 6)"
      using five r(1) by (intro ntop6_loop_groups) (auto simp: in_run_def v4_tail_def)
    also have "groups ?ws 5 6 = CHR '':'' # show_hex 0xffff"
      using five by (simp add: groups_def)
    also have "length (show_hex 0xffff) \<le> 4"
      by (rule length_show_hex) simp
    ultimately show ?thesis
      using start ntop6_loop_quad [OF assms(2), of "'':'' @ CHR '':'' # show_hex 0xffff" src] assms(1) r(1) five
      by (simp add: ntop6_text_def colon_terminated_def)
  qed
qed

subsection \<open>Round trip\<close>

lemma zero_run_split:
  assumes "zero_run ws r"
  shows "ws = take (r_base r) ws @ replicate (r_len r) 0 @ drop (r_base r + r_len r) ws"
proof -
  have mid: "take (r_len r) (drop (r_base r) ws) = replicate (r_len r) 0"
    using assms by (intro nth_equalityI) (auto simp: zero_run_def)
  have "ws = take (r_base r) ws @ drop (r_base r) ws"
    by simp
  also have "drop (r_base r) ws = take (r_len r) (drop (r_base r) ws) @ drop (r_base r + r_len r) ws"
    by (metis append_take_drop_id drop_drop add.commute)
  finally show ?thesis
    unfolding mid .
qed

lemma inet_pton6_before:
  assumes "\<forall>w \<in> set ws. w \<le> 0xffff" "r_base r < length ws"
  shows "inet_pton6 (before_run ws r @ CHR '':'' # rest) = inet_pton6_tok (colon_terminated (take (r_base r) ws) @ CHR '':'' # rest)"
proof (cases "r_base r = 0")
  case True
  then show ?thesis
    by (simp add: before_run_def inet_pton6_colons)
next
  case False
  then obtain w us where "take (r_base r) ws = w # us"
    using assms(2) by (cases "take (r_base r) ws") auto
  then show ?thesis
    using False inet_pton6_digit [of w] by (simp add: before_run_def colon_terminated_def)
qed

lemma pton6_text_gap:
  assumes src: "length src = 16" and best: "best_run (ntop6_words src) = Some r"
    and tail: "\<not> v4_tail (Some r) (ntop6_words src) 6"
  shows "\<exists>out. ntop6_text src = Inr out \<and> inet_pton6 out = Some src"
proof -
  let ?ws = "ntop6_words src" and ?us = "take (r_base r) (ntop6_words src)" and ?vs = "drop (r_base r + r_len r) (ntop6_words src)"
  have r: "zero_run ?ws r" "2 \<le> r_len r" "r_base r + r_len r \<le> 8"
    using best_run_zero [OF best] by (auto simp: zero_run_def)
  have le: "\<forall>w \<in> set ?ws. w \<le> 0xffff"
    using ntop6_words_le [OF src] by blast
  then have sub: "\<forall>w \<in> set ?us \<union> set ?vs. w \<le> 0xffff"
    by (auto dest: in_set_takeD in_set_dropD)
  have "inet_pton6 (before_run ?ws r @ CHR '':'' # colon_joined ?vs) = Some (words_bytes ?us @ replicate (2 * r_len r) 0 @ words_bytes ?vs)"
    using inet_pton6_before [OF le, of r] pton6_tok_gap [of ?us "r_len r" ?vs] r sub by simp
  also have "words_bytes ?us @ replicate (2 * r_len r) 0 @ words_bytes ?vs = words_bytes (?us @ replicate (r_len r) 0 @ ?vs)"
    by (simp add: words_bytes_zero)
  also have "?us @ replicate (r_len r) 0 @ ?vs = ?ws"
    using zero_run_split [OF r(1)] by simp
  finally show ?thesis
    using ntop6_text_gap [OF best tail] ntop6_words_bytes [OF src] by simp
qed

lemma pton6_text_quad:
  assumes src: "length src = 16" and best: "best_run (ntop6_words src) = Some r"
    and tail: "v4_tail (Some r) (ntop6_words src) 6"
  shows "\<exists>out. ntop6_text src = Inr out \<and> inet_pton6 out = Some src"
proof -
  let ?ws = "ntop6_words src" and ?vs = "if r_len r = 6 then [] else [0xffff :: nat]"
  have r: "zero_run ?ws r" "r_base r = 0" "r_len r = 6 \<or> r_len r = 5 \<and> ?ws ! 5 = 0xffff"
    using best_run_zero [OF best] tail by (auto simp: v4_tail_def)
  have words: "?ws = replicate (r_len r) 0 @ ?vs @ drop 6 ?ws"
  proof (cases "r_len r = 6")
    case True
    then show ?thesis
      using zero_run_split [OF r(1)] r(2) by simp
  next
    case False
    then have five: "r_len r = 5" "?ws ! 5 = 0xffff"
      using r(3) by auto
    have "drop 5 ?ws = 0xffff # drop 6 ?ws"
      using Cons_nth_drop_Suc [of 5 ?ws] five by simp
    then show ?thesis
      using zero_run_split [OF r(1)] r(2) five by simp
  qed
  have bytes: "words_bytes (drop 6 ?ws) = drop 12 src"
  proof -
    have "words_bytes (take 6 ?ws) @ words_bytes (drop 6 ?ws) = src"
      using ntop6_words_bytes [OF src] words_bytes_simps(3) [of "take 6 ?ws" "drop 6 ?ws"] by simp
    then have "drop 12 (words_bytes (take 6 ?ws) @ words_bytes (drop 6 ?ws)) = drop 12 src"
      by simp
    then show ?thesis
      by simp
  qed
  have "inet_pton6_tok (CHR '':'' # colon_terminated ?vs @ dotted_quad (drop 12 src)) =
      Some (replicate (2 * r_len r) 0 @ words_bytes ?vs @ drop 12 src)"
    using pton6_tok_quad [of "[]" "r_len r" ?vs "drop 12 src"] r(3) src by (auto split: if_splits)
  also have "replicate (2 * r_len r) 0 @ words_bytes ?vs @ drop 12 src = words_bytes (replicate (r_len r) 0 @ ?vs @ drop 6 ?ws)"
    using bytes by (simp add: words_bytes_zero)
  also have "\<dots> = src"
    using words ntop6_words_bytes [OF src] by simp
  finally show ?thesis
    using ntop6_text_quad [OF best tail] by (simp add: inet_pton6_colons)
qed

lemma pton6_text:
  assumes "length src = 16"
  shows "\<exists>out. ntop6_text src = Inr out \<and> inet_pton6 out = Some src"
proof (cases "best_run (ntop6_words src)")
  case None
  let ?ws = "ntop6_words src"
  obtain w ws where ws: "?ws = w # ws"
    using length_ntop6_words [of src] by (cases ?ws) (auto simp del: length_ntop6_words)
  have "colon_joined ?ws = show_hex w @ (if ws = [] then [] else CHR '':'' # colon_joined ws)"
    unfolding ws by (simp add: colon_joined_def join_Cons)
  then have "inet_pton6 (colon_joined ?ws) = inet_pton6_tok (colon_joined ?ws)"
    using inet_pton6_digit by simp
  also have "\<dots> = Some src"
    using pton6_tok_full [of ?ws] ntop6_words_le [OF assms] ntop6_words_bytes [OF assms] by simp
  finally show ?thesis
    using ntop6_text_full [OF None] by simp
next
  case (Some r)
  then show ?thesis
    using pton6_text_gap [OF assms Some] pton6_text_quad [OF assms Some] by blast
qed

lemma ntop_pton:
  assumes "af = AF_INET \<and> length src = 4 \<or> af = AF_INET6 \<and> length src = 16" "inet_ntop af src sz = Inr s"
  shows "inet_pton af s = Inr (Some src)"
proof (cases "af = AF_INET")
  case True
  then show ?thesis
    using assms inet_pton4_dotted [of src]
    by (auto simp: inet_ntop_def inet_pton_def inet_ntop4_def Let_def split: if_splits)
next
  case False
  then show ?thesis
    using assms pton6_text [of src]
    by (auto simp: inet_ntop_def inet_pton_def inet_ntop6_text split: if_splits)
qed

text \<open>
  C3. What \<open>inet_ntop\<close> prints \<open>inet_pton\<close> reads back, for all IPv4 and IPv6 addresses and any buffer size that
  \<open>inet_ntop\<close> accepts.
\<close>

theorem inet_roundtrip:
  assumes "af = AF_INET \<and> length src = 4 \<or> af = AF_INET6 \<and> length src = 16" "inet_ntop af src sz = Inr s"
  shows "inet_pton af s = Inr (Some src)"
  using assms by (rule ntop_pton)

theorem inet_roundtrip_witness:
  "inet_pton AF_INET6 ''2001:db8::1'' = Inr (Some [0x20, 0x01, 0xd, 0xb8, 0, 0, 0, 0, 0, 0, 0, 0, 0, 0, 0, 1])"
proof -
  let ?a = "[0x20, 0x01, 0xd, 0xb8, 0, 0, 0, 0, 0, 0, 0, 0, 0, 0, 0, 1 :: byte]"
  have ws: "ntop6_words ?a = [0x2001, 0xdb8, 0, 0, 0, 0, 0, 1]"
    by (simp add: ntop6_words_def byte_or upt_rec)
  have best: "best_run (ntop6_words ?a) = Some \<lparr>r_base = 2, r_len = 5\<rparr>"
    unfolding ws by (simp add: best_run_def better_run_def)
  have tail: "\<not> v4_tail (Some \<lparr>r_base = 2, r_len = 5\<rparr>) (ntop6_words ?a) 6"
    by (simp add: v4_tail_def)
  have "ntop6_text ?a = Inr ''2001:db8::1''"
    unfolding ntop6_text_gap [OF best tail] unfolding ws
    by (simp add: before_run_def colon_terminated_def colon_joined_def show_hex.simps xdigits_l_def)
  then have "inet_ntop AF_INET6 ?a 46 = Inr ''2001:db8::1''"
    by (simp add: inet_ntop_def inet_ntop6_text)
  then show ?thesis
    using inet_roundtrip [of AF_INET6 ?a 46 "''2001:db8::1''"] by simp
qed

subsection \<open>A double colon in a full address\<close>

lemma shift_tail_full:
  assumes "length bs = 16" "c \<le> 16"
  shows "shift_tail c (16 - c) bs = take c bs @ replicate (16 - c) 0"
proof -
  have "fold (shift_one c (16 - c)) [1..<k + 1] bs = take (16 - k) bs @ replicate k 0" if "k \<le> 16 - c" for k
    using that
  proof (induction k)
    case (Suc k)
    have k: "k < 16"
      using Suc.prems by simp
    have "take (16 - k) bs = take (15 - k) bs @ [bs ! (15 - k)]"
    proof -
      have "16 - k = Suc (15 - k)" "15 - k < length bs"
        using k assms(1) by simp_all
      then show ?thesis
        by (simp only: take_Suc_conv_app_nth)
    qed
    then have "shift_one c (16 - c) (k + 1) (take (16 - k) bs @ replicate k 0) = take (15 - k) bs @ 0 # replicate k 0"
      using Suc.prems k assms by (simp add: shift_one_def Let_def nth_append list_update_append)
    then show ?case
      using Suc.IH Suc.prems by simp
  qed (use assms in simp)
  from this [of "16 - c"] show ?thesis
    using assms by (simp add: shift_tail_def)
qed

text \<open>
  A double colon in an address that already has eight words is not ignored, as the comment of
  \<open>inet_pton6\<close> says, and not refused: the shift copies each byte onto itself and clears it, so all
  words after the double colon are read as zero.
\<close>

theorem inet_pton6_full_colons:
  assumes "length us + length vs = 8" "us \<noteq> []" "vs \<noteq> []" "\<forall>w \<in> set us \<union> set vs. w \<le> 0xffff"
  shows "inet_pton6 (colon_terminated us @ CHR '':'' # colon_joined vs) =
    Some (words_bytes us @ replicate (2 * length vs) 0)"
proof -
  obtain w ws where us: "us = w # ws"
    using assms(2) by (cases us) auto
  have "inet_pton6 (colon_terminated us @ CHR '':'' # colon_joined vs) =
      inet_pton6_tok (colon_terminated us @ CHR '':'' # colon_joined vs)"
    unfolding us using inet_pton6_digit [of w] by (simp add: colon_terminated_def)
  also have "\<dots> = inet_pton6_end False 0 (words_bytes us @ words_bytes vs) (Some (2 * length us))"
    using pton6_prefix [of us "[]" "colon_joined vs"] pton6_end_groups [OF assms(3), of "words_bytes us" "Some (2 * length us)"]
      pton6_groups [OF assms(3), of "words_bytes us" "colon_joined vs" "Some (2 * length us)"] assms
    by (simp add: inet_pton6_tok_def)
  also have "\<dots> = Some (words_bytes us @ replicate (2 * length vs) 0)"
  proof -
    have "16 - 2 * length us = 2 * length vs"
      using assms(1) by simp
    then show ?thesis
      using shift_tail_full [of "words_bytes us @ words_bytes vs" "2 * length us"] assms(1)
      by (simp add: inet_pton6_end_def Let_def)
  qed
  finally show ?thesis .
qed

theorem inet_pton6_full_colons_witness:
  "inet_pton6 ''1:2:3:4::5:6:7:8'' = Some [0, 1, 0, 2, 0, 3, 0, 4, 0, 0, 0, 0, 0, 0, 0, 0]"
proof -
  have str: "colon_terminated [1, 2, 3, 4] @ CHR '':'' # colon_joined [5, 6, 7, 8] = ''1:2:3:4::5:6:7:8''"
    by (simp add: colon_terminated_def colon_joined_def show_hex.simps xdigits_l_def)
  have bytes: "words_bytes [1, 2, 3, 4] @ replicate (2 * length [5, 6, 7, 8 :: nat]) 0 = [0, 1, 0, 2, 0, 3, 0, 4, 0, 0, 0, 0, 0, 0, 0, 0]"
  proof -
    have "replicate 8 (0 :: byte) = [0, 0, 0, 0, 0, 0, 0, 0]"
      by (simp add: eval_nat_numeral)
    then show ?thesis
      by (simp add: val_bytes_def and_ff drop_bit_eq_div)
  qed
  have "inet_pton6 (colon_terminated [1, 2, 3, 4] @ CHR '':'' # colon_joined [5, 6, 7, 8]) =
      Some (words_bytes [1, 2, 3, 4] @ replicate (2 * length [5, 6, 7, 8 :: nat]) 0)"
    by (rule inet_pton6_full_colons) simp_all
  then show ?thesis
    unfolding str bytes .
qed

end
