(* ===== verification/AddrInfo.thy ===== *)
theory AddrInfo
  imports SockAddr Posix
begin

unbundle bit_operations_syntax

text \<open>
  The name and address library \<^verbatim>\<open>src/unixNetV1/libgai\<close>: \<^verbatim>\<open>getaddrinfo\<close> and the functions it is made of,
  \<^verbatim>\<open>freeaddrinfo\<close> and \<^verbatim>\<open>getnameinfo\<close>, built with IPv4, IPv6 and Unix domain sockets. The linked list of
  \<^verbatim>\<open>addrinfo\<close> structures is a list of records. The resolver and the service database of the system are
  the argument \<open>rs\<close>, and the state \<open>mem\<close> of the allocator says which of the successive
  allocations fail and counts the blocks in use. The theory shows what the returned list holds, that
  a name printed by \<^verbatim>\<open>getnameinfo\<close> leads \<^verbatim>\<open>getaddrinfo\<close> back to the address, and which blocks stay
  allocated on every path.
\<close>

subsection \<open>Data\<close>

record addrinfo =
  ai_flags :: int
  ai_family :: addr_family
  ai_socktype :: int
  ai_protocol :: int
  ai_addrlen :: nat
  ai_canonname :: "string option"
  ai_addr :: "sockaddr option"

definition AI_PASSIVE :: int where "AI_PASSIVE = 1"

definition AI_CANONNAME :: int where "AI_CANONNAME = 2"

definition AI_CLONE :: int where "AI_CLONE = 4"

definition NI_NOFQDN :: int where "NI_NOFQDN = 1"

definition NI_NUMERICHOST :: int where "NI_NUMERICHOST = 2"

definition NI_NAMEREQD :: int where "NI_NAMEREQD = 4"

definition NI_NUMERICSERV :: int where "NI_NUMERICSERV = 8"

definition NI_DGRAM :: int where "NI_DGRAM = 16"

definition SOCK_STREAM :: int where "SOCK_STREAM = 1"

definition SOCK_DGRAM :: int where "SOCK_DGRAM = 2"

definition SOCK_RAW :: int where "SOCK_RAW = 3"

datatype eai =
    EAI_ADDRFAMILY | EAI_AGAIN | EAI_BADFLAGS | EAI_FAIL | EAI_FAMILY | EAI_MEMORY
  | EAI_NODATA | EAI_NONAME | EAI_SERVICE | EAI_SOCKTYPE | EAI_SYSTEM

definition gai_strerror :: "eai option \<Rightarrow> string" where
  "gai_strerror err = (case err of
     Some EAI_ADDRFAMILY \<Rightarrow> ''address family for host not supported''
   | Some EAI_AGAIN \<Rightarrow> ''temporary failure in name resolution''
   | Some EAI_BADFLAGS \<Rightarrow> ''invalid flags value''
   | Some EAI_FAIL \<Rightarrow> ''non-recoverable failure in name resolution''
   | Some EAI_FAMILY \<Rightarrow> ''address family not supported''
   | Some EAI_MEMORY \<Rightarrow> ''memory allocation failure''
   | Some EAI_NODATA \<Rightarrow> ''no address associated with host''
   | Some EAI_NONAME \<Rightarrow> ''host nor service provided, or not known''
   | Some EAI_SERVICE \<Rightarrow> ''service not supported for socket type''
   | Some EAI_SOCKTYPE \<Rightarrow> ''socket type not supported''
   | Some EAI_SYSTEM \<Rightarrow> ''system error''
   | None \<Rightarrow> ''unknown getaddrinfo() error'')"

text \<open>An entry of the array \<^verbatim>\<open>search\<close>.\<close>

record search =
  s_host :: string
  s_family :: addr_family

text \<open>The system's resolver and service database; the flag of \<open>gethostbyname\<close> is \<^verbatim>\<open>RES_USE_INET6\<close>.\<close>

datatype herr = HOST_NOT_FOUND | TRY_AGAIN | NO_RECOVERY | NO_DATA | H_OTHER

record hostent =
  h_name :: string
  h_addrtype :: addr_family
  h_addr_list :: "byte list list"

record resolver =
  gethostbyname2 :: "string \<Rightarrow> addr_family \<Rightarrow> herr + hostent"
  gethostbyname :: "bool \<Rightarrow> string \<Rightarrow> herr + hostent"
  gethostbyaddr :: "byte list \<Rightarrow> addr_family \<Rightarrow> string option"
  getservbyname :: "string \<Rightarrow> string \<Rightarrow> u16 option"
  getservbyport :: "u16 \<Rightarrow> string option \<Rightarrow> string option"
  nodename :: "string option"

text \<open>The allocator (the number of calls so far, which calls fail, the blocks in use) and the names that were unlinked.\<close>

record mem =
  m_calls :: nat
  m_fails :: "nat \<Rightarrow> bool"
  m_live :: int
  m_unlinked :: "string list"

definition alloc :: "mem \<Rightarrow> bool \<times> mem" where
  "alloc m = (if m_fails m (m_calls m) then (False, m\<lparr>m_calls := m_calls m + 1\<rparr>)
     else (True, m\<lparr>m_calls := m_calls m + 1, m_live := m_live m + 1\<rparr>))"

definition blocks :: "addrinfo \<Rightarrow> int" where
  "blocks ai = 1 + of_bool (ai_addr ai \<noteq> None) + of_bool (ai_canonname ai \<noteq> None)"

definition freeaddrinfo :: "addrinfo list \<Rightarrow> mem \<Rightarrow> mem" where
  "freeaddrinfo aihead m = m\<lparr>m_live := m_live m - sum_list (map blocks aihead)\<rparr>"

subsection \<open>Checks and searches\<close>

definition null_name :: "string option \<Rightarrow> bool" where
  "null_name s = (s = None \<or> s = Some [])"

definition ga_echeck ::
  "string option \<Rightarrow> string option \<Rightarrow> int \<Rightarrow> addr_family \<Rightarrow> int \<Rightarrow> int \<Rightarrow> eai option" where
  "ga_echeck hostname servname flags family socktype protocol =
     (if flags AND NOT (AI_PASSIVE OR AI_CANONNAME) \<noteq> 0 then Some EAI_BADFLAGS
      else if null_name hostname \<and> null_name servname then Some EAI_NONAME
      else case family of
        AF_UNSPEC \<Rightarrow> None
      | AF_INET \<Rightarrow> if socktype \<noteq> 0 \<and> socktype \<notin> {SOCK_STREAM, SOCK_DGRAM, SOCK_RAW} then Some EAI_SOCKTYPE else None
      | AF_INET6 \<Rightarrow> if socktype \<noteq> 0 \<and> socktype \<notin> {SOCK_STREAM, SOCK_DGRAM, SOCK_RAW} then Some EAI_SOCKTYPE else None
      | AF_LOCAL \<Rightarrow> if socktype \<noteq> 0 \<and> socktype \<notin> {SOCK_STREAM, SOCK_DGRAM} then Some EAI_SOCKTYPE else None
      | _ \<Rightarrow> Some EAI_FAMILY)"

definition search_for :: "addr_family \<Rightarrow> string \<Rightarrow> string \<Rightarrow> search list" where
  "search_for family host6 host4 = (case family of
     AF_INET \<Rightarrow> [\<lparr>s_host = host4, s_family = AF_INET\<rparr>]
   | AF_INET6 \<Rightarrow> [\<lparr>s_host = host6, s_family = AF_INET6\<rparr>]
   | AF_UNSPEC \<Rightarrow> [\<lparr>s_host = host6, s_family = AF_INET6\<rparr>, \<lparr>s_host = host4, s_family = AF_INET\<rparr>]
   | _ \<Rightarrow> [])"

text \<open>\<^verbatim>\<open>ga_nsearch\<close> ends the process (\<open>None\<close>) when it has nothing to search for.\<close>

definition ga_nsearch :: "string option \<Rightarrow> addrinfo \<Rightarrow> search list option" where
  "ga_nsearch hostname hints =
     (let ss = (if null_name hostname then
          (if has_flag (ai_flags hints) AI_PASSIVE then search_for (ai_family hints) ''0::0'' ''0.0.0.0''
           else search_for (ai_family hints) ''0::1'' ''localhost'')
        else search_for (ai_family hints) (the hostname) (the hostname))
      in if length ss < 1 \<or> length ss > 2 then None else Some ss)"

subsection \<open>Structures\<close>

definition sizeof_in :: nat where "sizeof_in = 16"

definition sizeof_in6 :: nat where "sizeof_in6 = 28"

definition sizeof_un :: nat where "sizeof_un = 110"

definition SUN_PATH :: nat where "SUN_PATH = 108"

text \<open>
  The address that \<^verbatim>\<open>ga_aistruct\<close> stores for the bytes at \<open>addr\<close>, which are the path for a Unix domain
  address; the port is zero until \<^verbatim>\<open>ga_port\<close> stores it. The new structure is appended to the list.
\<close>

definition path_bytes :: "string \<Rightarrow> byte list" where
  "path_bytes path = map (\<lambda>c. of_nat (of_char c)) path"

definition path_of :: "byte list \<Rightarrow> string" where
  "path_of bs = map (\<lambda>b. char_of (unat b)) bs"

definition ga_sockaddr :: "byte list \<Rightarrow> addr_family \<Rightarrow> (sockaddr \<times> nat) option" where
  "ga_sockaddr addr family = (case family of
     AF_INET \<Rightarrow> Some (Sin 0 (take 4 addr), sizeof_in)
   | AF_INET6 \<Rightarrow> Some (Sin6 0 (take 16 addr), sizeof_in6)
   | AF_LOCAL \<Rightarrow> Some (Sun (path_of addr), sizeof_un)
   | _ \<Rightarrow> None)"

definition ga_aistruct ::
  "addrinfo list \<Rightarrow> addrinfo \<Rightarrow> byte list \<Rightarrow> addr_family \<Rightarrow> mem \<Rightarrow> eai option \<times> addrinfo list \<times> mem" where
  "ga_aistruct ais hints addr family m = (case alloc m of
     (False, m) \<Rightarrow> (Some EAI_MEMORY, ais, m)
   | (True, m) \<Rightarrow>
       let ai = \<lparr>ai_flags = (if ai_socktype hints = 0 then AI_CLONE else 0), ai_family = family,
                 ai_socktype = ai_socktype hints, ai_protocol = ai_protocol hints, ai_addrlen = 0,
                 ai_canonname = None, ai_addr = None\<rparr>
       in case ga_sockaddr addr family of
         None \<Rightarrow> (None, ais @ [ai], m)
       | Some (sa, len) \<Rightarrow>
           if family = AF_LOCAL \<and> length addr \<ge> SUN_PATH then (Some EAI_SERVICE, ais @ [ai], m)
           else (case alloc m of
             (False, m) \<Rightarrow> (Some EAI_MEMORY, ais @ [ai], m)
           | (True, m) \<Rightarrow> (None, ais @ [ai\<lparr>ai_addr := Some sa, ai_addrlen := len\<rparr>],
               if family = AF_LOCAL \<and> has_flag (ai_flags hints) AI_PASSIVE
               then m\<lparr>m_unlinked := m_unlinked m @ [path_of addr]\<rparr> else m)))"

text \<open>
  \<^verbatim>\<open>ga_clone\<close> links the copy behind its original before it has the memory for the address; the first
  component of the result is the copy when both allocations succeed, the second what was linked. The copy
  of a missing address is a block without content.
\<close>

definition ga_clone :: "addrinfo \<Rightarrow> mem \<Rightarrow> addrinfo option \<times> addrinfo list \<times> mem" where
  "ga_clone ai m = (case alloc m of
     (False, m) \<Rightarrow> (None, [], m)
   | (True, m) \<Rightarrow>
       let new = ai\<lparr>ai_flags := 0, ai_canonname := None, ai_addr := None\<rparr> in
       case alloc m of
         (False, m) \<Rightarrow> (None, [new], m)
       | (True, m) \<Rightarrow>
           let new = new\<lparr>ai_addr := Some (case ai_addr ai of Some sa \<Rightarrow> sa | None \<Rightarrow> Sany 0)\<rparr>
           in (Some new, [new], m))"

text \<open>The second half of the body of \<^verbatim>\<open>ga_port\<close>, with the number of ports it sets, and the loop.\<close>

definition ga_port_set :: "u16 \<Rightarrow> int \<Rightarrow> addrinfo \<Rightarrow> nat \<times> addrinfo" where
  "ga_port_set port socktype ai =
     (let ai = ai\<lparr>ai_socktype := socktype\<rparr> in
      if ai_family ai = AF_INET \<or> ai_family ai = AF_INET6
      then (1, ai\<lparr>ai_addr := map_option (\<lambda>sa. sock_set_port sa (uint port)) (ai_addr ai)\<rparr>)
      else (0, ai))"

fun ga_port :: "addrinfo list \<Rightarrow> u16 \<Rightarrow> int \<Rightarrow> mem \<Rightarrow> nat option \<times> addrinfo list \<times> mem" where
  "ga_port [] port socktype m = (Some 0, [], m)"
| "ga_port (ai # ais) port socktype m =
     (if has_flag (ai_flags ai) AI_CLONE then
        (if ai_socktype ai \<noteq> 0 then
           (case ga_clone ai m of
              (None, linked, m) \<Rightarrow> (None, ai # linked @ ais, m)
            | (Some new, _, m) \<Rightarrow>
                let (k, new) = ga_port_set port socktype new; (n, ais, m) = ga_port ais port socktype m
                in (map_option ((+) k) n, ai # new # ais, m))
         else
           let (k, ai) = ga_port_set port socktype ai; (n, ais, m) = ga_port ais port socktype m
           in (map_option ((+) k) n, ai # ais, m))
      else if ai_socktype ai \<noteq> socktype then
        let (n, ais, m) = ga_port ais port socktype m in (n, ai # ais, m)
      else
        let (k, ai) = ga_port_set port socktype ai; (n, ais, m) = ga_port ais port socktype m
        in (map_option ((+) k) n, ai # ais, m))"

subsection \<open>Services\<close>

definition isdigit :: "char \<Rightarrow> bool" where
  "isdigit c = (strchr digits c \<noteq> None)"

definition isxdigit :: "char \<Rightarrow> bool" where
  "isxdigit c = (xdigit c \<noteq> None)"

text \<open>\<^verbatim>\<open>atoi\<close> on a text that starts with a digit and whose number fits an \<^verbatim>\<open>int\<close>.\<close>

fun atoi :: "nat \<Rightarrow> string \<Rightarrow> nat" where
  "atoi v [] = v"
| "atoi v (c # cs) = (case strchr digits c of None \<Rightarrow> v | Some d \<Rightarrow> atoi (10 * v + d) cs)"

text \<open>Two calls of \<^verbatim>\<open>ga_port\<close> in a row; a failure is the return of \<^verbatim>\<open>EAI_MEMORY\<close>.\<close>

definition ga_serv_try ::
  "u16 option \<Rightarrow> int \<Rightarrow> nat option \<times> addrinfo list \<times> mem \<Rightarrow> nat option \<times> addrinfo list \<times> mem" where
  "ga_serv_try port socktype st = (case (port, st) of
     (Some p, Some nfound, ais, m) \<Rightarrow>
       let (rc, ais, m) = ga_port ais p socktype m in (map_option ((+) nfound) rc, ais, m)
   | _ \<Rightarrow> st)"

definition ga_serv ::
  "bool \<Rightarrow> resolver \<Rightarrow> addrinfo list \<Rightarrow> addrinfo \<Rightarrow> string \<Rightarrow> mem \<Rightarrow> eai option \<times> addrinfo list \<times> mem" where
  "ga_serv be rs ais hints serv m =
     (let st = (Some 0, ais, m);
          any = (ai_socktype hints = 0);
          st = (if isdigit (hd serv) then
              (let port = Some (htons be (of_nat (atoi 0 serv))) in
               if \<not> any then ga_serv_try port (ai_socktype hints) st
               else ga_serv_try port SOCK_DGRAM (ga_serv_try port SOCK_STREAM st))
            else
              (let st = (if any \<or> ai_socktype hints = SOCK_STREAM
                    then ga_serv_try (getservbyname rs serv ''tcp'') SOCK_STREAM st else st)
               in if any \<or> ai_socktype hints = SOCK_DGRAM
                  then ga_serv_try (getservbyname rs serv ''udp'') SOCK_DGRAM st else st))
      in case st of
        (None, ais, m) \<Rightarrow> (Some EAI_MEMORY, ais, m)
      | (Some nfound, ais, m) \<Rightarrow>
          ((if nfound = 0 then Some (if any then EAI_NONAME else EAI_SERVICE) else None), ais, m))"

subsection \<open>Unix domain names\<close>

text \<open>
  The outcomes of a call: the list stored at \<^verbatim>\<open>result\<close>, an error code, or the end of the process in
  \<^verbatim>\<open>err_quit\<close>. \<^verbatim>\<open>ga_unix\<close> returns its errors without freeing the list.
\<close>

datatype gai_out = GaiOk "addrinfo list" | GaiErr eai | GaiQuit

definition set_canon :: "string \<Rightarrow> addrinfo list \<Rightarrow> addrinfo list" where
  "set_canon name ais = (case ais of [] \<Rightarrow> [] | ai # rest \<Rightarrow> ai\<lparr>ai_canonname := Some name\<rparr> # rest)"

definition ga_unix_name :: "resolver \<Rightarrow> addrinfo \<Rightarrow> addrinfo list \<Rightarrow> mem \<Rightarrow> gai_out \<times> mem" where
  "ga_unix_name rs hints ais m =
     (if has_flag (ai_flags hints) AI_CANONNAME then
        (case nodename rs of
           None \<Rightarrow> (GaiErr EAI_SYSTEM, m)
         | Some node \<Rightarrow> (case alloc m of
             (False, m) \<Rightarrow> (GaiErr EAI_MEMORY, m)
           | (True, m) \<Rightarrow> (GaiOk (set_canon node ais), m)))
      else (GaiOk ais, m))"

definition ga_unix :: "resolver \<Rightarrow> string \<Rightarrow> addrinfo \<Rightarrow> mem \<Rightarrow> gai_out \<times> mem" where
  "ga_unix rs path hints m =
     (if ai_family hints \<noteq> AF_UNSPEC \<and> ai_family hints \<noteq> AF_LOCAL then (GaiErr EAI_ADDRFAMILY, m)
      else
        let (rc, ais, m) = (if ai_socktype hints = 0
              then ga_aistruct [] (hints\<lparr>ai_socktype := SOCK_STREAM\<rparr>) (path_bytes path) AF_LOCAL m
              else (None, [], m));
            hints = (if ai_socktype hints = 0 then hints\<lparr>ai_socktype := SOCK_DGRAM\<rparr> else hints)
        in case rc of
          Some e \<Rightarrow> (GaiErr e, m)
        | None \<Rightarrow> (case ga_aistruct ais hints (path_bytes path) AF_LOCAL m of
            (Some e, ais, m) \<Rightarrow> (GaiErr e, m)
          | (None, ais, m) \<Rightarrow> ga_unix_name rs hints ais m))"

subsection \<open>Host names\<close>

text \<open>The state of the loop over the searches: the list, \<^verbatim>\<open>canon\<close> and the allocator.\<close>

record ga_state =
  g_ais :: "addrinfo list"
  g_canon :: "string option"
  g_mem :: mem

definition ga_add :: "addrinfo \<Rightarrow> byte list \<Rightarrow> addr_family \<Rightarrow> ga_state \<Rightarrow> eai option \<times> ga_state" where
  "ga_add hints addr family g = (case ga_aistruct (g_ais g) hints addr family (g_mem g) of
     (rc, ais, m) \<Rightarrow> (rc, g\<lparr>g_ais := ais, g_mem := m\<rparr>))"

fun ga_add_all :: "addrinfo \<Rightarrow> byte list list \<Rightarrow> addr_family \<Rightarrow> ga_state \<Rightarrow> eai option \<times> ga_state" where
  "ga_add_all hints [] family g = (None, g)"
| "ga_add_all hints (addr # addrs) family g = (case ga_add hints addr family g of
     (Some e, g) \<Rightarrow> (Some e, g)
   | (None, g) \<Rightarrow> ga_add_all hints addrs family g)"

definition ga_numeric :: "addrinfo \<Rightarrow> search \<Rightarrow> byte list \<Rightarrow> addr_family \<Rightarrow> ga_state \<Rightarrow> eai option \<times> ga_state" where
  "ga_numeric hints s addr family g =
     (if ai_family hints \<noteq> AF_UNSPEC \<and> ai_family hints \<noteq> family then (Some EAI_ADDRFAMILY, g)
      else if s_family s \<noteq> family then (None, g)
      else ga_add hints addr family g)"

definition herr_code :: "herr \<Rightarrow> eai" where
  "herr_code h = (case h of
     HOST_NOT_FOUND \<Rightarrow> EAI_NONAME
   | TRY_AGAIN \<Rightarrow> EAI_AGAIN
   | NO_RECOVERY \<Rightarrow> EAI_FAIL
   | NO_DATA \<Rightarrow> EAI_NODATA
   | H_OTHER \<Rightarrow> EAI_NONAME)"

definition ga_save_canon :: "string option \<Rightarrow> addrinfo \<Rightarrow> string \<Rightarrow> ga_state \<Rightarrow> eai option \<times> ga_state" where
  "ga_save_canon hostname hints name g =
     (if \<not> null_name hostname \<and> has_flag (ai_flags hints) AI_CANONNAME \<and> g_canon g = None then
        (case alloc (g_mem g) of
           (False, m) \<Rightarrow> (Some EAI_MEMORY, g\<lparr>g_mem := m\<rparr>)
         | (True, m) \<Rightarrow> (None, g\<lparr>g_canon := Some name, g_mem := m\<rparr>))
      else (None, g))"

definition ga_lookup ::
  "resolver \<Rightarrow> string option \<Rightarrow> addrinfo \<Rightarrow> nat \<Rightarrow> search \<Rightarrow> ga_state \<Rightarrow> eai option \<times> ga_state" where
  "ga_lookup rs hostname hints nsearch s g =
     (case (if nsearch = 2 then gethostbyname2 rs (s_host s) (s_family s)
            else gethostbyname rs (s_family s = AF_INET6) (s_host s)) of
        Inl h \<Rightarrow> if nsearch = 2 then (None, g) else (Some (herr_code h), g)
      | Inr hptr \<Rightarrow>
          if ai_family hints \<noteq> AF_UNSPEC \<and> ai_family hints \<noteq> h_addrtype hptr then (Some EAI_ADDRFAMILY, g)
          else (case ga_save_canon hostname hints (h_name hptr) g of
            (Some e, g) \<Rightarrow> (Some e, g)
          | (None, g) \<Rightarrow> ga_add_all hints (h_addr_list hptr) (h_addrtype hptr) g))"

text \<open>The body of the loop over the searches: an IPv4 text, an IPv6 text, or a name to look up.\<close>

definition as_v4 :: "string \<Rightarrow> byte list option" where
  "as_v4 host = (if host \<noteq> [] \<and> isdigit (hd host)
     then (case inet_pton AF_INET host of Inr (Some a) \<Rightarrow> Some a | _ \<Rightarrow> None) else None)"

definition as_v6 :: "string \<Rightarrow> byte list option" where
  "as_v6 host = (if host \<noteq> [] \<and> (isxdigit (hd host) \<or> hd host = CHR '':'') \<and> strchr host CHR '':'' \<noteq> None
     then (case inet_pton AF_INET6 host of Inr (Some a) \<Rightarrow> Some a | _ \<Rightarrow> None) else None)"

definition ga_search1 ::
  "resolver \<Rightarrow> string option \<Rightarrow> addrinfo \<Rightarrow> nat \<Rightarrow> search \<Rightarrow> ga_state \<Rightarrow> eai option \<times> ga_state" where
  "ga_search1 rs hostname hints nsearch s g = (case as_v4 (s_host s) of
     Some a \<Rightarrow> ga_numeric hints s a AF_INET g
   | None \<Rightarrow> (case as_v6 (s_host s) of
       Some a \<Rightarrow> ga_numeric hints s a AF_INET6 g
     | None \<Rightarrow> ga_lookup rs hostname hints nsearch s g))"

fun ga_search ::
  "resolver \<Rightarrow> string option \<Rightarrow> addrinfo \<Rightarrow> nat \<Rightarrow> search list \<Rightarrow> ga_state \<Rightarrow> eai option \<times> ga_state" where
  "ga_search rs hostname hints nsearch [] g = (None, g)"
| "ga_search rs hostname hints nsearch (s # ss) g = (case ga_search1 rs hostname hints nsearch s g of
     (Some e, g) \<Rightarrow> (Some e, g)
   | (None, g) \<Rightarrow> ga_search rs hostname hints nsearch ss g)"

text \<open>The canonical name moves into the first structure.\<close>

definition ga_canon :: "string option \<Rightarrow> addrinfo \<Rightarrow> string \<Rightarrow> ga_state \<Rightarrow> eai option \<times> ga_state" where
  "ga_canon hostname hints host0 g =
     (if \<not> null_name hostname \<and> has_flag (ai_flags hints) AI_CANONNAME then
        (case g_canon g of
           Some name \<Rightarrow> (None, g\<lparr>g_ais := set_canon name (g_ais g), g_canon := None\<rparr>)
         | None \<Rightarrow> (case alloc (g_mem g) of
             (False, m) \<Rightarrow> (Some EAI_MEMORY, g\<lparr>g_mem := m\<rparr>)
           | (True, m) \<Rightarrow> (None, g\<lparr>g_ais := set_canon host0 (g_ais g), g_mem := m\<rparr>)))
      else (None, g))"

definition ga_service ::
  "bool \<Rightarrow> resolver \<Rightarrow> addrinfo \<Rightarrow> string option \<Rightarrow> ga_state \<Rightarrow> eai option \<times> ga_state" where
  "ga_service be rs hints servname g =
     (if null_name servname then (None, g)
      else (case ga_serv be rs (g_ais g) hints (the servname) (g_mem g) of
        (rc, ais, m) \<Rightarrow> (rc, g\<lparr>g_ais := ais, g_mem := m\<rparr>)))"

subsection \<open>The function \<open>getaddrinfo\<close>\<close>

text \<open>The label \<^verbatim>\<open>bad\<close> frees the list; \<^verbatim>\<open>canon\<close> is not freed when it is not yet in the list.\<close>

definition ga_bad :: "eai \<Rightarrow> ga_state \<Rightarrow> gai_out \<times> mem" where
  "ga_bad e g = (GaiErr e, freeaddrinfo (g_ais g) (g_mem g))"

definition ga_inet ::
  "bool \<Rightarrow> resolver \<Rightarrow> string option \<Rightarrow> string option \<Rightarrow> addrinfo \<Rightarrow> mem \<Rightarrow> gai_out \<times> mem" where
  "ga_inet be rs hostname servname hints m = (case ga_nsearch hostname hints of
     None \<Rightarrow> (GaiQuit, m)
   | Some ss \<Rightarrow> (case ga_search rs hostname hints (length ss) ss \<lparr>g_ais = [], g_canon = None, g_mem = m\<rparr> of
       (Some e, g) \<Rightarrow> ga_bad e g
     | (None, g) \<Rightarrow>
         if g_ais g = [] then ga_bad EAI_NONAME g
         else (case ga_canon hostname hints (s_host (hd ss)) g of
           (Some e, g) \<Rightarrow> ga_bad e g
         | (None, g) \<Rightarrow> (case ga_service be rs hints servname g of
             (Some e, g) \<Rightarrow> ga_bad e g
           | (None, g) \<Rightarrow> (GaiOk (g_ais g), g_mem g)))))"

definition no_hints :: addrinfo where
  "no_hints = \<lparr>ai_flags = 0, ai_family = AF_UNSPEC, ai_socktype = 0, ai_protocol = 0, ai_addrlen = 0,
     ai_canonname = None, ai_addr = None\<rparr>"

definition unix_names :: "string option \<Rightarrow> string option \<Rightarrow> bool" where
  "unix_names hostname servname =
     ((hostname = Some ''/local'' \<or> hostname = Some ''/unix'') \<and>
      (case servname of Some (c # _) \<Rightarrow> c = CHR ''/'' | _ \<Rightarrow> False))"

definition getaddrinfo ::
  "bool \<Rightarrow> resolver \<Rightarrow> string option \<Rightarrow> string option \<Rightarrow> addrinfo option \<Rightarrow> mem \<Rightarrow> gai_out \<times> mem" where
  "getaddrinfo be rs hostname servname hintsp m =
     (let hints = (case hintsp of None \<Rightarrow> no_hints | Some h \<Rightarrow> h) in
      case ga_echeck hostname servname (ai_flags hints) (ai_family hints) (ai_socktype hints) (ai_protocol hints) of
        Some e \<Rightarrow> (GaiErr e, m)
      | None \<Rightarrow>
          if unix_names hostname servname then ga_unix rs (the servname) hints m
          else ga_inet be rs hostname servname hints m)"

subsection \<open>The function \<open>getnameinfo\<close>\<close>

text \<open>
  The buffers at \<^verbatim>\<open>host\<close> and \<^verbatim>\<open>serv\<close> are options: \<open>None\<close> when the length is zero and nothing is stored.
  The return value 1 is \<open>None\<close>.
\<close>

definition until_dot :: "string \<Rightarrow> string" where
  "until_dot s = (case strchr s CHR ''.'' of None \<Rightarrow> s | Some i \<Rightarrow> take i s)"

definition gn_host :: "resolver \<Rightarrow> nat \<Rightarrow> byte list \<Rightarrow> addr_family \<Rightarrow> int \<Rightarrow> string option option" where
  "gn_host rs hostlen addr family flags =
     (let numeric = (case inet_ntop family addr hostlen of Inl e \<Rightarrow> None | Inr s \<Rightarrow> Some (Some s)) in
      if hostlen = 0 then Some None
      else if has_flag flags NI_NUMERICHOST then numeric
      else case gethostbyaddr rs addr family of
        Some name \<Rightarrow> Some (Some (snprintf hostlen (if has_flag flags NI_NOFQDN then until_dot name else name)))
      | None \<Rightarrow> if has_flag flags NI_NAMEREQD then None else numeric)"

definition gn_serv :: "bool \<Rightarrow> resolver \<Rightarrow> nat \<Rightarrow> u16 \<Rightarrow> int \<Rightarrow> string option" where
  "gn_serv be rs servlen port flags =
     (if servlen = 0 then None
      else Some (snprintf servlen
        (if has_flag flags NI_NUMERICSERV then show_dec (unat (ntohs be port))
         else case getservbyport rs port (if has_flag flags NI_DGRAM then Some ''udp'' else None) of
           Some name \<Rightarrow> name
         | None \<Rightarrow> show_dec (unat (ntohs be port)))))"

definition gn_ipv46 ::
  "bool \<Rightarrow> resolver \<Rightarrow> nat \<Rightarrow> nat \<Rightarrow> byte list \<Rightarrow> addr_family \<Rightarrow> u16 \<Rightarrow> int \<Rightarrow> (string option \<times> string option) option" where
  "gn_ipv46 be rs hostlen servlen addr family port flags = (case gn_host rs hostlen addr family flags of
     None \<Rightarrow> None
   | Some host \<Rightarrow> Some (host, gn_serv be rs servlen port flags))"

definition getnameinfo ::
  "bool \<Rightarrow> resolver \<Rightarrow> sockaddr \<Rightarrow> nat \<Rightarrow> nat \<Rightarrow> int \<Rightarrow> (string option \<times> string option) option" where
  "getnameinfo be rs sa hostlen servlen flags = (case sa of
     Sin port addr \<Rightarrow> gn_ipv46 be rs hostlen servlen addr AF_INET port flags
   | Sin6 port addr \<Rightarrow> gn_ipv46 be rs hostlen servlen addr AF_INET6 port flags
   | Sun path \<Rightarrow> Some (if hostlen > 0 then Some (snprintf hostlen ''/local'') else None,
                        if servlen > 0 then Some (snprintf servlen path) else None)
   | Sany _ \<Rightarrow> None)"

subsection \<open>Memory\<close>

definition ai_blocks :: "addrinfo list \<Rightarrow> int" where
  "ai_blocks ais = sum_list (map blocks ais)"

definition slack :: "ga_state \<Rightarrow> int" where
  "slack g = m_live (g_mem g) - ai_blocks (g_ais g) - of_bool (g_canon g \<noteq> None)"

definition uncanon :: "addrinfo list \<Rightarrow> bool" where
  "uncanon ais = (\<forall>ai \<in> set ais. ai_canonname ai = None)"

lemma ai_blocks_simps [simp]:
  "ai_blocks [] = 0" "ai_blocks (ai # ais) = blocks ai + ai_blocks ais" "ai_blocks (xs @ ys) = ai_blocks xs + ai_blocks ys"
  by (simp_all add: ai_blocks_def)

lemma uncanon_simps [simp]:
  "uncanon []" "uncanon (ai # ais) \<longleftrightarrow> ai_canonname ai = None \<and> uncanon ais"
  "uncanon (xs @ ys) \<longleftrightarrow> uncanon xs \<and> uncanon ys"
  by (auto simp: uncanon_def)

lemma alloc_live: "alloc m = (b, m') \<Longrightarrow> m_live m' = m_live m + of_bool b"
  by (auto simp: alloc_def split: if_splits)

lemma ga_aistruct_live:
  "ga_aistruct ais hints addr family m = (rc, ais', m') \<Longrightarrow>
     m_live m' - ai_blocks ais' = m_live m - ai_blocks ais \<and> (uncanon ais \<longrightarrow> uncanon ais')"
  by (auto simp: ga_aistruct_def blocks_def Let_def dest!: alloc_live split: prod.splits bool.splits option.splits if_splits)

lemma ga_clone_live:
  "ga_clone ai m = (new, linked, m') \<Longrightarrow>
     m_live m' - ai_blocks linked = m_live m \<and> (case new of Some a \<Rightarrow> linked = [a] | None \<Rightarrow> True)"
  by (auto simp: ga_clone_def blocks_def Let_def dest!: alloc_live split: prod.splits bool.splits)

lemma ga_port_set_blocks: "ga_port_set port st ai = (k, ai') \<Longrightarrow> blocks ai' = blocks ai"
  by (auto simp: ga_port_set_def blocks_def Let_def split: if_splits)

lemma ga_port_live:
  "ga_port ais port st m = (rc, ais', m') \<Longrightarrow> m_live m' - ai_blocks ais' = m_live m - ai_blocks ais"
  by (induction ais port st m arbitrary: rc ais' m' rule: ga_port.induct)
    (fastforce simp: Let_def dest!: ga_port_set_blocks ga_clone_live split: if_splits prod.splits option.splits)+

lemma ga_serv_try_live:
  "ga_serv_try port st (n, ais, m) = (n', ais', m') \<Longrightarrow> m_live m' - ai_blocks ais' = m_live m - ai_blocks ais"
  by (auto simp: ga_serv_try_def dest!: ga_port_live split: option.splits prod.splits)

definition live_of :: "'a \<times> addrinfo list \<times> mem \<Rightarrow> int" where
  "live_of st = m_live (snd (snd st)) - ai_blocks (fst (snd st))"

lemma ga_serv_try_live_of: "live_of (ga_serv_try port socktype st) = live_of st"
proof (cases st)
  case (fields n ais m)
  then show ?thesis
    using ga_serv_try_live [of port socktype n ais m] by (cases "ga_serv_try port socktype st") (auto simp: live_of_def)
qed

lemma ga_serv_live_of: "live_of (ga_serv be rs ais hints serv m) = m_live m - ai_blocks ais"
proof -
  have finish: "live_of (case st of (None, ais, m) \<Rightarrow> (e :: eai option, ais, m) | (Some n, ais, m) \<Rightarrow> (f n, ais, m)) = live_of st"
    for st e f
    by (cases st) (auto simp: live_of_def split: option.splits)
  show ?thesis
    unfolding ga_serv_def Let_def finish by (simp add: ga_serv_try_live_of) (simp add: live_of_def)
qed

text \<open>
  A step of the search keeps the blocks that nothing owns; the structures carry no name yet, and \<^verbatim>\<open>canon\<close> is
  only set by a call that asks for the canonical name.
\<close>

definition wants_canon :: "string option \<Rightarrow> addrinfo \<Rightarrow> bool" where
  "wants_canon hostname hints \<longleftrightarrow> \<not> null_name hostname \<and> has_flag (ai_flags hints) AI_CANONNAME"

definition keeps :: "bool \<Rightarrow> ga_state \<Rightarrow> eai option \<times> ga_state \<Rightarrow> bool" where
  "keeps w g r \<longleftrightarrow> slack (snd r) = slack g \<and> (uncanon (g_ais g) \<longrightarrow> uncanon (g_ais (snd r))) \<and>
     (\<not> w \<longrightarrow> g_canon (snd r) = g_canon g)"

lemma keeps_refl [simp]: "keeps w g (rc, g)"
  by (simp add: keeps_def)

lemma keeps_seq:
  "keeps w g r \<Longrightarrow> (\<And>g'. keeps w g' (f g')) \<Longrightarrow> keeps w g (case r of (Some e, g) \<Rightarrow> (Some e, g) | (None, g) \<Rightarrow> f g)"
  by (cases r) (auto simp: keeps_def split: option.splits)

lemma ga_add_keeps: "keeps w g (ga_add hints addr family g)"
proof (cases "ga_aistruct (g_ais g) hints addr family (g_mem g)")
  case (fields rc ais m)
  then show ?thesis
    using ga_aistruct_live [OF fields] by (auto simp: keeps_def ga_add_def slack_def)
qed

lemma ga_add_all_keeps: "keeps w g (ga_add_all hints addrs family g)"
  by (induction addrs arbitrary: g) (simp_all add: keeps_seq ga_add_keeps)

lemma ga_numeric_keeps: "keeps w g (ga_numeric hints s addr family g)"
  by (simp add: ga_numeric_def ga_add_keeps)

lemma ga_save_canon_keeps: "keeps (wants_canon hostname hints) g (ga_save_canon hostname hints name g)"
  by (auto simp: ga_save_canon_def wants_canon_def keeps_def slack_def dest!: alloc_live split: prod.splits bool.splits)

lemma ga_lookup_keeps: "keeps (wants_canon hostname hints) g (ga_lookup rs hostname hints nsearch s g)"
  by (simp add: ga_lookup_def keeps_seq ga_save_canon_keeps ga_add_all_keeps split: sum.split)

lemma ga_search_keeps: "keeps (wants_canon hostname hints) g (ga_search rs hostname hints nsearch ss g)"
proof (induction ss arbitrary: g)
  case (Cons s ss)
  have "keeps (wants_canon hostname hints) g (ga_search1 rs hostname hints nsearch s g)"
    by (simp add: ga_search1_def ga_numeric_keeps ga_lookup_keeps split: option.split)
  then show ?case
    by (simp add: keeps_seq Cons.IH)
qed simp

lemma ga_canon_slack:
  "ga_canon hostname hints host0 g = (rc, g') \<Longrightarrow> uncanon (g_ais g) \<Longrightarrow> g_ais g \<noteq> [] \<Longrightarrow> slack g' = slack g"
  by (cases "g_ais g")
    (auto simp: ga_canon_def slack_def set_canon_def blocks_def dest!: alloc_live
      split: prod.splits bool.splits option.splits if_splits)

lemma ga_service_slack: "ga_service be rs hints servname g = (rc, g') \<Longrightarrow> slack g' = slack g \<and> g_canon g' = g_canon g"
  using ga_serv_live_of [of be rs "g_ais g" hints "the servname" "g_mem g"]
  by (auto simp: ga_service_def slack_def live_of_def split: prod.splits if_splits)

lemma ga_canon_moved:
  "ga_canon hostname hints host0 g = (rc, g') \<Longrightarrow> (rc = None \<or> g_canon g = None) \<Longrightarrow>
     (wants_canon hostname hints \<or> g_canon g = None) \<Longrightarrow> g_canon g' = None"
  by (auto simp: ga_canon_def wants_canon_def split: prod.splits bool.splits option.splits if_splits)

lemma ga_bad_live: "ga_bad e g = (out, m) \<Longrightarrow> out = GaiErr e \<and> m_live m = slack g + of_bool (g_canon g \<noteq> None)"
  by (auto simp: ga_bad_def freeaddrinfo_def slack_def ai_blocks_def)

lemma ga_inet_memory:
  assumes "ga_inet be rs hostname servname hints m = (out, m')"
  shows "case out of
      GaiOk ais \<Rightarrow> m_live m' = m_live m + ai_blocks ais
    | GaiErr e \<Rightarrow> m_live m' = m_live m \<or> wants_canon hostname hints \<and> m_live m' = m_live m + 1
    | GaiQuit \<Rightarrow> m' = m"
proof (cases "ga_nsearch hostname hints")
  case None
  then show ?thesis
    using assms by (auto simp: ga_inet_def)
next
  case (Some ss)
  let ?g0 = "\<lparr>g_ais = [], g_canon = None, g_mem = m\<rparr>"
  obtain rc g where s: "ga_search rs hostname hints (length ss) ss ?g0 = (rc, g)"
    by (cases "ga_search rs hostname hints (length ss) ss ?g0")
  have k: "slack g = m_live m" "uncanon (g_ais g)" "\<not> wants_canon hostname hints \<Longrightarrow> g_canon g = None"
    using ga_search_keeps [of hostname hints ?g0 rs "length ss" ss] s by (auto simp: keeps_def slack_def)
  have bad: ?thesis if "ga_bad e h = (out, m')" "slack h = m_live m" "\<not> wants_canon hostname hints \<Longrightarrow> g_canon h = None" for e h
    using ga_bad_live [OF that(1)] that(2,3) by (cases "wants_canon hostname hints") auto
  show ?thesis
  proof (cases "rc \<noteq> None \<or> g_ais g = []")
    case True
    then show ?thesis
      using assms bad [of _ g] k by (auto simp: ga_inet_def Some s split: option.splits)
  next
    case False
    obtain rc2 g2 where c: "ga_canon hostname hints (s_host (hd ss)) g = (rc2, g2)"
      by (cases "ga_canon hostname hints (s_host (hd ss)) g")
    have k2: "slack g2 = m_live m" "\<not> wants_canon hostname hints \<Longrightarrow> g_canon g2 = None" "rc2 = None \<Longrightarrow> g_canon g2 = None"
      using ga_canon_slack [OF c] ga_canon_moved [OF c] k False by (cases "wants_canon hostname hints"; auto)+
    obtain rc3 g3 where v: "ga_service be rs hints servname g2 = (rc3, g3)"
      by (cases "ga_service be rs hints servname g2")
    note k3 = ga_service_slack [OF v]
    show ?thesis
    proof (cases "rc2 = None \<and> rc3 = None")
      case True
      then show ?thesis
        using assms False k2 k3 by (auto simp: ga_inet_def Some s c v slack_def)
    next
      case no: False
      then show ?thesis
        using assms False bad [of _ g2] bad [of _ g3] k2 k3
        by (auto simp: ga_inet_def Some s c v split: option.splits)
    qed
  qed
qed


text \<open>A resolver with one host of one address and one service.\<close>

definition one_host :: resolver where
  "one_host = \<lparr>gethostbyname2 = (\<lambda>h f. if h = ''a'' \<and> f = AF_INET
        then Inr \<lparr>h_name = ''a.b'', h_addrtype = AF_INET, h_addr_list = [[10, 0, 0, 1]]\<rparr> else Inl HOST_NOT_FOUND),
     gethostbyname = (\<lambda>v6 h. Inl HOST_NOT_FOUND), gethostbyaddr = (\<lambda>a f. None),
     getservbyname = (\<lambda>s p. if s = ''x'' then Some 7 else None), getservbyport = (\<lambda>p pr. None), nodename = None\<rparr>"

definition fresh_mem :: "(nat \<Rightarrow> bool) \<Rightarrow> mem" where
  "fresh_mem fails = \<lparr>m_calls = 0, m_fails = fails, m_live = 0, m_unlinked = []\<rparr>"

lemmas gai_defs = getaddrinfo_def ga_echeck_def ga_inet_def ga_nsearch_def search_for_def null_name_def
  ga_search1_def as_v4_def as_v6_def ga_lookup_def ga_save_canon_def ga_add_def ga_aistruct_def ga_sockaddr_def
  ga_canon_def ga_service_def ga_serv_def ga_serv_try_def ga_clone_def ga_port_set_def ga_bad_def unix_names_def
  freeaddrinfo_def alloc_def set_canon_def blocks_def has_flag_def AI_PASSIVE_def AI_CANONNAME_def AI_CLONE_def
  SOCK_STREAM_def SOCK_DGRAM_def SOCK_RAW_def

lemmas gai_eval = gai_defs one_host_def fresh_mem_def no_hints_def isdigit_def isxdigit_def digits_def xdigit_def

lemma getaddrinfo_leaks_canon:
  "getaddrinfo be one_host (Some ''a'') None (Some (no_hints\<lparr>ai_flags := AI_CANONNAME\<rparr>)) (fresh_mem (\<lambda>k. k = 1)) =
     (GaiErr EAI_MEMORY, \<lparr>m_calls = 2, m_fails = (\<lambda>k. k = 1), m_live = 1, m_unlinked = []\<rparr>)"
  by (simp add: gai_eval)


subsection \<open>Numeric names\<close>

text \<open>The tests before the two conversions reject no text that they would accept, and no text is both.\<close>

lemma octet_of_chars: "octet_of f = Some b \<Longrightarrow> f \<noteq> [] \<and> (\<forall>c \<in> set f. isdigit c)"
  using read_dec_set [of 0 f] by (auto simp: octet_of_def isdigit_def split: if_splits option.splits)

lemma octets_of_fields: "octets_of fs = Some bs \<Longrightarrow> f \<in> set fs \<Longrightarrow> octet_of f \<noteq> None"
  by (induction fs arbitrary: bs) (auto split: option.splits)

lemma inet_pton4_fields:
  assumes "inet_pton4 s = Some a"
  shows "length a = 4" "\<And>f. f \<in> set (split CHR ''.'' s) \<Longrightarrow> octet_of f \<noteq> None"
  using assms octets_of_fields [of "split CHR ''.'' s" a] octets_of_length [of "split CHR ''.'' s" a]
  unfolding inet_pton4_def pton4_from_quad by (auto simp: quad_spec_def Let_def split: if_splits)

lemma join_chars: "c \<in> set (join x fs) \<Longrightarrow> c = x \<or> (\<exists>f \<in> set fs. c \<in> set f)"
  by (induction x fs rule: join.induct) auto

lemma inet_pton4_chars: "inet_pton4 s = Some a \<Longrightarrow> c \<in> set s \<Longrightarrow> c = CHR ''.'' \<or> isdigit c"
  using join_chars [of c "CHR ''.''" "split CHR ''.'' s"] inet_pton4_fields(2) [of s a] octet_of_chars by fastforce

lemma inet_pton4_hd:
  assumes "inet_pton4 s = Some a"
  shows "s \<noteq> [] \<and> isdigit (hd s)"
proof (cases s)
  case Nil
  then show ?thesis
    using inet_pton4_fields(2) [OF assms, of "[]"] by (simp add: octet_of_def)
next
  case (Cons c cs)
  have "c \<noteq> CHR ''.''"
    using inet_pton4_fields(2) [OF assms, of "[]"] Cons by (auto simp: octet_of_def)
  then show ?thesis
    using inet_pton4_chars [OF assms, of c] Cons by simp
qed

lemma as_v4_eq: "as_v4 host = inet_pton4 host"
  using inet_pton4_hd [of host] by (auto simp: as_v4_def inet_pton_def split: option.splits)

lemma pton6_no_colon:
  assumes "CHR '':'' \<notin> set src" "inet_pton6_loop src ct saw val tmp None = Some (saw', val', tmp', cp')"
  shows "cp' = None \<and> (tmp' = tmp \<or> (\<exists>q. inet_pton4 ct = Some q \<and> tmp' = tmp @ q \<and> \<not> saw'))"
  using assms
  by (induction src ct saw val tmp "None :: nat option" rule: inet_pton6_loop.induct)
    (auto simp: Let_def split: option.splits if_splits)

lemma inet_pton6_colon:
  assumes "inet_pton6 s = Some a"
  shows "CHR '':'' \<in> set s"
proof (rule ccontr)
  assume no: "CHR '':'' \<notin> set s"
  then have "inet_pton6_tok s = Some a"
    using assms by (auto simp: inet_pton6_def split: list.splits if_splits)
  then show False
    using pton6_no_colon [OF no, of s False 0 "[]"] inet_pton4_fields(1) [of s]
    by (auto simp: inet_pton6_tok_def inet_pton6_end_def Let_def split: option.splits if_splits)
qed

lemma inet_pton6_hd:
  assumes "inet_pton6 s = Some a"
  shows "s \<noteq> [] \<and> (isxdigit (hd s) \<or> hd s = CHR '':'')"
proof (cases s)
  case Nil
  then show ?thesis
    using inet_pton6_colon [OF assms] by simp
next
  case (Cons c cs)
  have "inet_pton4 (CHR ''.'' # cs) = None"
    using inet_pton4_hd [of "CHR ''.'' # cs"] by (cases "inet_pton4 (CHR ''.'' # cs)") (auto simp: isdigit_def)
  then show ?thesis
    using assms Cons by (auto simp: inet_pton6_def inet_pton6_tok_def isxdigit_def split: option.splits if_splits)
qed

lemma as_v6_eq: "as_v6 host = inet_pton6 host"
  using inet_pton6_hd [of host] inet_pton6_colon [of host] strchr_None [of host "CHR '':''"]
  by (cases "inet_pton6 host") (auto simp: as_v6_def inet_pton_def split: option.splits)

lemma pton_disjoint: "inet_pton6 s = Some a \<Longrightarrow> inet_pton4 s = None"
  using inet_pton6_colon [of s a] inet_pton4_chars [of s _ "CHR '':''"] by (cases "inet_pton4 s") (auto simp: isdigit_def)

subsection \<open>The list for a numeric name\<close>

definition roomy :: "mem \<Rightarrow> bool" where
  "roomy m \<longleftrightarrow> m_fails m = (\<lambda>_. False)"

lemma alloc_roomy: "roomy m \<Longrightarrow> \<exists>m'. alloc m = (True, m') \<and> roomy m'"
  by (simp add: alloc_def roomy_def)

definition inet_sa :: "sockaddr \<Rightarrow> bool" where
  "inet_sa sa \<longleftrightarrow> sa_ok sa \<and> sa_family sa \<in> {AF_INET, AF_INET6}"

lemma inet_sa_cases:
  assumes "inet_sa sa"
  obtains p a where "sa = Sin p a" "length a = 4" | p a where "sa = Sin6 p a" "length a = 16"
  using assms by (cases sa) (auto simp: inet_sa_def sa_ok_def sa_family_def split: if_splits)

text \<open>The structure that the search makes for the address \<open>sa\<close> without its port.\<close>

definition ai_for :: "addrinfo \<Rightarrow> sockaddr \<Rightarrow> addrinfo" where
  "ai_for hints sa = \<lparr>ai_flags = (if ai_socktype hints = 0 then AI_CLONE else 0), ai_family = sa_family sa,
     ai_socktype = ai_socktype hints, ai_protocol = ai_protocol hints,
     ai_addrlen = (if sa_family sa = AF_INET then sizeof_in else sizeof_in6),
     ai_canonname = None, ai_addr = Some (sock_set_port sa 0)\<rparr>"

lemma ga_add_for:
  assumes "inet_sa sa" "roomy (g_mem g)"
  shows "\<exists>m. ga_add hints (sa_addr sa) (sa_family sa) g = (None, g\<lparr>g_ais := g_ais g @ [ai_for hints sa], g_mem := m\<rparr>) \<and> roomy m"
proof -
  obtain m1 where m1: "alloc (g_mem g) = (True, m1)" "roomy m1"
    using alloc_roomy [OF assms(2)] by blast
  obtain m2 where m2: "alloc m1 = (True, m2)" "roomy m2"
    using alloc_roomy [OF m1(2)] by blast
  have "ga_add hints (sa_addr sa) (sa_family sa) g = (None, g\<lparr>g_ais := g_ais g @ [ai_for hints sa], g_mem := m2\<rparr>)"
    using assms(1)
    by (rule inet_sa_cases)
      (simp_all add: ga_add_def ga_aistruct_def ga_sockaddr_def m1 m2 ai_for_def sa_family_def sock_set_port_def)
  then show ?thesis
    using m2(2) by blast
qed

lemma ga_search_numeric:
  assumes sa: "inet_sa sa" and m: "roomy m" and pton: "inet_pton (sa_family sa) host = Inr (Some (sa_addr sa))"
    and fam: "ai_family hints \<in> {AF_UNSPEC, sa_family sa}"
  shows "\<exists>ss m'. ga_nsearch (Some host) hints = Some ss \<and> s_host (hd ss) = host \<and> roomy m' \<and>
    ga_search rs (Some host) hints n ss \<lparr>g_ais = [], g_canon = None, g_mem = m\<rparr> =
      (None, \<lparr>g_ais = [ai_for hints sa], g_canon = None, g_mem = m'\<rparr>)"
proof -
  let ?g = "\<lparr>g_ais = [], g_canon = None, g_mem = m\<rparr>"
  obtain m' where add: "ga_add hints (sa_addr sa) (sa_family sa) ?g = (None, \<lparr>g_ais = [ai_for hints sa], g_canon = None, g_mem = m'\<rparr>)"
    and m': "roomy m'"
    using ga_add_for [OF sa, of ?g hints] m by auto
  have v: "host \<noteq> []" "ga_search1 rs (Some host) hints n \<lparr>s_host = host, s_family = f\<rparr> g =
      (if f = sa_family sa then ga_add hints (sa_addr sa) (sa_family sa) g else (None, g))" for f g
    using sa pton fam inet_pton4_hd [of host] inet_pton6_hd [of host] pton_disjoint [of host]
    by (auto elim!: inet_sa_cases simp: ga_search1_def as_v4_eq as_v6_eq inet_pton_def ga_numeric_def sa_family_def)
  show ?thesis
    using sa fam add m' v
    by (auto elim!: inet_sa_cases simp: ga_nsearch_def search_for_def null_name_def sa_family_def)
qed

lemma atoi_read: "read_dec v s = Some w \<Longrightarrow> atoi v s = w"
  by (induction s arbitrary: v) (auto split: option.splits)

lemma isdigit_show: "isdigit (hd (show_dec n))"
  using show_dec_digits [of "hd (show_dec n)" n] by (simp add: isdigit_def)

lemma sock_set_port_twice [simp]: "sock_set_port (sock_set_port sa p) q = sock_set_port sa q"
  by (cases sa) (simp_all add: sock_set_port_def)

lemma sock_set_port_same: "inet_sa sa \<Longrightarrow> sock_set_port sa (uint (sa_port sa)) = sa"
  by (auto elim!: inet_sa_cases simp: sock_set_port_def)

lemma htons_number: "htons be (of_nat (atoi 0 (show_dec (unat (ntohs be p))))) = p"
  by (simp add: atoi_read [OF read_show_dec])

text \<open>The port number sets the port and the type of a single structure, or of the structure and its clone.\<close>

lemma ga_serv_numeric:
  fixes be sa
  defines "serv \<equiv> show_dec (unat (ntohs be (sa_port sa)))"
  assumes sa: "inet_sa sa" and m: "roomy m"
  shows "\<exists>ais m'. ga_serv be rs [ai_for hints sa\<lparr>ai_canonname := cn\<rparr>] hints serv m = (None, ais, m') \<and>
    map (\<lambda>ai. (ai_socktype ai, ai_addr ai)) ais =
      map (\<lambda>t. (t, Some sa)) (if ai_socktype hints = 0 then [SOCK_STREAM, SOCK_DGRAM] else [ai_socktype hints])"
proof -
  obtain m1 where m1: "alloc m = (True, m1)" "roomy m1"
    using alloc_roomy [OF m] by blast
  obtain m2 where m2: "alloc m1 = (True, m2)" "roomy m2"
    using alloc_roomy [OF m1(2)] by blast
  have serv: "isdigit (hd serv)" "htons be (of_nat (atoi 0 serv)) = sa_port sa"
    unfolding serv_def by (simp_all add: isdigit_show htons_number)
  have fam: "ai_family (ai_for hints sa) = AF_INET \<or> ai_family (ai_for hints sa) = AF_INET6"
    using sa by (auto simp: ai_for_def inet_sa_def)
  show ?thesis
    using fam sock_set_port_same [OF sa]
    by (auto simp: ga_serv_def serv ga_serv_try_def ga_port_set_def ai_for_def ga_clone_def m1 m2 has_flag_def AI_CLONE_def
        SOCK_STREAM_def SOCK_DGRAM_def Let_def)
qed

lemma getnameinfo_numeric:
  assumes "inet_sa sa" "has_flag flags NI_NUMERICHOST" "has_flag flags NI_NUMERICSERV" "6 \<le> servlen"
    "getnameinfo be rs sa hostlen servlen flags = Some (Some host, Some serv)"
  shows "inet_pton (sa_family sa) host = Inr (Some (sa_addr sa))" "serv = show_dec (unat (ntohs be (sa_port sa)))"
proof -
  have f: "snprintf servlen (show_dec (unat (ntohs be p))) = show_dec (unat (ntohs be p))" for p
    using length_show_port [OF u16_less [of "ntohs be p"]] assms(4) by (intro snprintf_fits) simp
  have "inet_ntop (sa_family sa) (sa_addr sa) hostlen = Inr host \<and> serv = show_dec (unat (ntohs be (sa_port sa)))"
    using assms by (auto elim!: inet_sa_cases simp: getnameinfo_def gn_ipv46_def gn_host_def gn_serv_def sa_family_def f
        Let_def split: if_splits option.splits sum.splits)
  moreover have "sa_family sa = AF_INET \<and> length (sa_addr sa) = 4 \<or> sa_family sa = AF_INET6 \<and> length (sa_addr sa) = 16"
    using assms(1) by (auto elim!: inet_sa_cases simp: sa_family_def)
  ultimately show "inet_pton (sa_family sa) host = Inr (Some (sa_addr sa))" "serv = show_dec (unat (ntohs be (sa_port sa)))"
    by (auto intro: ntop_pton)
qed

lemma numeric_not_unix:
  assumes "inet_pton (sa_family sa) host = Inr (Some a)"
  shows "\<not> unix_names (Some host) serv" "\<not> null_name (Some host)"
proof -
  have "host \<noteq> [] \<and> (isdigit (hd host) \<or> isxdigit (hd host) \<or> hd host = CHR '':'')"
    using assms inet_pton4_hd [of host] inet_pton6_hd [of host]
    by (auto simp: inet_pton_def split: addr_family.splits)
  then show "\<not> unix_names (Some host) serv" "\<not> null_name (Some host)"
    by (auto simp: unix_names_def null_name_def isdigit_def isxdigit_def digits_def xdigit_def xdigits_l_def xdigits_u_def)
qed

lemma ga_canon_roomy:
  assumes "roomy (g_mem g)" "g_ais g = [ai]" "g_canon g = None"
  shows "\<exists>cn m. ga_canon hostname hints host0 g = (None, g\<lparr>g_ais := [ai\<lparr>ai_canonname := cn\<rparr>], g_mem := m\<rparr>) \<and> roomy m
    \<or> ga_canon hostname hints host0 g = (None, g)"
  using alloc_roomy [OF assms(1)] assms(2,3) by (fastforce simp: ga_canon_def set_canon_def)

text \<open>
  C20. The numeric texts that \<open>getnameinfo\<close> gives for an IPv4 or IPv6 socket address lead \<open>getaddrinfo\<close> back to that
  address and port: with a socket type one structure of that type, without one a stream and a datagram
  structure, for every byte order and resolver, as long as memory lasts and the hints admit the family.
\<close>

theorem getnameinfo_getaddrinfo:
  assumes sa: "inet_sa sa" "has_flag flags NI_NUMERICHOST" "has_flag flags NI_NUMERICSERV" "6 \<le> servlen"
      "getnameinfo be rs sa hostlen servlen flags = Some (Some host, Some serv)"
    and hints: "ai_flags hints \<in> {0, 1, 2, 3}" "ai_family hints \<in> {AF_UNSPEC, sa_family sa}"
      "ai_socktype hints \<in> {0, SOCK_STREAM, SOCK_DGRAM, SOCK_RAW}"
    and m: "roomy m"
  shows "\<exists>ais m'. getaddrinfo be rs' (Some host) (Some serv) (Some hints) m = (GaiOk ais, m') \<and>
    map (\<lambda>ai. (ai_socktype ai, ai_addr ai)) ais =
      map (\<lambda>t. (t, Some sa)) (if ai_socktype hints = 0 then [SOCK_STREAM, SOCK_DGRAM] else [ai_socktype hints])"
proof -
  note texts = getnameinfo_numeric [OF sa] and names = numeric_not_unix [OF getnameinfo_numeric(1) [OF sa]]
  have echeck: "ga_echeck (Some host) (Some serv) (ai_flags hints) (ai_family hints) (ai_socktype hints) (ai_protocol hints) = None"
    using hints names(2) sa(1) by (auto simp: ga_echeck_def AI_PASSIVE_def AI_CANONNAME_def inet_sa_def)
  obtain ss m1 where s: "ga_nsearch (Some host) hints = Some ss" "s_host (hd ss) = host" "roomy m1"
    "ga_search rs' (Some host) hints (length ss) ss \<lparr>g_ais = [], g_canon = None, g_mem = m\<rparr> =
      (None, \<lparr>g_ais = [ai_for hints sa], g_canon = None, g_mem = m1\<rparr>)"
    using ga_search_numeric [OF sa(1) m texts(1) hints(2), of rs' "length (the (ga_nsearch (Some host) hints))"] by auto
  let ?g = "\<lparr>g_ais = [ai_for hints sa], g_canon = None, g_mem = m1\<rparr>"
  obtain cn m2 where c: "ga_canon (Some host) hints host ?g =
      (None, \<lparr>g_ais = [ai_for hints sa\<lparr>ai_canonname := cn\<rparr>], g_canon = None, g_mem = m2\<rparr>)" "roomy m2"
    using ga_canon_roomy [of ?g "ai_for hints sa" "Some host" hints host] s(3) by (auto simp: ai_for_def)
  have serv: "\<not> null_name (Some serv)"
    by (simp add: texts(2) null_name_def)
  obtain ais m' where v: "ga_serv be rs' [ai_for hints sa\<lparr>ai_canonname := cn\<rparr>] hints serv m2 = (None, ais, m')"
    and ais: "map (\<lambda>ai. (ai_socktype ai, ai_addr ai)) ais =
      map (\<lambda>t. (t, Some sa)) (if ai_socktype hints = 0 then [SOCK_STREAM, SOCK_DGRAM] else [ai_socktype hints])"
    using ga_serv_numeric [where be = be and rs = rs' and hints = hints and cn = cn, OF sa(1) c(2), folded texts(2)] by blast
  have "getaddrinfo be rs' (Some host) (Some serv) (Some hints) m = (GaiOk ais, m')"
    by (simp add: getaddrinfo_def echeck names(1) ga_inet_def s c ga_service_def serv v)
  then show ?thesis
    using ais by blast
qed

theorem getnameinfo_getaddrinfo_witness:
  "\<exists>ais m'. getaddrinfo True one_host (Some ''10.0.0.1'') (Some ''80'') (Some no_hints) (fresh_mem (\<lambda>_. False)) = (GaiOk ais, m') \<and>
     map (\<lambda>ai. (ai_socktype ai, ai_addr ai)) ais =
       [(SOCK_STREAM, Some (Sin 80 [10, 0, 0, 1])), (SOCK_DGRAM, Some (Sin 80 [10, 0, 0, 1]))]"
proof -
  let ?sa = "Sin 80 [10, 0, 0, 1]"
  have "getnameinfo True one_host ?sa 16 6 10 = Some (Some ''10.0.0.1'', Some ''80'')"
    by (simp add: getnameinfo_def gn_ipv46_def gn_host_def gn_serv_def has_flag_def NI_NUMERICHOST_def NI_NUMERICSERV_def
        inet_ntop_def inet_ntop4_def dotted_quad_def show_dec.simps digits_def ntohs_def htons_def snprintf_def)
  moreover have "inet_sa ?sa" "has_flag 10 NI_NUMERICHOST" "has_flag 10 NI_NUMERICSERV" "roomy (fresh_mem (\<lambda>_. False))"
    by (simp_all add: inet_sa_def sa_ok_def sa_family_def has_flag_def NI_NUMERICHOST_def NI_NUMERICSERV_def roomy_def fresh_mem_def)
  ultimately show ?thesis
    using getnameinfo_getaddrinfo [of ?sa 10 6 True one_host 16 "''10.0.0.1''" "''80''" no_hints "fresh_mem (\<lambda>_. False)" one_host]
    by (simp add: no_hints_def)
qed

end
