(* ===== verification/SockOpen.thy ===== *)
theory SockOpen
  imports AddrInfo
begin

text \<open>
  The functions of \<^verbatim>\<open>src/unixNetV1/lib\<close> that open sockets for a host and a service: \<^verbatim>\<open>tcp_connect\<close>,
  \<^verbatim>\<open>udp_connect\<close>, \<^verbatim>\<open>tcp_listen\<close>, \<^verbatim>\<open>udp_server\<close>, \<^verbatim>\<open>udp_client\<close> and \<^verbatim>\<open>host_serv\<close>, each a loop over the list
  that \<^verbatim>\<open>getaddrinfo\<close> returns, and the helpers \<^verbatim>\<open>sock_bind_wild\<close> and \<^verbatim>\<open>sockfd_to_family\<close>. The socket
  calls are answered by an environment that sees the history of calls, newest first. Leaving the
  process in \<^verbatim>\<open>err_quit\<close> or \<^verbatim>\<open>err_sys\<close> is the result \<open>None\<close>. The theory shows that a successful call leaves exactly
  the returned descriptor open, the list freed, and the socket connected or bound to an address of the list.
\<close>

subsection \<open>Socket calls\<close>

datatype sockcall =
    SkSocket addr_family int int
  | SkConnect int "sockaddr option" nat
  | SkBind int "sockaddr option" nat
  | SkReuseaddr int
  | SkListen int int
  | SkClose int

type_synonym sk_trace = "(sockcall \<times> int res) list"
type_synonym sk_env = "sk_trace \<Rightarrow> sockcall \<Rightarrow> int res"

definition sk :: "sk_env \<Rightarrow> sockcall \<Rightarrow> sk_trace \<Rightarrow> int res \<times> sk_trace" where
  "sk env c h = (env h c, (c, env h c) # h)"

fun sk_opened :: "sk_trace \<Rightarrow> int multiset" where
  "sk_opened ((SkSocket f t p, Inr fd) # h) = add_mset fd (sk_opened h)"
| "sk_opened (x # h) = sk_opened h"
| "sk_opened [] = {#}"

fun sk_closed :: "sk_trace \<Rightarrow> int multiset" where
  "sk_closed ((SkClose fd, r) # h) = add_mset fd (sk_closed h)"
| "sk_closed (x # h) = sk_closed h"
| "sk_closed [] = {#}"

text \<open>The wrappers \<^verbatim>\<open>Close\<close>, \<^verbatim>\<open>Setsockopt\<close> and \<^verbatim>\<open>Listen\<close>; \<open>listenq\<close> is the environment variable that overrides the backlog.\<close>

definition sk_wrap :: "sk_env \<Rightarrow> sockcall \<Rightarrow> sk_trace \<Rightarrow> bool \<times> sk_trace" where
  "sk_wrap env c h = (case sk env c h of (Inl e, h) \<Rightarrow> (False, h) | (Inr v, h) \<Rightarrow> (True, h))"

definition Listen :: "sk_env \<Rightarrow> string option \<Rightarrow> int \<Rightarrow> int \<Rightarrow> sk_trace \<Rightarrow> bool \<times> sk_trace" where
  "Listen env listenq fd backlog h =
     sk_wrap env (SkListen fd (case listenq of None \<Rightarrow> backlog | Some s \<Rightarrow> int (atoi 0 s))) h"

definition LISTENQ :: int where "LISTENQ = 1024"

subsection \<open>The loop over the addresses\<close>

text \<open>
  What a function does with a new socket: \<open>Some True\<close> leaves the loop, \<open>Some False\<close> closes the socket and goes on,
  \<open>None\<close> ends the process.
\<close>

type_synonym sk_try = "sk_env \<Rightarrow> int \<Rightarrow> addrinfo \<Rightarrow> sk_trace \<Rightarrow> bool option \<times> sk_trace"

definition try_connect :: sk_try where
  "try_connect env fd ai h = (case sk env (SkConnect fd (ai_addr ai) (ai_addrlen ai)) h of
     (Inl e, h) \<Rightarrow> (Some False, h)
   | (Inr v, h) \<Rightarrow> (Some True, h))"

definition try_bind :: sk_try where
  "try_bind env fd ai h = (case sk env (SkBind fd (ai_addr ai) (ai_addrlen ai)) h of
     (Inl e, h) \<Rightarrow> (Some False, h)
   | (Inr v, h) \<Rightarrow> (Some True, h))"

definition try_reuse_bind :: sk_try where
  "try_reuse_bind env fd ai h = (case sk_wrap env (SkReuseaddr fd) h of
     (False, h) \<Rightarrow> (None, h)
   | (True, h) \<Rightarrow> try_bind env fd ai h)"

definition try_nothing :: sk_try where
  "try_nothing env fd ai h = (Some True, h)"

fun sk_loop :: "sk_env \<Rightarrow> sk_try \<Rightarrow> addrinfo list \<Rightarrow> sk_trace \<Rightarrow> (int \<times> addrinfo) option \<times> sk_trace" where
  "sk_loop env att [] h = (None, h)"
| "sk_loop env att (ai # ais) h =
     (case sk env (SkSocket (ai_family ai) (ai_socktype ai) (ai_protocol ai)) h of
        (Inl e, h) \<Rightarrow> sk_loop env att ais h
      | (Inr fd, h) \<Rightarrow> (case att env fd ai h of
          (None, h) \<Rightarrow> (None, h)
        | (Some True, h) \<Rightarrow> (Some (fd, ai), h)
        | (Some False, h) \<Rightarrow> (case sk_wrap env (SkClose fd) h of
            (False, h) \<Rightarrow> (None, h)
          | (True, h) \<Rightarrow> sk_loop env att ais h)))"

definition hints_for :: "int \<Rightarrow> int \<Rightarrow> addrinfo" where
  "hints_for flags socktype = no_hints\<lparr>ai_flags := flags, ai_socktype := socktype\<rparr>"

text \<open>Name resolution, the loop, and \<^verbatim>\<open>freeaddrinfo\<close> of the whole list.\<close>

definition sk_open ::
  "bool \<Rightarrow> resolver \<Rightarrow> sk_env \<Rightarrow> sk_try \<Rightarrow> addrinfo \<Rightarrow> string option \<Rightarrow> string option \<Rightarrow> mem \<Rightarrow>
   (int \<times> addrinfo) option \<times> mem \<times> sk_trace" where
  "sk_open be rs env att hints host serv m = (case getaddrinfo be rs host serv (Some hints) m of
     (GaiOk res, m) \<Rightarrow> (case sk_loop env att res [] of
         (None, h) \<Rightarrow> (None, m, h)
       | (Some r, h) \<Rightarrow> (Some r, freeaddrinfo res m, h))
   | (_, m) \<Rightarrow> (None, m, []))"

definition tcp_connect ::
  "bool \<Rightarrow> resolver \<Rightarrow> sk_env \<Rightarrow> string option \<Rightarrow> string option \<Rightarrow> mem \<Rightarrow> (int \<times> addrinfo) option \<times> mem \<times> sk_trace" where
  "tcp_connect be rs env host serv m = sk_open be rs env try_connect (hints_for 0 SOCK_STREAM) host serv m"

definition udp_connect ::
  "bool \<Rightarrow> resolver \<Rightarrow> sk_env \<Rightarrow> string option \<Rightarrow> string option \<Rightarrow> mem \<Rightarrow> (int \<times> addrinfo) option \<times> mem \<times> sk_trace" where
  "udp_connect be rs env host serv m = sk_open be rs env try_connect (hints_for 0 SOCK_DGRAM) host serv m"

definition udp_server ::
  "bool \<Rightarrow> resolver \<Rightarrow> sk_env \<Rightarrow> string option \<Rightarrow> string option \<Rightarrow> mem \<Rightarrow> (int \<times> addrinfo) option \<times> mem \<times> sk_trace" where
  "udp_server be rs env host serv m = sk_open be rs env try_bind (hints_for AI_PASSIVE SOCK_DGRAM) host serv m"

text \<open>\<^verbatim>\<open>tcp_listen\<close> calls \<^verbatim>\<open>Listen\<close> before it frees the list; a failure ends the process with the list allocated.\<close>

definition tcp_listen ::
  "bool \<Rightarrow> resolver \<Rightarrow> sk_env \<Rightarrow> string option \<Rightarrow> string option \<Rightarrow> string option \<Rightarrow> mem \<Rightarrow>
   (int \<times> addrinfo) option \<times> mem \<times> sk_trace" where
  "tcp_listen be rs env listenq host serv m =
     (case getaddrinfo be rs host serv (Some (hints_for AI_PASSIVE SOCK_STREAM)) m of
        (GaiOk res, m) \<Rightarrow> (case sk_loop env try_reuse_bind res [] of
            (None, h) \<Rightarrow> (None, m, h)
          | (Some (fd, ai), h) \<Rightarrow> (case Listen env listenq fd LISTENQ h of
              (False, h) \<Rightarrow> (None, m, h)
            | (True, h) \<Rightarrow> (Some (fd, ai), freeaddrinfo res m, h)))
      | (_, m) \<Rightarrow> (None, m, []))"

text \<open>\<^verbatim>\<open>udp_client\<close> also copies the address into a new block, which the caller owns.\<close>

definition udp_client ::
  "bool \<Rightarrow> resolver \<Rightarrow> sk_env \<Rightarrow> string option \<Rightarrow> string option \<Rightarrow> mem \<Rightarrow> (int \<times> addrinfo) option \<times> mem \<times> sk_trace" where
  "udp_client be rs env host serv m = (case getaddrinfo be rs host serv (Some (hints_for 0 SOCK_DGRAM)) m of
     (GaiOk res, m) \<Rightarrow> (case sk_loop env try_nothing res [] of
         (None, h) \<Rightarrow> (None, m, h)
       | (Some r, h) \<Rightarrow> (case alloc m of
           (False, m) \<Rightarrow> (None, m, h)
         | (True, m) \<Rightarrow> (Some r, freeaddrinfo res m, h)))
   | (_, m) \<Rightarrow> (None, m, []))"

definition host_serv ::
  "bool \<Rightarrow> resolver \<Rightarrow> string option \<Rightarrow> string option \<Rightarrow> addr_family \<Rightarrow> int \<Rightarrow> mem \<Rightarrow> addrinfo list option \<times> mem" where
  "host_serv be rs host serv family socktype m =
     (case getaddrinfo be rs host serv (Some ((hints_for AI_CANONNAME socktype)\<lparr>ai_family := family\<rparr>)) m of
        (GaiOk res, m) \<Rightarrow> (Some res, m)
      | (_, m) \<Rightarrow> (None, m))"

text \<open>\<^verbatim>\<open>Host_serv\<close> repeats the code of \<^verbatim>\<open>host_serv\<close>; for it \<open>None\<close> is the end of the process in \<^verbatim>\<open>err_quit\<close>.\<close>

definition Host_serv ::
  "bool \<Rightarrow> resolver \<Rightarrow> string option \<Rightarrow> string option \<Rightarrow> addr_family \<Rightarrow> int \<Rightarrow> mem \<Rightarrow> addrinfo list option \<times> mem" where
  "Host_serv be rs host serv family socktype m =
     (case getaddrinfo be rs host serv (Some ((hints_for AI_CANONNAME socktype)\<lparr>ai_family := family\<rparr>)) m of
        (GaiOk res, m) \<Rightarrow> (Some res, m)
      | (_, m) \<Rightarrow> (None, m))"

subsection \<open>Sockets without an address\<close>

text \<open>The address that \<^verbatim>\<open>getsockname\<close> reports is given by the function \<open>gsn\<close> of the history.\<close>

definition sock_bind_wild ::
  "sk_env \<Rightarrow> (sk_trace \<Rightarrow> int \<Rightarrow> sockaddr res) \<Rightarrow> int \<Rightarrow> addr_family \<Rightarrow> sk_trace \<Rightarrow> int \<times> sk_trace" where
  "sock_bind_wild env gsn sockfd family h =
     (let bind = (\<lambda>sa len. case sk env (SkBind sockfd (Some sa) len) h of
          (Inl e, h) \<Rightarrow> (-1, h)
        | (Inr v, h) \<Rightarrow> (case gsn h sockfd of Inl e \<Rightarrow> (-1, h) | Inr s \<Rightarrow> (uint (sa_port s), h)))
      in case family of
        AF_INET \<Rightarrow> bind (Sin 0 in4addr_any) sizeof_in
      | AF_INET6 \<Rightarrow> bind (Sin6 0 in6addr_any) sizeof_in6
      | _ \<Rightarrow> (-1, h))"

definition Sock_bind_wild ::
  "sk_env \<Rightarrow> (sk_trace \<Rightarrow> int \<Rightarrow> sockaddr res) \<Rightarrow> int \<Rightarrow> addr_family \<Rightarrow> sk_trace \<Rightarrow> int option \<times> sk_trace" where
  "Sock_bind_wild env gsn sockfd family h = (case sock_bind_wild env gsn sockfd family h of
     (port, h) \<Rightarrow> (if port < 0 then None else Some port, h))"

definition sockfd_to_family :: "(int \<Rightarrow> sockaddr res) \<Rightarrow> int \<Rightarrow> addr_family res" where
  "sockfd_to_family gsn sockfd = (case gsn sockfd of Inl e \<Rightarrow> Inl e | Inr s \<Rightarrow> Inr (sa_family s))"

definition Sockfd_to_family :: "(int \<Rightarrow> sockaddr res) \<Rightarrow> int \<Rightarrow> addr_family option" where
  "Sockfd_to_family gsn sockfd = (case sockfd_to_family gsn sockfd of Inl e \<Rightarrow> None | Inr f \<Rightarrow> Some f)"

subsection \<open>Descriptors\<close>

text \<open>
  The contract of the calls made on a new socket: they open and close nothing. It carries the loop: the
  descriptors that were opened are those closed, and the one returned, whose last call was made for an
  address of the list.
\<close>

definition sk_balanced :: "sk_trace \<Rightarrow> sk_trace \<Rightarrow> int multiset \<Rightarrow> bool" where
  "sk_balanced h h' fds \<longleftrightarrow> sk_opened h' + sk_closed h = sk_opened h + sk_closed h' + fds"

lemma sk_balanced_refl [simp]: "sk_balanced h h {#}"
  by (simp add: sk_balanced_def)

lemma sk_balanced_trans: "sk_balanced h1 h2 {#} \<Longrightarrow> sk_balanced h2 h3 fds \<Longrightarrow> sk_balanced h1 h3 fds"
proof -
  assume a: "sk_balanced h1 h2 {#}" and b: "sk_balanced h2 h3 fds"
  have "count (sk_opened h3 + sk_closed h1) x = count (sk_opened h1 + sk_closed h3 + fds) x" for x
    using a [unfolded sk_balanced_def, THEN arg_cong [where f = "\<lambda>M. count M x"]]
      b [unfolded sk_balanced_def, THEN arg_cong [where f = "\<lambda>M. count M x"]]
    by simp
  then show ?thesis
    unfolding sk_balanced_def by (rule multiset_eqI)
qed

lemma sk_simps [simp]:
  "sk_balanced h ((SkSocket f t p, Inl e) # h) {#}" "sk_balanced h ((SkSocket f t p, Inr fd) # h) {#fd#}"
  "sk_balanced h ((SkConnect fd sa len, r) # h) {#}" "sk_balanced h ((SkBind fd sa len, r) # h) {#}"
  "sk_balanced h ((SkReuseaddr fd, r) # h) {#}" "sk_balanced h ((SkListen fd n, r) # h) {#}"
  by (simp_all add: sk_balanced_def)

locale socket_try =
  fixes att :: sk_try
  assumes att_balanced: "att env fd ai h = (r, h') \<Longrightarrow> sk_balanced h h' {#}"
begin

lemma loop_balanced:
  "sk_loop env att ais h = (Some (fd, ai), h') \<Longrightarrow> sk_balanced h h' {#fd#} \<and> ai \<in> set ais"
proof (induction ais arbitrary: h)
  case (Cons a ais)
  show ?case
  proof (cases "env h (SkSocket (ai_family a) (ai_socktype a) (ai_protocol a))")
    case (Inl e)
    then have "sk_loop env att ais ((SkSocket (ai_family a) (ai_socktype a) (ai_protocol a), Inl e) # h) = (Some (fd, ai), h')"
      using Cons.prems by (simp add: sk_def)
    from Cons.IH [OF this] show ?thesis
      by (auto intro: sk_balanced_trans [OF sk_simps(1)])
  next
    case (Inr d)
    let ?h1 = "(SkSocket (ai_family a) (ai_socktype a) (ai_protocol a), Inr d) # h"
    obtain r h2 where t: "att env d a ?h1 = (r, h2)"
      by (cases "att env d a ?h1")
    have b: "sk_balanced h h2 {#d#}"
      using att_balanced [OF t] by (simp add: sk_balanced_def)
    show ?thesis
    proof (cases "r = Some True")
      case True
      then show ?thesis
        using Cons.prems Inr t b by (simp add: sk_def)
    next
      case False
      let ?h3 = "(SkClose d, env h2 (SkClose d)) # h2"
      have l: "sk_loop env att ais ?h3 = (Some (fd, ai), h')"
        using Cons.prems Inr t False
        by (auto simp: sk_def sk_wrap_def split: option.splits bool.splits sum.splits)
      have "sk_balanced h ?h3 {#}"
        using b by (simp add: sk_balanced_def)
      then show ?thesis
        using Cons.IH [OF l] sk_balanced_trans [of h ?h3 h' "{#fd#}"] by simp
    qed
  qed
qed simp

end

interpretation connecting: socket_try try_connect
  by unfold_locales (auto simp: try_connect_def sk_def split: sum.splits)

interpretation binding: socket_try try_bind
  by unfold_locales (auto simp: try_bind_def sk_def split: sum.splits)

interpretation listening: socket_try try_reuse_bind
proof
  fix env fd ai h r h'
  assume a: "try_reuse_bind env fd ai h = (r, h')"
  let ?h1 = "(SkReuseaddr fd, env h (SkReuseaddr fd)) # h"
  have "h' = ?h1 \<or> try_bind env fd ai ?h1 = (r, h')"
    using a by (auto simp: try_reuse_bind_def sk_wrap_def sk_def split: sum.splits)
  then show "sk_balanced h h' {#}"
    using sk_balanced_trans [OF sk_simps(5)] binding.att_balanced by fastforce
qed

interpretation unconnected: socket_try try_nothing
  by unfold_locales (simp add: try_nothing_def)

lemma ga_unix_live:
  assumes "ga_unix rs path hints m = (GaiOk ais, m')"
  shows "m_live m' = m_live m + ai_blocks ais"
proof -
  let ?first = "if ai_socktype hints = 0 then ga_aistruct [] (hints\<lparr>ai_socktype := SOCK_STREAM\<rparr>) (path_bytes path) AF_LOCAL m
    else (None, [], m)"
  obtain rc as m1 where 1: "?first = (rc, as, m1)"
    by (cases ?first)
  have l1: "m_live m1 = m_live m + ai_blocks as" "uncanon as"
    using ga_aistruct_live [of "[]" "hints\<lparr>ai_socktype := SOCK_STREAM\<rparr>" "path_bytes path" AF_LOCAL m rc as m1] 1
    by (auto split: if_splits)
  let ?h = "if ai_socktype hints = 0 then hints\<lparr>ai_socktype := SOCK_DGRAM\<rparr> else hints"
  obtain rc2 bs m2 where 2: "ga_aistruct as ?h (path_bytes path) AF_LOCAL m1 = (rc2, bs, m2)"
    by (cases "ga_aistruct as ?h (path_bytes path) AF_LOCAL m1")
  have l2: "m_live m2 = m_live m + ai_blocks bs" "uncanon bs"
    using ga_aistruct_live [OF 2] l1 by auto
  have "rc = None" "rc2 = None" "ga_unix_name rs ?h bs m2 = (GaiOk ais, m')"
    using assms 1 2 by (auto simp: ga_unix_def Let_def split: option.splits if_splits)
  moreover have "bs \<noteq> []"
    using 2 \<open>rc2 = None\<close> by (auto simp: ga_aistruct_def Let_def split: prod.splits bool.splits option.splits if_splits)
  ultimately show ?thesis
    using l2 by (cases bs) (auto simp: ga_unix_name_def set_canon_def blocks_def dest!: alloc_live
        split: option.splits prod.splits bool.splits if_splits)
qed

lemma getaddrinfo_ok_live:
  "getaddrinfo be rs host serv (Some hints) m = (GaiOk ais, m') \<Longrightarrow> m_live m' = m_live m + ai_blocks ais"
  using ga_unix_live [of rs "the serv" hints m ais m'] ga_inet_memory [of be rs host serv hints m "GaiOk ais" m']
  by (auto simp: getaddrinfo_def split: option.splits if_splits)

lemma freeaddrinfo_ok:
  "getaddrinfo be rs host serv (Some hints) m = (GaiOk ais, m') \<Longrightarrow> m_live (freeaddrinfo ais m') = m_live m"
  using getaddrinfo_ok_live [of be rs host serv hints m ais m'] by (simp add: freeaddrinfo_def ai_blocks_def)

text \<open>The last call before the loop is left.\<close>

lemma connect_last:
  "sk_loop env try_connect ais h = (Some (fd, ai), h') \<Longrightarrow> \<exists>v h0. h' = (SkConnect fd (ai_addr ai) (ai_addrlen ai), Inr v) # h0"
  by (induction ais arbitrary: h)
    (auto simp: sk_def sk_wrap_def try_connect_def split: sum.splits)

lemma bind_last:
  "sk_loop env try_bind ais h = (Some (fd, ai), h') \<Longrightarrow> \<exists>v h0. h' = (SkBind fd (ai_addr ai) (ai_addrlen ai), Inr v) # h0"
  by (induction ais arbitrary: h)
    (auto simp: sk_def sk_wrap_def try_bind_def split: sum.splits)

lemma reuse_bind_last:
  "sk_loop env try_reuse_bind ais h = (Some (fd, ai), h') \<Longrightarrow> \<exists>v h0. h' = (SkBind fd (ai_addr ai) (ai_addrlen ai), Inr v) # h0"
  by (induction ais arbitrary: h)
    (auto simp: sk_def sk_wrap_def try_bind_def try_reuse_bind_def split: sum.splits)

definition one_socket :: "int \<Rightarrow> sk_trace \<Rightarrow> bool" where
  "one_socket fd h \<longleftrightarrow> sk_opened h = sk_closed h + {#fd#}"

lemma one_socket_balanced: "sk_balanced [] h {#fd#} \<Longrightarrow> one_socket fd h"
  by (simp add: sk_balanced_def one_socket_def)

lemma sk_open_outcome:
  assumes "sk_open be rs env att hints host serv m = (Some (fd, ai), m', h)" "socket_try att"
  shows "one_socket fd h \<and> m_live m' = m_live m \<and> (\<exists>res. sk_loop env att res [] = (Some (fd, ai), h))"
proof -
  obtain res m1 where g: "getaddrinfo be rs host serv (Some hints) m = (GaiOk res, m1)"
    and l: "sk_loop env att res [] = (Some (fd, ai), h)" and m': "m' = freeaddrinfo res m1"
    using assms(1) by (auto simp: sk_open_def split: prod.splits gai_out.splits option.splits)
  have "sk_balanced [] h {#fd#}"
    using socket_try.loop_balanced [OF assms(2) l] by simp
  then show ?thesis
    using one_socket_balanced freeaddrinfo_ok [OF g] l m' by auto
qed

lemma tcp_listen_outcome:
  assumes "tcp_listen be rs env listenq host serv m = (Some (fd, ai), m', h)"
  shows "one_socket fd h \<and> m_live m' = m_live m \<and>
    (\<exists>n v w h0. h = (SkListen fd n, Inr v) # (SkBind fd (ai_addr ai) (ai_addrlen ai), Inr w) # h0)"
proof -
  obtain res m1 h1 where g: "getaddrinfo be rs host serv (Some (hints_for AI_PASSIVE SOCK_STREAM)) m = (GaiOk res, m1)"
    and l: "sk_loop env try_reuse_bind res [] = (Some (fd, ai), h1)" and m': "m' = freeaddrinfo res m1"
    and h: "Listen env listenq fd LISTENQ h1 = (True, h)"
    using assms by (auto simp: tcp_listen_def split: prod.splits gai_out.splits option.splits bool.splits)
  have "one_socket fd h1"
    using one_socket_balanced listening.loop_balanced [OF l] by blast
  moreover obtain n v where "h = (SkListen fd n, Inr v) # h1"
    using h by (auto simp: Listen_def sk_wrap_def sk_def split: sum.splits)
  ultimately show ?thesis
    using freeaddrinfo_ok [OF g] reuse_bind_last [OF l] m' by (auto simp: one_socket_def)
qed

lemma udp_client_outcome:
  assumes "udp_client be rs env host serv m = (Some (fd, ai), m', h)"
  shows "one_socket fd h \<and> m_live m' = m_live m + 1"
proof -
  obtain res m1 m2 where g: "getaddrinfo be rs host serv (Some (hints_for 0 SOCK_DGRAM)) m = (GaiOk res, m1)"
    and l: "sk_loop env try_nothing res [] = (Some (fd, ai), h)" and a: "alloc m1 = (True, m2)" and m': "m' = freeaddrinfo res m2"
    using assms by (auto simp: udp_client_def split: prod.splits gai_out.splits option.splits bool.splits)
  show ?thesis
    using one_socket_balanced unconnected.loop_balanced [OF l] freeaddrinfo_ok [OF g] alloc_live [OF a] m'
    by (auto simp: freeaddrinfo_def)
qed

text \<open>
  C26. Whatever the resolver and the kernel answer, a call of \<open>tcp_connect\<close>, \<open>udp_connect\<close>, \<open>udp_server\<close> or
  \<open>tcp_listen\<close> that returns leaves exactly the returned descriptor open, with all the sockets of the addresses that failed closed,
  and has freed the whole list of addresses; its last call connected, bound or made listen that descriptor.
\<close>

theorem sock_open_resources:
  "(tcp_connect be rs env host serv m = (Some (fd, ai), m', h) \<longrightarrow>
     one_socket fd h \<and> m_live m' = m_live m \<and> (\<exists>v h0. h = (SkConnect fd (ai_addr ai) (ai_addrlen ai), Inr v) # h0)) \<and>
   (udp_connect be rs env host serv m = (Some (fd, ai), m', h) \<longrightarrow>
     one_socket fd h \<and> m_live m' = m_live m \<and> (\<exists>v h0. h = (SkConnect fd (ai_addr ai) (ai_addrlen ai), Inr v) # h0)) \<and>
   (udp_server be rs env host serv m = (Some (fd, ai), m', h) \<longrightarrow>
     one_socket fd h \<and> m_live m' = m_live m \<and> (\<exists>v h0. h = (SkBind fd (ai_addr ai) (ai_addrlen ai), Inr v) # h0)) \<and>
   (tcp_listen be rs env listenq host serv m = (Some (fd, ai), m', h) \<longrightarrow>
     one_socket fd h \<and> m_live m' = m_live m \<and>
     (\<exists>n v w h0. h = (SkListen fd n, Inr v) # (SkBind fd (ai_addr ai) (ai_addrlen ai), Inr w) # h0))"
  using sk_open_outcome [of be rs env try_connect "hints_for 0 SOCK_STREAM" host serv m fd ai m' h, OF _ connecting.socket_try_axioms]
    sk_open_outcome [of be rs env try_connect "hints_for 0 SOCK_DGRAM" host serv m fd ai m' h, OF _ connecting.socket_try_axioms]
    sk_open_outcome [of be rs env try_bind "hints_for AI_PASSIVE SOCK_DGRAM" host serv m fd ai m' h, OF _ binding.socket_try_axioms]
    tcp_listen_outcome [of be rs env listenq host serv m fd ai m' h] connect_last bind_last
  unfolding tcp_connect_def udp_connect_def udp_server_def by blast

text \<open>A host with two addresses, of which the first refuses connections.\<close>

definition two_addrs :: resolver where
  "two_addrs = one_host\<lparr>gethostbyname2 := (\<lambda>h f. if f = AF_INET
     then Inr \<lparr>h_name = ''a.b'', h_addrtype = AF_INET, h_addr_list = [[10, 0, 0, 1], [10, 0, 0, 2]]\<rparr> else Inl HOST_NOT_FOUND)\<rparr>"

definition refusing :: sk_env where
  "refusing h c = (case c of
     SkSocket f t p \<Rightarrow> Inr (3 + int (length h))
   | SkConnect fd sa len \<Rightarrow> if sa = Some (Sin 7 [10, 0, 0, 1]) then Inl EIO else Inr 0
   | _ \<Rightarrow> Inr 0)"

theorem sock_open_resources_witness:
  "\<exists>ai m' h. tcp_connect True two_addrs refusing (Some ''a'') (Some ''x'') (fresh_mem (\<lambda>_. False)) = (Some (6, ai), m', h) \<and>
     one_socket 6 h \<and> m_live m' = 0"
proof -
  have "fst (tcp_connect True two_addrs refusing (Some ''a'') (Some ''x'') (fresh_mem (\<lambda>_. False))) =
      Some (6, ai_for (hints_for 0 SOCK_STREAM) (Sin 0 [])\<lparr>ai_addr := Some (Sin 7 [10, 0, 0, 2])\<rparr>)"
    by (simp add: tcp_connect_def sk_open_def hints_for_def two_addrs_def refusing_def gai_eval try_connect_def sk_def sk_wrap_def
        sock_set_port_def ai_for_def sa_family_def)
  moreover have "m_live (fresh_mem (\<lambda>_. False)) = 0"
    by (simp add: fresh_mem_def)
  ultimately show ?thesis
    using sock_open_resources [of True two_addrs refusing "Some ''a''" "Some ''x''" "fresh_mem (\<lambda>_. False)" 6]
    by (cases "tcp_connect True two_addrs refusing (Some ''a'') (Some ''x'') (fresh_mem (\<lambda>_. False))") auto
qed

end
