(* ===== verification/Checksum.thy ===== *)
theory Checksum
  imports Prelude
begin

unbundle bit_operations_syntax

text \<open>
  The Internet checksum, \<^verbatim>\<open>in_cksum\<close> of \<^verbatim>\<open>src/unixNetV1/libfree/in_cksum.c\<close>, on the bytes of a packet.
  The words are read in the byte order of the host, which is the argument \<open>be\<close> (true for
  big-endian). The sum is a 32-bit word. The theory shows that the result is the complement of the
  ones' complement sum for packets of up to 128 KiB, and that a packet that carries its checksum
  has checksum zero.
\<close>

subsection \<open>Model\<close>

text \<open>Reading and storing a 16-bit word in memory.\<close>

definition load16 :: "bool \<Rightarrow> byte \<Rightarrow> byte \<Rightarrow> u16" where
  "load16 be a b = (if be then push_bit 8 (ucast a) OR ucast b else push_bit 8 (ucast b) OR ucast a)"

definition store16 :: "bool \<Rightarrow> u16 \<Rightarrow> byte list" where
  "store16 be w = (if be then [ucast (drop_bit 8 w), ucast w] else [ucast w, ucast (drop_bit 8 w)])"

text \<open>The loop over the words; an odd byte is stored in the first byte of a zero word.\<close>

fun cksum_sum :: "bool \<Rightarrow> byte list \<Rightarrow> u32 \<Rightarrow> u32" where
  "cksum_sum be [] acc = acc"
| "cksum_sum be [a] acc = acc + ucast (load16 be a 0)"
| "cksum_sum be (a # b # w) acc = cksum_sum be w (acc + ucast (load16 be a b))"

definition in_cksum :: "bool \<Rightarrow> byte list \<Rightarrow> u16" where
  "in_cksum be addr =
     (let acc = cksum_sum be addr 0;
          acc = drop_bit 16 acc + (acc AND 0xffff);
          acc = acc + drop_bit 16 acc
      in ucast (NOT acc))"

subsection \<open>The ones' complement sum\<close>

text \<open>The specification: the sum of the words, and its representative between 1 and 65535 modulo 65535.\<close>

fun word_sum :: "bool \<Rightarrow> byte list \<Rightarrow> nat" where
  "word_sum be [] = 0"
| "word_sum be [a] = unat (load16 be a 0)"
| "word_sum be (a # b # w) = unat (load16 be a b) + word_sum be w"

definition ones_sum :: "nat \<Rightarrow> nat" where
  "ones_sum s = (if s = 0 then 0 else (s - 1) mod 65535 + 1)"

lemma u16_le: "unat (w :: u16) \<le> 65535"
  using unsigned_less [of w, where 'a = nat] by simp

lemma word_sum_le: "2 * word_sum be bs \<le> 65535 * (length bs + 1)"
proof (induction be bs rule: word_sum.induct)
  case (2 be a)
  then show ?case
    using u16_le [of "load16 be a 0"] by simp
next
  case (3 be a b w)
  then show ?case
    using u16_le [of "load16 be a b"] by simp
qed simp

lemma add_word16: "(of_nat s :: u32) + ucast (w :: u16) = of_nat (s + unat w)"
  by (simp only: of_nat_add of_nat_unat)

lemma cksum_sum_nat: "cksum_sum be bs (of_nat s) = of_nat (s + word_sum be bs)"
proof (induction be bs arbitrary: s rule: word_sum.induct)
  case (3 be a b w)
  then show ?case
    by (simp only: cksum_sum.simps word_sum.simps add_word16 add.assoc)
qed (simp_all only: cksum_sum.simps word_sum.simps add_word16 add_0_right)

lemma fold_nat:
  fixes s :: nat
  assumes "s < 2 ^ 32"
  defines "t \<equiv> s div 65536 + s mod 65536"
  shows "t < 2 ^ 32 \<and> t + t div 65536 < 2 ^ 32 \<and> (t + t div 65536) mod 65536 = ones_sum s"
proof -
  have t: "t \<le> 131070"
    using assms by (simp add: t_def less_mult_imp_div_less)
  have s: "s = 65535 * (s div 65536) + t"
    unfolding t_def using div_mult_mod_eq [of s 65536] by simp
  have "ones_sum s = (if t < 65536 then t else t - 65535)"
  proof (cases "s = 0")
    case True
    then show ?thesis
      by (simp add: ones_sum_def t_def)
  next
    case False
    then have pos: "0 < t"
      using s by (cases "t = 0") (auto simp: t_def)
    have "s - 1 = 65535 * (s div 65536) + (t - 1)"
      using s pos by simp
    then have "(s - 1) mod 65535 = (t - 1) mod 65535"
      by (metis mod_mult_self4)
    also have "\<dots> = (if t < 65536 then t - 1 else t - 65536)"
      using t pos le_mod_geq [of 65535 "t - 1"] by (cases "t < 65536") simp_all
    finally show ?thesis
      using False pos by (auto simp: ones_sum_def)
  qed
  moreover have "t div 65536 = (if t < 65536 then 0 else 1)"
    using t le_div_geq [of 65536 t] by simp
  moreover have "t + 1 - 65536 = t - 65535" "t - 65535 < 65536"
    using t by simp_all
  ultimately show ?thesis
    using t le_mod_geq [of 65536 "t + 1"] by (cases "t < 65536") simp_all
qed

lemma and_ffff: "(x :: u32) AND 0xffff = take_bit 16 x"
  by (simp add: take_bit_eq_mask mask_eq_exp_minus_1)

lemma unat_u32_add: "unat (x :: u32) + unat y < 2 ^ 32 \<Longrightarrow> unat (x + y) = unat x + unat y"
  using unat_add_lem [of x y] by simp

lemma unat_not16: "unat (NOT (w :: u16)) = 65535 - unat w"
proof -
  have "NOT w = mask 16 - w"
    by (simp add: not_eq_complement mask_eq_exp_minus_1)
  moreover have "w \<le> mask 16"
    using u16_le [of w] by (simp add: word_le_nat_alt mask_eq_exp_minus_1)
  ultimately show ?thesis
    by (simp add: unat_sub mask_eq_exp_minus_1)
qed

lemma unat_in_cksum:
  assumes "length bs \<le> 131070"
  shows "unat (in_cksum be bs) = 65535 - ones_sum (word_sum be bs)"
proof -
  let ?s = "word_sum be bs" and ?x = "cksum_sum be bs 0"
  define t where "t = ?s div 65536 + ?s mod 65536"
  have s: "?s < 2 ^ 32"
    using word_sum_le [of be bs] assms by simp
  have x: "unat ?x = ?s"
    using cksum_sum_nat [of be bs 0] s by (simp add: unsigned_of_nat take_bit_nat_eq_self)
  define y where "y = drop_bit 16 ?x + (?x AND 0xffff)"
  have bounds: "t < 2 ^ 32" "t + t div 65536 < 2 ^ 32" "(t + t div 65536) mod 65536 = ones_sum ?s"
    using fold_nat [OF s] by (auto simp: t_def)
  have high: "unat (drop_bit 16 w) = unat w div 65536" for w :: u32
    by (simp add: drop_bit_eq_div unat_div)
  have low: "unat (take_bit 16 w) = unat w mod 65536" for w :: u32
    by (simp add: take_bit_eq_mod unat_mod)
  have y: "unat y = t"
    unfolding y_def and_ffff using bounds(1) by (subst unat_u32_add) (simp_all add: high low x t_def)
  define z where "z = y + drop_bit 16 y"
  have z: "unat z = t + t div 65536"
    unfolding z_def using bounds(2)
    by (subst unat_u32_add) (simp_all add: high y)
  have "in_cksum be bs = ucast (NOT z)"
    by (simp add: in_cksum_def Let_def z_def y_def)
  also have "(ucast (NOT z) :: u16) = NOT (ucast z)"
    by (intro bit_word_eqI) (auto simp: bit_simps)
  finally have "unat (in_cksum be bs) = 65535 - unat (ucast z :: u16)"
    by (simp add: unat_not16)
  also have "unat (ucast z :: u16) = ones_sum ?s"
    using bounds(3) by (simp add: unsigned_ucast_eq z take_bit_eq_mod)
  finally show ?thesis .
qed

lemma ones_sum_mod: "ones_sum s mod 65535 = s mod 65535"
proof (cases "s = 0")
  case False
  then obtain n where "s = Suc n"
    by (cases s) auto
  then show ?thesis
    by (simp add: ones_sum_def mod_Suc_eq)
qed (simp add: ones_sum_def)

lemma ones_sum_bounds: "ones_sum s \<le> 65535" "0 < s \<Longrightarrow> 0 < ones_sum s"
  by (auto simp: ones_sum_def Suc_le_eq)

lemma ones_sum_full: "0 < s \<Longrightarrow> s mod 65535 = 0 \<Longrightarrow> ones_sum s = 65535"
  using ones_sum_mod [of s] ones_sum_bounds [of s] by (auto simp: mod_eq_0_iff_dvd dest: dvd_imp_le)

lemma load_store [simp]:
  "store16 be w = [a, b] \<Longrightarrow> load16 be a b = w"
  by (auto simp: store16_def load16_def split: if_splits intro!: bit_word_eqI simp: bit_simps)

lemma load_zero [simp]: "load16 be 0 0 = 0"
  by (simp add: load16_def)

lemma word_sum_even: "even (length p) \<Longrightarrow> word_sum be (p @ q) = word_sum be p + word_sum be q"
  by (induction be p rule: word_sum.induct) auto

text \<open>
  C32. A packet that carries its checksum verifies: when the checksum of a packet of at most 128 KiB is
  computed with a zero checksum field at an even offset and then stored there, the checksum of the
  whole packet is zero, on hosts of both byte orders.
\<close>

theorem in_cksum_verifies:
  assumes "even (length p)" "length p + length q \<le> 131068" "c = in_cksum be (p @ [0, 0] @ q)"
  shows "in_cksum be (p @ store16 be c @ q) = 0"
proof -
  let ?s = "word_sum be p + word_sum be q"
  obtain a b where ab: "store16 be c = [a, b]"
    by (cases be) (auto simp: store16_def)
  have c: "unat c = 65535 - ones_sum ?s"
    using unat_in_cksum [of "p @ [0, 0] @ q" be] assms by (simp add: word_sum_even)
  have sum: "word_sum be (p @ store16 be c @ q) = ?s + (65535 - ones_sum ?s)"
    using ab c assms(1) by (simp add: word_sum_even)
  have "?s + (65535 - ones_sum ?s) > 0"
    using ones_sum_bounds(1) [of ?s] by (cases "?s = 0") (auto simp: ones_sum_def)
  moreover have "(?s + (65535 - ones_sum ?s)) mod 65535 = 0"
  proof -
    have "ones_sum ?s \<le> ?s + 65535"
      using ones_sum_bounds(1) [of ?s] by linarith
    then have "(?s + (65535 - ones_sum ?s)) mod 65535 = (?s + 65535 - ones_sum ?s) mod 65535"
      using ones_sum_bounds(1) [of ?s] by simp
    also have "\<dots> = 0"
      using ones_sum_mod [of ?s] ones_sum_bounds(1) [of ?s]
      by (metis \<open>ones_sum ?s \<le> ?s + 65535\<close> mod_add_self2 mod_eq_dvd_iff_nat dvd_imp_mod_0)
    finally show ?thesis .
  qed
  ultimately have "ones_sum (word_sum be (p @ store16 be c @ q)) = 65535"
    unfolding sum by (rule ones_sum_full)
  then have "unat (in_cksum be (p @ store16 be c @ q)) = 0"
    using unat_in_cksum [of "p @ store16 be c @ q" be] assms(2) ab by simp
  then show ?thesis
    by (simp add: unat_eq_0)
qed

theorem in_cksum_verifies_witness:
  "in_cksum False ([0x45, 0x00] @ store16 False 0x6b69 @ [0x50, 0x94 , 1]) = 0"
proof -
  have "in_cksum False ([0x45, 0x00] @ [0, 0] @ [0x50, 0x94, 1]) = 0x6b69"
    by code_simp
  then show ?thesis
    using in_cksum_verifies [of "[0x45, 0x00]" "[0x50, 0x94, 1]" "0x6b69" False] by simp
qed

end
