(* ===== verification/StreamIo.thy ===== *)
theory StreamIo
  imports Prelude
begin

text \<open>
  Reading and writing whole buffers and lines: \<^verbatim>\<open>readn.c\<close>, \<^verbatim>\<open>writen.c\<close> and \<^verbatim>\<open>readline.c\<close> of
  \<^verbatim>\<open>src/unixNetV1/lib\<close> and \<^verbatim>\<open>src/unixipc/lib\<close>, with their wrappers. A descriptor holds the bytes
  that are still to be read, the bytes written, and a plan of what the next calls do: fail with an
  error, or transfer at most so many bytes. After the plan every call transfers all it can. So a
  plan describes the interruptions and short counts of one execution, and the theorems hold for all plans.
\<close>

subsection \<open>System calls\<close>

record dsc =
  d_in :: "byte list"
  d_out :: "byte list"
  d_plan :: "(errno + nat) list"

text \<open>\<^verbatim>\<open>read\<close> returns no bytes only at the end of the input or when none are asked for.\<close>

definition sys_read :: "nat \<Rightarrow> dsc \<Rightarrow> byte list res \<times> dsc" where
  "sys_read cap d = (case d_plan d of
     Inl e # p \<Rightarrow> (Inl e, d\<lparr>d_plan := p\<rparr>)
   | Inr k # p \<Rightarrow> (let n = min cap (max 1 k) in
       (Inr (take n (d_in d)), d\<lparr>d_in := drop n (d_in d), d_plan := p\<rparr>))
   | [] \<Rightarrow> (Inr (take cap (d_in d)), d\<lparr>d_in := drop cap (d_in d)\<rparr>))"

text \<open>\<^verbatim>\<open>write\<close> accepts a prefix, which may be empty, and returns its length.\<close>

definition sys_write :: "byte list \<Rightarrow> dsc \<Rightarrow> nat res \<times> dsc" where
  "sys_write bs d = (case d_plan d of
     Inl e # p \<Rightarrow> (Inl e, d\<lparr>d_plan := p\<rparr>)
   | Inr k # p \<Rightarrow> (Inr (min k (length bs)), d\<lparr>d_out := d_out d @ take k bs, d_plan := p\<rparr>)
   | [] \<Rightarrow> (Inr (length bs), d\<lparr>d_out := d_out d @ bs\<rparr>))"

subsection \<open>\<open>readn\<close> and \<open>writen\<close>\<close>

text \<open>The loop of \<^verbatim>\<open>readn\<close>; \<open>acc\<close> is the buffer up to \<^verbatim>\<open>ptr\<close>.\<close>

function readn_loop :: "nat \<Rightarrow> byte list \<Rightarrow> dsc \<Rightarrow> byte list res \<times> dsc" where
  "readn_loop nleft acc d =
     (if nleft = 0 then (Inr acc, d)
      else case sys_read nleft d of
        (Inl e, d') \<Rightarrow> if e = EINTR then readn_loop nleft acc d' else (Inl e, d')
      | (Inr bs, d') \<Rightarrow> if bs = [] then (Inr acc, d') else readn_loop (nleft - length bs) (acc @ bs) d')"
  by pat_completeness auto

lemma sys_read_plan: "sys_read cap d = (Inl e, d') \<Longrightarrow> length (d_plan d') < length (d_plan d)"
  by (auto simp: sys_read_def Let_def split: list.splits sum.splits)

lemma sys_read_plan_le: "sys_read cap d = (r, d') \<Longrightarrow> length (d_plan d') \<le> length (d_plan d)"
  by (auto simp: sys_read_def Let_def split: list.splits sum.splits)

termination readn_loop
  by (relation "measure (\<lambda>(nleft, acc, d). nleft + length (d_plan d))")
     (auto dest: sys_read_plan [OF sym] sys_read_plan_le [OF sym] intro: add_less_le_mono)

declare readn_loop.simps [simp del]

definition readn :: "nat \<Rightarrow> dsc \<Rightarrow> byte list res \<times> dsc" where
  "readn n d = readn_loop n [] d"

text \<open>
  The loop of \<^verbatim>\<open>writen\<close>; a count of zero is an error, the left injection without a new
  \<^verbatim>\<open>errno\<close> being \<open>None\<close>.
\<close>

function writen_loop :: "byte list \<Rightarrow> dsc \<Rightarrow> (errno option + unit) \<times> dsc" where
  "writen_loop bs d =
     (if bs = [] then (Inr (), d)
      else case sys_write bs d of
        (Inl e, d') \<Rightarrow> if e = EINTR then writen_loop bs d' else (Inl (Some e), d')
      | (Inr k, d') \<Rightarrow> if k = 0 then (Inl None, d') else writen_loop (drop k bs) d')"
  by pat_completeness auto

lemma sys_write_plan: "sys_write bs d = (Inl e, d') \<Longrightarrow> length (d_plan d') < length (d_plan d)"
  by (auto simp: sys_write_def split: list.splits sum.splits)

lemma sys_write_plan_le: "sys_write bs d = (r, d') \<Longrightarrow> length (d_plan d') \<le> length (d_plan d)"
  by (auto simp: sys_write_def split: list.splits sum.splits)

termination writen_loop
  by (relation "measure (\<lambda>(bs, d). length bs + length (d_plan d))")
     (auto dest: sys_write_plan [OF sym] sys_write_plan_le [OF sym] intro: add_less_le_mono)

declare writen_loop.simps [simp del]

definition writen :: "byte list \<Rightarrow> dsc \<Rightarrow> (errno option + nat) \<times> dsc" where
  "writen bs d = (case writen_loop bs d of (Inl e, d') \<Rightarrow> (Inl e, d') | (Inr u, d') \<Rightarrow> (Inr (length bs), d'))"

text \<open>The wrappers: \<open>None\<close> is the end of the process in \<^verbatim>\<open>err_sys\<close>.\<close>

definition Readn :: "nat \<Rightarrow> dsc \<Rightarrow> (byte list \<times> dsc) option" where
  "Readn n d = (case readn n d of (Inl e, d') \<Rightarrow> None | (Inr bs, d') \<Rightarrow> Some (bs, d'))"

definition Writen :: "byte list \<Rightarrow> dsc \<Rightarrow> dsc option" where
  "Writen bs d = (case writen bs d of (Inl e, d') \<Rightarrow> None | (Inr n, d') \<Rightarrow> if n \<noteq> length bs then None else Some d')"

subsection \<open>\<open>readline\<close>\<close>

text \<open>\<open>rl_buf\<close> holds the \<^verbatim>\<open>read_cnt\<close> bytes from \<^verbatim>\<open>read_ptr\<close> on.\<close>

record rline =
  rl_buf :: "byte list"
  rl_dsc :: dsc

definition MAXLINE :: nat where
  "MAXLINE = 4096"

definition newline :: byte where
  "newline = 10"

text \<open>\<^verbatim>\<open>my_read\<close>: a byte, the end of the input, or an error.\<close>

function my_read :: "rline \<Rightarrow> byte option res \<times> rline" where
  "my_read r = (case rl_buf r of
     c # cs \<Rightarrow> (Inr (Some c), r\<lparr>rl_buf := cs\<rparr>)
   | [] \<Rightarrow> (case sys_read MAXLINE (rl_dsc r) of
       (Inl e, d) \<Rightarrow> if e = EINTR then my_read (r\<lparr>rl_dsc := d\<rparr>) else (Inl e, r\<lparr>rl_dsc := d\<rparr>)
     | (Inr [], d) \<Rightarrow> (Inr None, r\<lparr>rl_dsc := d\<rparr>)
     | (Inr (c # cs), d) \<Rightarrow> (Inr (Some c), r\<lparr>rl_buf := cs, rl_dsc := d\<rparr>)))"
  by pat_completeness auto

termination my_read
  by (relation "measure (\<lambda>r. length (d_plan (rl_dsc r)))") (auto dest: sys_read_plan [OF sym])

declare my_read.simps [simp del]

text \<open>
  The loop of \<^verbatim>\<open>readline\<close> with \<open>m = maxlen - n\<close> rounds left; \<open>acc\<close> is the buffer up to \<^verbatim>\<open>ptr\<close>. The result is
  the value returned and the bytes stored before the terminating zero.
\<close>

fun readline_loop :: "nat \<Rightarrow> nat \<Rightarrow> byte list \<Rightarrow> rline \<Rightarrow> (nat \<times> byte list) res \<times> rline" where
  "readline_loop 0 n acc r = (Inr (n, acc), r)"
| "readline_loop (Suc m) n acc r = (case my_read r of
     (Inr (Some c), r') \<Rightarrow> if c = newline then (Inr (n, acc @ [c]), r') else readline_loop m (n + 1) (acc @ [c]) r'
   | (Inr None, r') \<Rightarrow> (Inr (n - 1, acc), r')
   | (Inl e, r') \<Rightarrow> (Inl e, r'))"

definition readline :: "nat \<Rightarrow> rline \<Rightarrow> (nat \<times> byte list) res \<times> rline" where
  "readline maxlen r = readline_loop (maxlen - 1) 1 [] r"

definition Readline :: "nat \<Rightarrow> rline \<Rightarrow> (nat \<times> byte list \<times> rline) option" where
  "Readline maxlen r = (case readline maxlen r of (Inl e, r') \<Rightarrow> None | (Inr (n, bs), r') \<Rightarrow> Some (n, bs, r'))"

definition readlinebuf :: "rline \<Rightarrow> byte list" where
  "readlinebuf r = rl_buf r"

text \<open>The version of \<^verbatim>\<open>src/unixipc/lib\<close> leaves the loop at the end of the input when bytes were read.\<close>

fun ipc_readline_loop :: "nat \<Rightarrow> nat \<Rightarrow> byte list \<Rightarrow> rline \<Rightarrow> (nat \<times> byte list) res \<times> rline" where
  "ipc_readline_loop 0 n acc r = (Inr (n, acc), r)"
| "ipc_readline_loop (Suc m) n acc r = (case my_read r of
     (Inr (Some c), r') \<Rightarrow> if c = newline then (Inr (n, acc @ [c]), r') else ipc_readline_loop m (n + 1) (acc @ [c]) r'
   | (Inr None, r') \<Rightarrow> if n = 1 then (Inr (0, acc), r') else (Inr (n, acc), r')
   | (Inl e, r') \<Rightarrow> (Inl e, r'))"

definition ipc_readline :: "nat \<Rightarrow> rline \<Rightarrow> (nat \<times> byte list) res \<times> rline" where
  "ipc_readline maxlen r = ipc_readline_loop (maxlen - 1) 1 [] r"

subsection \<open>Whole transfers\<close>

text \<open>A plan without failures, apart from interrupted calls; for writing, without zero counts.\<close>

definition only_eintr :: "(errno + nat) list \<Rightarrow> bool" where
  "only_eintr p \<longleftrightarrow> (\<forall>e. Inl e \<in> set p \<longrightarrow> e = EINTR)"

definition accepting :: "(errno + nat) list \<Rightarrow> bool" where
  "accepting p \<longleftrightarrow> only_eintr p \<and> Inr 0 \<notin> set p"

lemma only_eintr_Cons [simp]:
  "only_eintr (Inl e # p) \<longleftrightarrow> e = EINTR \<and> only_eintr p" "only_eintr (Inr k # p) = only_eintr p" "only_eintr []"
  by (auto simp: only_eintr_def)

lemma accepting_Cons [simp]:
  "accepting (Inl e # p) \<longleftrightarrow> e = EINTR \<and> accepting p" "accepting (Inr k # p) \<longleftrightarrow> 0 < k \<and> accepting p" "accepting []"
  by (auto simp: accepting_def)

lemma sys_read_cases:
  assumes "only_eintr (d_plan d)" "0 < cap"
  obtains (intr) d' where "sys_read cap d = (Inl EINTR, d')" "d_in d' = d_in d" "d_out d' = d_out d" "only_eintr (d_plan d')"
  | (bytes) n d' where "sys_read cap d = (Inr (take n (d_in d)), d')" "0 < n" "n \<le> cap" "d_in d' = drop n (d_in d)"
      "d_out d' = d_out d" "only_eintr (d_plan d')"
proof (cases "d_plan d")
  case Nil
  then show ?thesis
    using assms by (intro bytes [of cap "d\<lparr>d_in := drop cap (d_in d)\<rparr>"]) (simp_all add: sys_read_def)
next
  case (Cons x p)
  then show ?thesis
    using assms intr bytes by (cases x) (auto simp: sys_read_def Let_def)
qed

lemma readn_loop_whole:
  assumes "only_eintr (d_plan d)"
  shows "\<exists>d'. readn_loop n acc d = (Inr (acc @ take n (d_in d)), d') \<and> d_in d' = drop n (d_in d) \<and>
    d_out d' = d_out d \<and> only_eintr (d_plan d')"
  using assms
proof (induction n acc d rule: readn_loop.induct)
  case (1 nleft acc d)
  show ?case
  proof (cases "nleft = 0")
    case True
    then show ?thesis
      using 1(3) by (simp add: readn_loop.simps)
  next
    case False
    then have "0 < nleft"
      by simp
    from 1(3) this show ?thesis
    proof (cases rule: sys_read_cases)
      case (intr d')
      then show ?thesis
        using 1(1) [OF False intr(1) [symmetric] refl refl] False by (simp add: readn_loop.simps [of nleft])
    next
      case (bytes k d')
      show ?thesis
      proof (cases "d_in d = []")
        case True
        then show ?thesis
          using bytes False by (simp add: readn_loop.simps [of nleft])
      next
        case ne: False
        then have "take k (d_in d) \<noteq> []"
          using bytes(2) by simp
        note IH = 1(2) [OF False bytes(1) [symmetric] refl this bytes(6)]
        let ?k = "length (take k (d_in d))"
        have "take k (d_in d) @ take (nleft - ?k) (drop k (d_in d)) = take nleft (d_in d)"
          "drop (nleft - ?k) (drop k (d_in d)) = drop nleft (d_in d)"
          using bytes(3) by (auto simp: min_def take_add [symmetric] simp flip: take_add)
        then show ?thesis
          using IH bytes False ne by (simp add: readn_loop.simps [of nleft])
      qed
    qed
  qed
qed

lemma sys_write_cases:
  assumes "accepting (d_plan d)" "bs \<noteq> []"
  obtains (intr) d' where "sys_write bs d = (Inl EINTR, d')" "d_in d' = d_in d" "d_out d' = d_out d" "accepting (d_plan d')"
  | (bytes) k d' where "sys_write bs d = (Inr k, d')" "0 < k" "k \<le> length bs" "d_in d' = d_in d"
      "d_out d' = d_out d @ take k bs" "accepting (d_plan d')"
proof (cases "d_plan d")
  case Nil
  then show ?thesis
    using assms by (intro bytes [of "length bs" "d\<lparr>d_out := d_out d @ bs\<rparr>"]) (simp_all add: sys_write_def)
next
  case (Cons x p)
  show ?thesis
  proof (cases x)
    case (Inl e)
    then show ?thesis
      using assms Cons by (intro intr [of "d\<lparr>d_plan := p\<rparr>"]) (simp_all add: sys_write_def)
  next
    case (Inr k)
    have "take (min k (length bs)) bs = take k bs"
      by (simp add: min_def)
    then show ?thesis
      using assms Cons Inr
      by (intro bytes [of "min k (length bs)" "d\<lparr>d_out := d_out d @ take k bs, d_plan := p\<rparr>"])
         (simp_all add: sys_write_def)
  qed
qed

lemma writen_loop_whole:
  assumes "accepting (d_plan d)"
  shows "\<exists>d'. writen_loop bs d = (Inr (), d') \<and> d_out d' = d_out d @ bs \<and> d_in d' = d_in d"
  using assms
proof (induction bs d rule: writen_loop.induct)
  case (1 bs d)
  show ?case
  proof (cases "bs = []")
    case True
    then show ?thesis
      by (simp add: writen_loop.simps)
  next
    case False
    from 1(3) this show ?thesis
    proof (cases rule: sys_write_cases)
      case (intr d')
      then show ?thesis
        using 1(1) [OF False intr(1) [symmetric] refl refl] False by (simp add: writen_loop.simps [of bs])
    next
      case (bytes k d')
      then have "k \<noteq> 0"
        by simp
      from 1(2) [OF False bytes(1) [symmetric] refl this bytes(6)] show ?thesis
        using bytes False by (simp add: writen_loop.simps [of bs])
    qed
  qed
qed

text \<open>
  C24. Whole transfers: whatever short counts and interruptions the calls meet, \<open>writen\<close> writes exactly its
  buffer, and \<open>readn\<close> at a descriptor whose input is what was written returns exactly those bytes,
  leaving what follows them unread.
\<close>

theorem writen_readn_whole:
  assumes "accepting (d_plan d)" "only_eintr (d_plan e)" "d_out d = []"
    and "writen bs d = (r, d')" "d_in e = d_out d' @ rest" "readn (length bs) e = (r', e')"
  shows "r = Inr (length bs) \<and> d_out d' = bs \<and> r' = Inr bs \<and> d_in e' = rest"
proof -
  have w: "r = Inr (length bs)" "d_out d' = bs"
    using writen_loop_whole [OF assms(1), of bs] assms(3,4) by (auto simp: writen_def)
  then show ?thesis
    using readn_loop_whole [OF assms(2), of "length bs" "[]"] assms(5,6) by (auto simp: readn_def)
qed

theorem writen_readn_whole_witness:
  "snd (writen [1, 2, 3] \<lparr>d_in = [], d_out = [], d_plan = [Inl EINTR, Inr 2]\<rparr>)
     = \<lparr>d_in = [], d_out = [1, 2, 3], d_plan = []\<rparr> \<and>
   fst (readn 3 \<lparr>d_in = [1, 2, 3, 9], d_out = [], d_plan = [Inr 1, Inl EINTR]\<rparr>) = Inr [1, 2, 3]"
proof -
  let ?d = "\<lparr>d_in = [], d_out = [], d_plan = [Inl EINTR, Inr 2]\<rparr>"
  let ?e = "\<lparr>d_in = [1, 2, 3, 9], d_out = [], d_plan = [Inr 1, Inl EINTR]\<rparr>"
  have w: "writen [1, 2, 3] ?d = (Inr 3, \<lparr>d_in = [], d_out = [1, 2, 3], d_plan = []\<rparr>)"
    by (simp add: writen_def writen_loop.simps sys_write_def numeral_eq_Suc)
  obtain r e' where r: "readn (length [1, 2, 3 :: byte]) ?e = (r, e')"
    by (cases "readn (length [1, 2, 3 :: byte]) ?e")
  have "r = Inr [1, 2, 3]"
    using writen_readn_whole [of ?d ?e "[1, 2, 3]" _ _ "[9]", OF _ _ _ w _ r] by simp
  moreover have "length [1, 2, 3 :: byte] = 3"
    by simp
  ultimately show ?thesis
    using w r [unfolded \<open>length [1, 2, 3 :: byte] = 3\<close>] by simp
qed

subsection \<open>Lines\<close>

text \<open>The bytes that are still to come, and the specification: the line, cut after \<open>m\<close> bytes.\<close>

definition rl_stream :: "rline \<Rightarrow> byte list" where
  "rl_stream r = rl_buf r @ d_in (rl_dsc r)"

fun line_of :: "nat \<Rightarrow> byte list \<Rightarrow> byte list" where
  "line_of 0 bs = []"
| "line_of (Suc m) [] = []"
| "line_of (Suc m) (c # cs) = (if c = newline then [c] else c # line_of m cs)"

lemma my_read_stream:
  assumes "only_eintr (d_plan (rl_dsc r))"
  shows "\<exists>r'. only_eintr (d_plan (rl_dsc r')) \<and>
    (case rl_stream r of
       [] \<Rightarrow> my_read r = (Inr None, r') \<and> rl_stream r' = []
     | c # cs \<Rightarrow> my_read r = (Inr (Some c), r') \<and> rl_stream r' = cs)"
  using assms
proof (induction r rule: my_read.induct)
  case (1 r)
  show ?case
  proof (cases "rl_buf r")
    case (Cons c cs)
    then show ?thesis
      using 1(2) by (simp add: my_read.simps [of r] rl_stream_def)
  next
    case Nil
    have "0 < MAXLINE"
      by (simp add: MAXLINE_def)
    from 1(2) this show ?thesis
    proof (cases rule: sys_read_cases)
      case (intr d')
      have eq: "my_read r = my_read (r\<lparr>rl_dsc := d'\<rparr>)"
        using intr Nil by (subst my_read.simps) simp
      have st: "rl_stream (r\<lparr>rl_dsc := d'\<rparr>) = rl_stream r"
        using intr by (simp add: rl_stream_def)
      show ?thesis
        using 1(1) [OF Nil intr(1) [symmetric] refl refl] intr(4) unfolding st eq by simp
    next
      case (bytes n d')
      show ?thesis
      proof (cases "d_in (rl_dsc r)")
        case empty: Nil
        then show ?thesis
          using bytes Nil by (simp add: my_read.simps [of r] rl_stream_def)
      next
        case (Cons c cs)
        then obtain k where k: "n = Suc k" "take n (d_in (rl_dsc r)) = c # take k cs"
          using bytes(2) by (cases n) auto
        then show ?thesis
          using bytes Nil Cons by (simp add: my_read.simps [of r] rl_stream_def)
      qed
    qed
  qed
qed

lemma readline_loop_line:
  fixes m :: nat
  assumes "only_eintr (d_plan (rl_dsc r))" "n = length acc + 1"
  defines "l \<equiv> line_of m (rl_stream r)"
  shows "\<exists>r'. readline_loop m n acc r =
      (Inr (length acc + length l + (if length l = m \<and> newline \<notin> set l then 1 else 0), acc @ l), r') \<and>
    rl_stream r' = drop (length l) (rl_stream r) \<and> only_eintr (d_plan (rl_dsc r'))"
  using assms(1,2) unfolding l_def
proof (induction m n acc r rule: readline_loop.induct)
  case (2 m n acc r)
  obtain r' where r': "only_eintr (d_plan (rl_dsc r'))" "case rl_stream r of
      [] \<Rightarrow> my_read r = (Inr None, r') \<and> rl_stream r' = []
    | c # cs \<Rightarrow> my_read r = (Inr (Some c), r') \<and> rl_stream r' = cs"
    using my_read_stream [OF 2(2)] by blast
  show ?case
  proof (cases "rl_stream r")
    case Nil
    then show ?thesis
      using r' 2(3) by simp
  next
    case (Cons c cs)
    then have step: "my_read r = (Inr (Some c), r')" "rl_stream r' = cs"
      using r'(2) by simp_all
    show ?thesis
    proof (cases "c = newline")
      case True
      then show ?thesis
        using step r'(1) Cons 2(3) by simp
    next
      case False
      then show ?thesis
        using 2(1) [OF step(1) [symmetric] refl refl False r'(1)] step Cons 2(3) by auto
    qed
  qed
qed simp

text \<open>
  C34. \<open>readline\<close> stores the next line whatever the sizes of the reads below it and however often they are
  interrupted: the bytes up to and with the newline, or up to the end of the input, at most
  \<open>maxlen - 1\<close> of them, and leaves the rest for the next call. The value returned is the number of bytes
  stored, except when the buffer is full before a newline: then it is one more.
\<close>

theorem readline_line:
  assumes "only_eintr (d_plan (rl_dsc r))" "1 \<le> maxlen" "readline maxlen r = (res, r')"
  defines "l \<equiv> line_of (maxlen - 1) (rl_stream r)"
  shows "res = Inr (length l + (if length l = maxlen - 1 \<and> newline \<notin> set l then 1 else 0), l) \<and>
    rl_stream r' = drop (length l) (rl_stream r)"
  using readline_loop_line [OF assms(1), of 1 "[]" "maxlen - 1"] assms(3) unfolding l_def readline_def by auto

theorem readline_line_witness:
  "fst (readline 4 \<lparr>rl_buf = [97], rl_dsc = \<lparr>d_in = [98, 99, 100, 10], d_out = [], d_plan = [Inl EINTR, Inr 1]\<rparr>\<rparr>)
     = Inr (4, [97, 98, 99])"
proof -
  let ?r = "\<lparr>rl_buf = [97], rl_dsc = \<lparr>d_in = [98, 99, 100, 10], d_out = [], d_plan = [Inl EINTR, Inr 1]\<rparr>\<rparr>"
  obtain res r' where "readline 4 ?r = (res, r')"
    by (cases "readline 4 ?r")
  moreover have "line_of 3 [97, 98, 99, 100, 10] = [97, 98, 99]"
    by (simp add: newline_def numeral_3_eq_3)
  ultimately show ?thesis
    using readline_line [of ?r 4 res r'] by (simp add: rl_stream_def newline_def)
qed

end
