(* ===== verification/StrCli.thy ===== *)
theory StrCli
  imports StreamIo
begin

text \<open>
  The echo client with nonblocking I/O, \<^verbatim>\<open>str_cli\<close> of \<^verbatim>\<open>src/unixNetV1/nonblock/strclinonb.c\<close>: it copies standard input to a socket and
  the socket to standard output through two buffers with an input and an output pointer each. One pass of the endless
  loop is the function \<open>nb_pass\<close>; what \<^verbatim>\<open>select\<close> reports and what the four reads and writes give in a pass is an event.
  The state also records all bytes that crossed each descriptor. The theory shows that no byte is lost, repeated
  or reordered on the way and that the connection is shut down once, after the last byte of input.
\<close>

subsection \<open>Model\<close>

record nb_state =
  to_buf :: "byte list"
  toiptr :: nat
  tooptr :: nat
  fr_buf :: "byte list"
  friptr :: nat
  froptr :: nat
  stdineof :: bool
  from_stdin :: "byte list"
  from_sock :: "byte list"
  to_sock :: "byte list"
  to_stdout :: "byte list"
  shutdowns :: nat

text \<open>The descriptors that \<^verbatim>\<open>select\<close> reports, and the outcomes of \<^verbatim>\<open>read\<close> and \<^verbatim>\<open>write\<close>.\<close>

record nb_event =
  ready_stdin :: bool
  ready_sock_read :: bool
  ready_sock_write :: bool
  ready_stdout :: bool
  read_stdin :: "byte list res"
  read_sock :: "byte list res"
  write_stdout :: "nat res"
  write_sock :: "nat res"

datatype nb_exit = Nb_return nb_state | Nb_premature | Nb_error

definition nb_init :: "byte list \<Rightarrow> byte list \<Rightarrow> nb_state" where
  "nb_init to_mem fr_mem = \<lparr>to_buf = to_mem, toiptr = 0, tooptr = 0, fr_buf = fr_mem, friptr = 0, froptr = 0, stdineof = False,
     from_stdin = [], from_sock = [], to_sock = [], to_stdout = [], shutdowns = 0\<rparr>"

definition store_at :: "nat \<Rightarrow> byte list \<Rightarrow> byte list \<Rightarrow> byte list" where
  "store_at i bs buf = take i buf @ bs @ drop (i + length bs) buf"

text \<open>The bytes between two pointers.\<close>

definition between :: "nat \<Rightarrow> nat \<Rightarrow> byte list \<Rightarrow> byte list" where
  "between i j buf = take (j - i) (drop i buf)"

text \<open>
  Reading standard input. The flag of the result is whether \<^verbatim>\<open>FD_SET(sockfd, &wset)\<close> was executed, and \<^verbatim>\<open>EWOULDBLOCK\<close> is
  \<^verbatim>\<open>EAGAIN\<close>. A read of no bytes is the end of the input.
\<close>

definition nb_read_stdin :: "nb_event \<Rightarrow> nb_state \<Rightarrow> nb_exit + (nb_state \<times> bool)" where
  "nb_read_stdin ev s = (case read_stdin ev of
     Inl e \<Rightarrow> if e = EAGAIN then Inr (s, False) else Inl Nb_error
   | Inr bs \<Rightarrow>
       let bs = take (MAXLINE - toiptr s) bs in
       if bs = [] then
         let s = s\<lparr>stdineof := True\<rparr> in
         Inr (if tooptr s = toiptr s then s\<lparr>shutdowns := shutdowns s + 1\<rparr> else s, False)
       else Inr (s\<lparr>to_buf := store_at (toiptr s) bs (to_buf s), toiptr := toiptr s + length bs, from_stdin := from_stdin s @ bs\<rparr>, True))"

definition nb_read_sock :: "nb_event \<Rightarrow> nb_state \<Rightarrow> nb_exit + (nb_state \<times> bool)" where
  "nb_read_sock ev s = (case read_sock ev of
     Inl e \<Rightarrow> if e = EAGAIN then Inr (s, False) else Inl Nb_error
   | Inr bs \<Rightarrow>
       let bs = take (MAXLINE - friptr s) bs in
       if bs = [] then Inl (if stdineof s then Nb_return s else Nb_premature)
       else Inr (s\<lparr>fr_buf := store_at (friptr s) bs (fr_buf s), friptr := friptr s + length bs, from_sock := from_sock s @ bs\<rparr>, True))"

definition nb_write_stdout :: "nb_event \<Rightarrow> nb_state \<Rightarrow> nb_exit + nb_state" where
  "nb_write_stdout ev s = (case write_stdout ev of
     Inl e \<Rightarrow> if e = EAGAIN then Inr s else Inl Nb_error
   | Inr k \<Rightarrow>
       let nwritten = min k (friptr s - froptr s);
           s = s\<lparr>to_stdout := to_stdout s @ between (froptr s) (froptr s + nwritten) (fr_buf s), froptr := froptr s + nwritten\<rparr>
       in Inr (if froptr s = friptr s then s\<lparr>froptr := 0, friptr := 0\<rparr> else s))"

definition nb_write_sock :: "nb_event \<Rightarrow> nb_state \<Rightarrow> nb_exit + nb_state" where
  "nb_write_sock ev s = (case write_sock ev of
     Inl e \<Rightarrow> if e = EAGAIN then Inr s else Inl Nb_error
   | Inr k \<Rightarrow>
       let nwritten = min k (toiptr s - tooptr s);
           s = s\<lparr>to_sock := to_sock s @ between (tooptr s) (tooptr s + nwritten) (to_buf s), tooptr := tooptr s + nwritten\<rparr>
       in Inr (if tooptr s = toiptr s then
            let s = s\<lparr>toiptr := 0, tooptr := 0\<rparr> in if stdineof s then s\<lparr>shutdowns := shutdowns s + 1\<rparr> else s
          else s))"

text \<open>The descriptors given to \<^verbatim>\<open>select\<close>: standard input, the socket for reading, the socket for writing, standard output.\<close>

definition nb_sets :: "nb_state \<Rightarrow> bool \<times> bool \<times> bool \<times> bool" where
  "nb_sets s = (\<not> stdineof s \<and> toiptr s < MAXLINE, friptr s < MAXLINE, tooptr s \<noteq> toiptr s, froptr s \<noteq> friptr s)"

definition nb_pass :: "nb_event \<Rightarrow> nb_state \<Rightarrow> nb_exit + nb_state" where
  "nb_pass ev s0 =
     (let (want_in, want_sr, want_sw, want_out) = nb_sets s0;
          in_set = (want_in \<and> ready_stdin ev); sr_set = (want_sr \<and> ready_sock_read ev);
          sw_set = (want_sw \<and> ready_sock_write ev); out_set = (want_out \<and> ready_stdout ev)
      in case (if in_set then nb_read_stdin ev s0 else Inr (s0, False)) of
        Inl x \<Rightarrow> Inl x
      | Inr (s1, sw) \<Rightarrow> (case (if sr_set then nb_read_sock ev s1 else Inr (s1, False)) of
          Inl x \<Rightarrow> Inl x
        | Inr (s2, out) \<Rightarrow> (case (if (out_set \<or> out) \<and> friptr s2 - froptr s2 > 0 then nb_write_stdout ev s2 else Inr s2) of
            Inl x \<Rightarrow> Inl x
          | Inr s3 \<Rightarrow> if (sw_set \<or> sw) \<and> toiptr s3 - tooptr s3 > 0 then nb_write_sock ev s3 else Inr s3)))"

fun nb_run :: "nb_event list \<Rightarrow> nb_state \<Rightarrow> nb_exit + nb_state" where
  "nb_run [] s = Inr s"
| "nb_run (ev # evs) s = (case nb_pass ev s of Inl x \<Rightarrow> Inl x | Inr s \<Rightarrow> nb_run evs s)"

subsection \<open>The invariant\<close>

text \<open>
  The pointers stay inside the buffers; what was read is what was written and what is still in the buffer; the
  socket is shut down exactly when the input has ended and all of it is written; a buffer with nothing to write has its pointers at its beginning.
\<close>

definition nb_data :: "nb_state \<Rightarrow> bool" where
  "nb_data s \<longleftrightarrow> length (to_buf s) = MAXLINE \<and> length (fr_buf s) = MAXLINE \<and>
     tooptr s \<le> toiptr s \<and> toiptr s \<le> MAXLINE \<and> froptr s \<le> friptr s \<and> friptr s \<le> MAXLINE \<and>
     from_stdin s = to_sock s @ between (tooptr s) (toiptr s) (to_buf s) \<and>
     from_sock s = to_stdout s @ between (froptr s) (friptr s) (fr_buf s)"

definition nb_inv :: "nb_state \<Rightarrow> bool" where
  "nb_inv s \<longleftrightarrow> nb_data s \<and> shutdowns s = of_bool (stdineof s \<and> tooptr s = toiptr s) \<and>
     (tooptr s = toiptr s \<longrightarrow> toiptr s = 0) \<and> (froptr s = friptr s \<longrightarrow> friptr s = 0)"

lemma between_empty [simp]: "between i i buf = []"
  by (simp add: between_def)

lemma between_split: "i \<le> j \<Longrightarrow> j \<le> k \<Longrightarrow> between i k buf = between i j buf @ between j k buf"
  using take_add [of "j - i" "k - j" "drop i buf"] by (simp add: between_def)

lemma store_at_length: "i + length bs \<le> length buf \<Longrightarrow> length (store_at i bs buf) = length buf"
  by (simp add: store_at_def)

lemma between_store:
  "i \<le> j \<Longrightarrow> j + length bs \<le> length buf \<Longrightarrow> between i (j + length bs) (store_at j bs buf) = between i j buf @ bs"
  by (simp add: between_def store_at_def take_drop)

lemma nb_init_inv: "length to_mem = MAXLINE \<Longrightarrow> length fr_mem = MAXLINE \<Longrightarrow> nb_inv (nb_init to_mem fr_mem)"
  by (simp add: nb_inv_def nb_data_def nb_init_def)

text \<open>Reading appends to a buffer, writing takes from it, and an empty buffer starts again at its beginning.\<close>

lemma nb_data_stdin:
  assumes "nb_data s" "toiptr s + length bs \<le> MAXLINE"
  shows "nb_data (s\<lparr>to_buf := store_at (toiptr s) bs (to_buf s), toiptr := toiptr s + length bs, from_stdin := from_stdin s @ bs\<rparr>)"
  using assms between_store [of "tooptr s" "toiptr s" bs "to_buf s"] store_at_length [of "toiptr s" bs "to_buf s"]
  by (simp add: nb_data_def)

lemma nb_data_sock:
  assumes "nb_data s" "friptr s + length bs \<le> MAXLINE"
  shows "nb_data (s\<lparr>fr_buf := store_at (friptr s) bs (fr_buf s), friptr := friptr s + length bs, from_sock := from_sock s @ bs\<rparr>)"
  using assms between_store [of "froptr s" "friptr s" bs "fr_buf s"] store_at_length [of "friptr s" bs "fr_buf s"]
  by (simp add: nb_data_def)

lemma nb_data_stdout:
  assumes "nb_data s" "froptr s \<le> m" "m \<le> friptr s"
  shows "nb_data (s\<lparr>to_stdout := to_stdout s @ between (froptr s) m (fr_buf s), froptr := m\<rparr>)"
  using assms between_split [OF assms(2,3), of "fr_buf s"] by (simp add: nb_data_def)

lemma nb_data_to_sock:
  assumes "nb_data s" "tooptr s \<le> m" "m \<le> toiptr s"
  shows "nb_data (s\<lparr>to_sock := to_sock s @ between (tooptr s) m (to_buf s), tooptr := m\<rparr>)"
  using assms between_split [OF assms(2,3), of "to_buf s"] by (simp add: nb_data_def)

lemma nb_data_rest [simp]:
  "nb_data (s\<lparr>stdineof := b\<rparr>) = nb_data s" "nb_data (s\<lparr>shutdowns := n\<rparr>) = nb_data s"
  by (simp_all add: nb_data_def)

lemma nb_data_empty:
  "nb_data s \<Longrightarrow> froptr s = friptr s \<Longrightarrow> nb_data (s\<lparr>froptr := 0, friptr := 0\<rparr>)"
  "nb_data s \<Longrightarrow> tooptr s = toiptr s \<Longrightarrow> nb_data (s\<lparr>toiptr := 0, tooptr := 0\<rparr>)"
  by (simp_all add: nb_data_def)

text \<open>The outcomes of a step that keep the invariant.\<close>

definition nb_ok :: "nb_exit + nb_state \<Rightarrow> bool" where
  "nb_ok r \<longleftrightarrow> (case r of
     Inr s' \<Rightarrow> nb_inv s'
   | Inl x \<Rightarrow> (case x of Nb_return s' \<Rightarrow> nb_inv s' \<and> stdineof s' | _ \<Rightarrow> True))"

lemma nb_read_stdin_ok:
  assumes "nb_inv s" "\<not> stdineof s"
  shows "nb_ok (map_sum id fst (nb_read_stdin ev s))"
proof (cases "read_stdin ev")
  case (Inr bs)
  let ?bs = "take (MAXLINE - toiptr s) bs"
  have b: "toiptr s + length ?bs \<le> MAXLINE" and p: "tooptr s \<le> toiptr s"
    using assms(1) by (auto simp: nb_inv_def nb_data_def)
  have "?bs \<noteq> [] \<Longrightarrow> tooptr s \<noteq> toiptr s + length ?bs"
    using p by (auto simp: min_def)
  note d = nb_data_stdin [OF _ b] this
  show ?thesis
    using assms d Inr by (cases "tooptr s = toiptr s"; cases "?bs = []") (simp_all add: nb_ok_def nb_read_stdin_def nb_inv_def Let_def)
qed (use assms in \<open>simp add: nb_ok_def nb_read_stdin_def\<close>)

lemma nb_read_sock_ok:
  assumes "nb_inv s"
  shows "nb_ok (map_sum id fst (nb_read_sock ev s))"
proof (cases "read_sock ev")
  case (Inr bs)
  let ?bs = "take (MAXLINE - friptr s) bs"
  have b: "friptr s + length ?bs \<le> MAXLINE" and p: "froptr s \<le> friptr s"
    using assms(1) by (auto simp: nb_inv_def nb_data_def)
  have "?bs \<noteq> [] \<Longrightarrow> froptr s \<noteq> friptr s + length ?bs"
    using p by (auto simp: min_def)
  note d = nb_data_sock [OF _ b] this
  show ?thesis
    using assms d Inr by (cases "?bs = []") (simp_all add: nb_ok_def nb_read_sock_def nb_inv_def Let_def)
qed (use assms in \<open>simp add: nb_ok_def nb_read_sock_def\<close>)

lemma nb_write_stdout_ok:
  assumes "nb_inv s"
  shows "nb_ok (nb_write_stdout ev s)"
proof (cases "write_stdout ev")
  case (Inr k)
  define m where "m = froptr s + min k (friptr s - froptr s)"
  have "nb_data s" "froptr s \<le> m" "m \<le> friptr s"
    using assms by (auto simp: nb_inv_def nb_data_def m_def)
  from nb_data_stdout [OF this] nb_data_empty(1) [OF nb_data_stdout [OF this]] show ?thesis
    using assms Inr by (cases "m = friptr s") (simp_all add: nb_ok_def nb_write_stdout_def nb_inv_def Let_def m_def [symmetric])
qed (use assms in \<open>simp add: nb_ok_def nb_write_stdout_def\<close>)

lemma nb_write_sock_ok:
  assumes "nb_inv s" "tooptr s \<noteq> toiptr s"
  shows "nb_ok (nb_write_sock ev s)"
proof (cases "write_sock ev")
  case (Inr k)
  define m where "m = tooptr s + min k (toiptr s - tooptr s)"
  have "nb_data s" "tooptr s \<le> m" "m \<le> toiptr s"
    using assms by (auto simp: nb_inv_def nb_data_def m_def)
  from nb_data_to_sock [OF this] nb_data_empty(2) [OF nb_data_to_sock [OF this]] show ?thesis
    using assms Inr by (cases "m = toiptr s"; cases "stdineof s") (simp_all add: nb_ok_def nb_write_sock_def nb_inv_def Let_def m_def [symmetric])
qed (use assms in \<open>simp add: nb_ok_def nb_write_sock_def\<close>)

lemma nb_pass_ok:
  assumes "nb_inv s"
  shows "nb_ok (nb_pass ev s)"
proof -
  let ?r1 = "if \<not> stdineof s \<and> toiptr s < MAXLINE \<and> ready_stdin ev then nb_read_stdin ev s else Inr (s, False)"
  have 1: "nb_ok (map_sum id fst ?r1)"
    using assms nb_read_stdin_ok by (simp add: nb_ok_def)
  show ?thesis
  proof (cases ?r1)
    case (Inl x)
    then show ?thesis
      using 1 by (simp add: nb_pass_def nb_sets_def nb_ok_def Let_def conj_assoc)
  next
    case (Inr a)
    obtain s1 w1 where a: "a = (s1, w1)"
      by (cases a)
    let ?r2 = "if friptr s < MAXLINE \<and> ready_sock_read ev then nb_read_sock ev s1 else Inr (s1, False)"
    have i1: "nb_inv s1"
      using 1 Inr a by (simp add: nb_ok_def)
    then have 2: "nb_ok (map_sum id fst ?r2)"
      using nb_read_sock_ok by (simp add: nb_ok_def)
    show ?thesis
    proof (cases ?r2)
      case r2: (Inl x)
      then show ?thesis
        using 2 Inr a by (simp add: nb_pass_def nb_sets_def nb_ok_def Let_def conj_assoc)
    next
      case r2: (Inr b)
      obtain s2 w2 where b: "b = (s2, w2)"
        by (cases b)
      have "nb_inv s2"
        using 2 r2 b by (simp add: nb_ok_def)
      let ?r3 = "if (froptr s \<noteq> friptr s \<and> ready_stdout ev \<or> w2) \<and> friptr s2 - froptr s2 > 0 then nb_write_stdout ev s2 else Inr s2"
      have 3: "nb_ok ?r3"
        using \<open>nb_inv s2\<close> nb_write_stdout_ok by (simp add: nb_ok_def)
      have p: "nb_pass ev s = (case ?r3 of Inl x \<Rightarrow> Inl x
        | Inr s3 \<Rightarrow> if (tooptr s \<noteq> toiptr s \<and> ready_sock_write ev \<or> w1) \<and> toiptr s3 - tooptr s3 > 0 then nb_write_sock ev s3 else Inr s3)"
        using Inr a r2 b by (simp add: nb_pass_def nb_sets_def Let_def conj_assoc)
      show ?thesis
        unfolding p using 3 nb_write_sock_ok by (cases ?r3) (auto simp: nb_ok_def)
    qed
  qed
qed

lemma nb_run_ok: "nb_inv s \<Longrightarrow> nb_ok (nb_run evs s)"
proof (induction evs arbitrary: s)
  case (Cons ev evs)
  show ?case
  proof (cases "nb_pass ev s")
    case (Inl x)
    then show ?thesis
      using nb_pass_ok [OF Cons.prems, of ev] by (simp add: nb_ok_def)
  next
    case (Inr s1)
    then have "nb_inv s1"
      using nb_pass_ok [OF Cons.prems, of ev] by (simp add: nb_ok_def)
    then show ?thesis
      using Cons.IH Inr by simp
  qed
qed (simp add: nb_ok_def)

text \<open>What the invariant says of the bytes that crossed the descriptors.\<close>

definition conserved :: "nb_state \<Rightarrow> bool" where
  "conserved s \<longleftrightarrow> (\<exists>pend pend'. from_stdin s = to_sock s @ pend \<and> length pend \<le> MAXLINE \<and>
     from_sock s = to_stdout s @ pend' \<and> length pend' \<le> MAXLINE \<and> shutdowns s = of_bool (stdineof s \<and> pend = []))"

lemma length_between: "i \<le> j \<Longrightarrow> j \<le> length buf \<Longrightarrow> length (between i j buf) = j - i"
  by (simp add: between_def)

lemma nb_inv_conserved:
  assumes "nb_inv s"
  shows "conserved s"
proof -
  have "length (between (tooptr s) (toiptr s) (to_buf s)) = toiptr s - tooptr s" "length (between (froptr s) (friptr s) (fr_buf s)) = friptr s - froptr s"
    using assms by (simp_all add: nb_inv_def nb_data_def length_between)
  then show ?thesis
    using assms unfolding conserved_def nb_inv_def nb_data_def
    by (intro exI [of _ "between (tooptr s) (toiptr s) (to_buf s)"] exI [of _ "between (froptr s) (friptr s) (fr_buf s)"])
      (auto simp flip: length_0_conv)
qed

lemma nb_inv_waits: "nb_inv s \<Longrightarrow> nb_sets s \<noteq> (False, False, False, False)"
  by (auto simp: nb_inv_def nb_data_def nb_sets_def MAXLINE_def)


text \<open>An event in which nothing is ready, and one run: the end of the input, two bytes from the socket that standard output does not take, the end of the connection.\<close>

definition idle :: nb_event where
  "idle = \<lparr>ready_stdin = False, ready_sock_read = False, ready_sock_write = False, ready_stdout = False,
     read_stdin = Inl EAGAIN, read_sock = Inl EAGAIN, write_stdout = Inl EAGAIN, write_sock = Inl EAGAIN\<rparr>"

definition slow_output :: "nb_event list" where
  "slow_output = [idle\<lparr>ready_stdin := True, read_stdin := Inr []\<rparr>, idle\<lparr>ready_sock_read := True, read_sock := Inr [1, 2]\<rparr>,
     idle\<lparr>ready_sock_read := True, read_sock := Inr []\<rparr>]"

lemmas nb_eval = slow_output_def idle_def nb_init_def nb_pass_def nb_sets_def nb_read_stdin_def nb_read_sock_def nb_write_stdout_def
  nb_write_sock_def MAXLINE_def Let_def

text \<open>The client returns although bytes from the server are still in the buffer: they are never printed.\<close>

lemma str_cli_loses_output:
  "\<exists>s. nb_run slow_output (nb_init to_mem fr_mem) = Inl (Nb_return s) \<and> from_sock s = [1, 2] \<and> to_stdout s = []"
  by (simp add: nb_eval)


end
