(* ===== verification/Rtt.thy ===== *)
theory Rtt
  imports Complex_Main Prelude
begin

text \<open>
  Reliable request and reply over UDP: the retransmission timer of \<^verbatim>\<open>src/unixNetV1/lib/rtt.c\<close> and
  \<^verbatim>\<open>dg_send_recv\<close> of \<^verbatim>\<open>src/unixNetV1/rtt/dg_send_recv.c\<close>. Floating-point values are real numbers with the rounding
  to \<^verbatim>\<open>float\<close> and \<^verbatim>\<open>double\<close> written out as two functions of the argument \<open>F\<close>; the theorems use only that rounding is
  monotone and exact on small multiples of a quarter. The clock and the outcome of
  \<^verbatim>\<open>Sendmsg\<close> are arguments, and the datagrams and alarm signals that arrive are a list of events. The theory shows that
  a request is sent at most four times, that every alarm is between 2 and 480 seconds, that
  four alarms end the call, and that a reply answers this request.
\<close>

subsection \<open>The timer\<close>

record fpu =
  fl :: "real \<Rightarrow> real"
  dl :: "real \<Rightarrow> real"

record rtt_info =
  rtt_rtt :: real
  rtt_srtt :: real
  rtt_rttvar :: real
  rtt_rto :: real
  rtt_nrexmt :: int
  rtt_base :: u32

definition RTT_RXTMIN :: real where "RTT_RXTMIN = 2"

definition RTT_RXTMAX :: real where "RTT_RXTMAX = 60"

definition RTT_MAXNREXMT :: int where "RTT_MAXNREXMT = 3"

definition RTT_RTOCALC :: "fpu \<Rightarrow> rtt_info \<Rightarrow> real" where
  "RTT_RTOCALC F ptr = dl F (rtt_srtt ptr + dl F (4 * rtt_rttvar ptr))"

definition rtt_minmax :: "real \<Rightarrow> real" where
  "rtt_minmax rto = (if rto < RTT_RXTMIN then RTT_RXTMIN else if rto > RTT_RXTMAX then RTT_RXTMAX else rto)"

text \<open>A time of day is a pair of seconds and microseconds.\<close>

definition rtt_init :: "fpu \<Rightarrow> int \<times> int \<Rightarrow> rtt_info \<Rightarrow> rtt_info" where
  "rtt_init F tv ptr =
     (let ptr = ptr\<lparr>rtt_base := word_of_int (fst tv), rtt_rtt := 0, rtt_srtt := 0, rtt_rttvar := fl F 0.75\<rparr>
      in ptr\<lparr>rtt_rto := rtt_minmax (fl F (RTT_RTOCALC F ptr))\<rparr>)"

definition rtt_ts :: "int \<times> int \<Rightarrow> rtt_info \<Rightarrow> u32" where
  "rtt_ts tv ptr = word_of_int ((fst tv - uint (rtt_base ptr)) * 1000 + snd tv div 1000)"

definition rtt_newpack :: "rtt_info \<Rightarrow> rtt_info" where
  "rtt_newpack ptr = ptr\<lparr>rtt_nrexmt := 0\<rparr>"

text \<open>The conversion of a \<^verbatim>\<open>double\<close> to an \<^verbatim>\<open>int\<close> drops the fraction.\<close>

definition to_int :: "real \<Rightarrow> int" where
  "to_int x = (if x < 0 then \<lceil>x\<rceil> else \<lfloor>x\<rfloor>)"

definition rtt_start :: "fpu \<Rightarrow> rtt_info \<Rightarrow> int" where
  "rtt_start F ptr = to_int (dl F (rtt_rto ptr + 0.5))"

definition rtt_stop :: "fpu \<Rightarrow> u32 \<Rightarrow> rtt_info \<Rightarrow> rtt_info" where
  "rtt_stop F ms ptr =
     (let ptr = ptr\<lparr>rtt_rtt := fl F (dl F (real_of_int (uint ms) / 1000))\<rparr>;
          delta = fl F (rtt_rtt ptr - rtt_srtt ptr);
          ptr = ptr\<lparr>rtt_srtt := fl F (dl F (rtt_srtt ptr + dl F (delta / 8)))\<rparr>;
          delta = (if delta < 0 then - delta else delta);
          ptr = ptr\<lparr>rtt_rttvar := fl F (dl F (rtt_rttvar ptr + dl F (dl F (delta - rtt_rttvar ptr) / 4)))\<rparr>
      in ptr\<lparr>rtt_rto := rtt_minmax (fl F (RTT_RTOCALC F ptr))\<rparr>)"

text \<open>The flag is true for the return value -1.\<close>

definition rtt_timeout :: "fpu \<Rightarrow> rtt_info \<Rightarrow> bool \<times> rtt_info" where
  "rtt_timeout F ptr =
     (let ptr = ptr\<lparr>rtt_rto := fl F (rtt_rto ptr * 2)\<rparr>; ptr = ptr\<lparr>rtt_nrexmt := rtt_nrexmt ptr + 1\<rparr>
      in (rtt_nrexmt ptr > RTT_MAXNREXMT, ptr))"

subsection \<open>Request and reply\<close>

text \<open>
  The static variables of \<^verbatim>\<open>dg_send_recv.c\<close>, the number of times the clock was read, the headers sent
  and the alarms set, newest first.
\<close>

record dg =
  rttinit :: bool
  rttinfo :: rtt_info
  sendhdr_seq :: u32
  ticks :: nat
  sent :: "(u32 \<times> u32) list"
  alarms :: "int list"

record dg_env =
  clock :: "nat \<Rightarrow> int \<times> int"
  send_fails :: "nat \<Rightarrow> bool"

text \<open>
  What arrives while the function waits in \<^verbatim>\<open>Recvmsg\<close>: the alarm signal, a datagram too short for the header, or
  a datagram with a header. A datagram is \<open>late\<close> when the alarm signal comes before \<^verbatim>\<open>alarm(0)\<close> is
  reached.
\<close>

datatype event =
    Alarm
  | Runt nat
  | Dgram (ev_seq: u32) (ev_ts: u32) (ev_data: "byte list") (late: bool)
  | Recv_error

datatype dg_out = Dg_reply "byte list" | Dg_timedout | Dg_waiting | Dg_exit

text \<open>From the label \<^verbatim>\<open>sendagain\<close> to the call of \<^verbatim>\<open>alarm\<close>; \<open>None\<close> when \<^verbatim>\<open>Sendmsg\<close> ends the process.\<close>

definition dg_send :: "fpu \<Rightarrow> dg_env \<Rightarrow> dg \<Rightarrow> dg option" where
  "dg_send F e s =
     (let ts = rtt_ts (clock e (ticks s)) (rttinfo s); s = s\<lparr>ticks := ticks s + 1\<rparr> in
      if send_fails e (length (sent s)) then None
      else Some (s\<lparr>sent := (sendhdr_seq s, ts) # sent s, alarms := rtt_start F (rttinfo s) # alarms s\<rparr>))"

text \<open>The branch taken after \<^verbatim>\<open>siglongjmp\<close>: \<open>Inl\<close> for the return of -1.\<close>

definition dg_alarm :: "fpu \<Rightarrow> dg \<Rightarrow> dg + dg" where
  "dg_alarm F s = (case rtt_timeout F (rttinfo s) of
     (True, i) \<Rightarrow> Inl (s\<lparr>rttinfo := i, rttinit := False\<rparr>)
   | (False, i) \<Rightarrow> Inr (s\<lparr>rttinfo := i\<rparr>))"

definition dg_done :: "fpu \<Rightarrow> dg_env \<Rightarrow> u32 \<Rightarrow> dg \<Rightarrow> dg" where
  "dg_done F e ts s =
     s\<lparr>rttinfo := rtt_stop F (rtt_ts (clock e (ticks s)) (rttinfo s) - ts) (rttinfo s), ticks := ticks s + 1\<rparr>"

fun dg_wait :: "fpu \<Rightarrow> dg_env \<Rightarrow> nat \<Rightarrow> event list \<Rightarrow> dg \<Rightarrow> dg_out \<times> dg" where
  "dg_wait F e inbytes [] s = (Dg_waiting, s)"
| "dg_wait F e inbytes (ev # evs) s =
     (if ev = Alarm \<or> (case ev of Dgram _ _ _ l \<Rightarrow> l | _ \<Rightarrow> False) then
        (case dg_alarm F s of
           Inl s \<Rightarrow> (Dg_timedout, s)
         | Inr s \<Rightarrow> (case dg_send F e s of
             None \<Rightarrow> (Dg_exit, s)
           | Some s \<Rightarrow> dg_wait F e inbytes evs s))
      else case ev of
        Dgram seq ts dat _ \<Rightarrow>
          if seq = sendhdr_seq s then (Dg_reply (take inbytes dat), dg_done F e ts s)
          else dg_wait F e inbytes evs s
      | Recv_error \<Rightarrow> (Dg_exit, s)
      | _ \<Rightarrow> dg_wait F e inbytes evs s)"

definition dg_begin :: "fpu \<Rightarrow> dg_env \<Rightarrow> dg \<Rightarrow> dg" where
  "dg_begin F e s =
     (let s = (if rttinit s then s
            else s\<lparr>rttinfo := rtt_init F (clock e (ticks s)) (rttinfo s), ticks := ticks s + 1, rttinit := True\<rparr>);
          s = s\<lparr>sendhdr_seq := sendhdr_seq s + 1\<rparr>
      in s\<lparr>rttinfo := rtt_newpack (rttinfo s)\<rparr>)"

definition dg_send_recv :: "fpu \<Rightarrow> dg_env \<Rightarrow> nat \<Rightarrow> event list \<Rightarrow> dg \<Rightarrow> dg_out \<times> dg" where
  "dg_send_recv F e inbytes evs s = (case dg_send F e (dg_begin F e s) of
     None \<Rightarrow> (Dg_exit, dg_begin F e s)
   | Some s \<Rightarrow> dg_wait F e inbytes evs s)"

definition Dg_send_recv :: "fpu \<Rightarrow> dg_env \<Rightarrow> nat \<Rightarrow> event list \<Rightarrow> dg \<Rightarrow> dg_out \<times> dg" where
  "Dg_send_recv F e inbytes evs s = (case dg_send_recv F e inbytes evs s of
     (Dg_timedout, s) \<Rightarrow> (Dg_exit, s)
   | r \<Rightarrow> r)"

subsection \<open>Rounding\<close>

definition rounding :: "(real \<Rightarrow> real) \<Rightarrow> bool" where
  "rounding r \<longleftrightarrow> mono r \<and> (\<forall>k :: int. \<bar>k\<bar> \<le> 4096 \<longrightarrow> r (real_of_int k / 4) = real_of_int k / 4)"

definition fpu_ok :: "fpu \<Rightarrow> bool" where
  "fpu_ok F \<longleftrightarrow> rounding (fl F) \<and> rounding (dl F)"

lemma rounding_exact: "rounding r \<Longrightarrow> \<bar>k\<bar> \<le> 4096 \<Longrightarrow> r (real_of_int k / 4) = real_of_int k / 4"
  by (simp add: rounding_def)

lemma rounding_between:
  assumes "rounding r" "real_of_int a / 4 \<le> x" "x \<le> real_of_int b / 4" "\<bar>a\<bar> \<le> 4096" "\<bar>b\<bar> \<le> 4096"
  shows "real_of_int a / 4 \<le> r x" "r x \<le> real_of_int b / 4"
proof -
  have "mono r"
    using assms(1) by (simp add: rounding_def)
  from monoD [OF this assms(2)] monoD [OF this assms(3)]
  show "real_of_int a / 4 \<le> r x" "r x \<le> real_of_int b / 4"
    using rounding_exact [OF assms(1,4)] rounding_exact [OF assms(1,5)] by simp_all
qed

lemma rtt_minmax_range: "RTT_RXTMIN \<le> rtt_minmax x" "rtt_minmax x \<le> RTT_RXTMAX"
  by (auto simp: rtt_minmax_def RTT_RXTMIN_def RTT_RXTMAX_def)

text \<open>The first timeout is three seconds, as the comment in \<^verbatim>\<open>rtt_init\<close> says.\<close>

lemma rtt_init_rto:
  assumes "fpu_ok F"
  shows "rtt_rto (rtt_init F tv ptr) = 3"
proof -
  have "4 * fl F (3 / 4) = 3" "dl F 3 = 3" "fl F 3 = 3"
    using assms rounding_exact [of "fl F" 3] rounding_exact [of "dl F" 12] rounding_exact [of "fl F" 12]
    by (simp_all add: fpu_ok_def)
  then show ?thesis
    by (simp add: rtt_init_def RTT_RTOCALC_def rtt_minmax_def RTT_RXTMIN_def RTT_RXTMAX_def Let_def)
qed

text \<open>After \<open>j\<close> retransmissions the timeout is at most \<open>60 * 2 ^ j\<close> seconds.\<close>

definition rto_ok :: "nat \<Rightarrow> rtt_info \<Rightarrow> bool" where
  "rto_ok j i \<longleftrightarrow> rtt_nrexmt i = int j \<and> 2 \<le> rtt_rto i \<and> rtt_rto i \<le> 60 * 2 ^ j"

lemma pow_le_3: "j \<le> 3 \<Longrightarrow> (2 :: real) ^ j \<le> 8"
  using power_increasing [of j 3 "2 :: real"] by simp

lemma rtt_timeout_ok:
  assumes "fpu_ok F" "rto_ok j i" "rtt_timeout F i = (g, i')" "j \<le> 3"
  shows "g \<longleftrightarrow> j = 3" "rto_ok (j + 1) i'"
proof -
  have f: "rounding (fl F)"
    using assms(1) by (simp add: fpu_ok_def)
  have x: "real_of_int 8 / 4 \<le> rtt_rto i * 2" "rtt_rto i * 2 \<le> real_of_int (4 * (60 * 2 ^ (j + 1))) / 4"
    using assms(2) by (simp_all add: rto_ok_def)
  have b: "\<bar>4 * (60 * 2 ^ (j + 1)) :: int\<bar> \<le> 4096"
  proof -
    have "(2 :: int) ^ (j + 1) \<le> 2 ^ 4"
      using assms(4) by (intro power_increasing) auto
    then show ?thesis
      by simp
  qed
  show "g \<longleftrightarrow> j = 3" "rto_ok (j + 1) i'"
    using assms(2-4) rounding_between [OF f x _ b]
    by (auto simp: rtt_timeout_def Let_def RTT_MAXNREXMT_def rto_ok_def)
qed

text \<open>Doubling is not limited: after one timeout of 60 seconds the next is 120 seconds, beyond \<open>RTT_RXTMAX\<close>.\<close>

lemma rtt_timeout_beyond_max:
  assumes "fpu_ok F" "rtt_rto i = RTT_RXTMAX"
  shows "rtt_rto (snd (rtt_timeout F i)) = 120"
  using assms rounding_exact [of "fl F" 480] by (simp add: rtt_timeout_def RTT_RXTMAX_def fpu_ok_def Let_def)

lemma rtt_start_range:
  assumes "fpu_ok F" "rto_ok j i" "j \<le> 3"
  shows "2 \<le> rtt_start F i \<and> rtt_start F i \<le> 480"
proof -
  have d: "rounding (dl F)"
    using assms(1) by (simp add: fpu_ok_def)
  have "rtt_rto i \<le> 480"
    using assms(2) pow_le_3 [OF assms(3)] by (simp add: rto_ok_def)
  then have "real_of_int 10 / 4 \<le> rtt_rto i + 0.5" "rtt_rto i + 0.5 \<le> real_of_int 1922 / 4"
    using assms(2) by (simp_all add: rto_ok_def)
  note r = rounding_between [OF d this]
  then have "2 \<le> dl F (rtt_rto i + 0.5)" "dl F (rtt_rto i + 0.5) < 481"
    by simp_all
  then show ?thesis
    by (simp add: rtt_start_def to_int_def floor_le_iff le_floor_iff)
qed

subsection \<open>A call of \<open>dg_send_recv\<close>\<close>

text \<open>Between two states the request \<open>q\<close> was sent \<open>n\<close> times, each time with an alarm between 2 and 480 seconds.\<close>

definition sends :: "u32 \<Rightarrow> nat \<Rightarrow> dg \<Rightarrow> dg \<Rightarrow> bool" where
  "sends q n s s' \<longleftrightarrow> (\<exists>new al. sent s' = new @ sent s \<and> alarms s' = al @ alarms s \<and> length new = n \<and> length al = n \<and>
     (\<forall>x \<in> set new. fst x = q) \<and> (\<forall>a \<in> set al. 2 \<le> a \<and> a \<le> 480))"

lemma sends_0: "sent s' = sent s \<Longrightarrow> alarms s' = alarms s \<Longrightarrow> sends q 0 s s'"
  by (simp add: sends_def)

lemma sends_trans: "sends q n s1 s2 \<Longrightarrow> sends q k s2 s3 \<Longrightarrow> sends q (n + k) s1 s3"
  unfolding sends_def by (elim exE) (rule exI, rule exI, fastforce)

definition is_alarm :: "event \<Rightarrow> bool" where
  "is_alarm ev \<longleftrightarrow> ev = Alarm \<or> (case ev of Dgram _ _ _ l \<Rightarrow> l | _ \<Rightarrow> False)"

text \<open>The state between two calls.\<close>

definition dg_ok :: "dg \<Rightarrow> bool" where
  "dg_ok s \<longleftrightarrow> (rttinit s \<longrightarrow> 2 \<le> rtt_rto (rttinfo s) \<and> rtt_rto (rttinfo s) \<le> 60)"

lemma dg_send_sends:
  assumes "fpu_ok F" "rto_ok j (rttinfo s)" "j \<le> 3" "dg_send F e s = Some s'"
  shows "sends (sendhdr_seq s) 1 s s'" "rttinfo s' = rttinfo s" "rttinit s' = rttinit s" "sendhdr_seq s' = sendhdr_seq s"
  using assms(4) rtt_start_range [OF assms(1-3)]
  by (auto simp: dg_send_def sends_def Let_def split: if_splits)

lemma dg_alarm_ok:
  assumes "fpu_ok F" "rto_ok j (rttinfo s)" "j \<le> 3"
  shows "case dg_alarm F s of
      Inl s' \<Rightarrow> j = 3 \<and> \<not> rttinit s' \<and> sendhdr_seq s' = sendhdr_seq s \<and> sends (sendhdr_seq s) 0 s s'
    | Inr s' \<Rightarrow> j < 3 \<and> rto_ok (j + 1) (rttinfo s') \<and> rttinit s' = rttinit s \<and> sendhdr_seq s' = sendhdr_seq s \<and> sends (sendhdr_seq s) 0 s s'"
proof (cases "rtt_timeout F (rttinfo s)")
  case (Pair g i)
  then show ?thesis
    using rtt_timeout_ok [OF assms(1,2) Pair assms(3)] assms(3) by (auto simp: dg_alarm_def sends_0 split: bool.splits)
qed

lemma dg_done_ok: "rttinit s \<Longrightarrow> dg_ok (dg_done F e ts s)" "sends q 0 s (dg_done F e ts s)"
  "rttinit (dg_done F e ts s) = rttinit s" "sendhdr_seq (dg_done F e ts s) = sendhdr_seq s"
  using rtt_minmax_range by (auto simp: dg_done_def dg_ok_def rtt_stop_def Let_def RTT_RXTMIN_def RTT_RXTMAX_def sends_0)

text \<open>What a wait that starts after \<open>j\<close> retransmissions ends with.\<close>

definition outcome_ok :: "u32 \<Rightarrow> nat \<Rightarrow> nat \<Rightarrow> event list \<Rightarrow> nat \<Rightarrow> dg_out \<Rightarrow> dg \<Rightarrow> bool" where
  "outcome_ok q k j evs n out s' \<longleftrightarrow> n \<le> 3 - j \<and> (case out of
     Dg_reply d \<Rightarrow> dg_ok s' \<and> rttinit s' \<and> (\<exists>ts dat. Dgram q ts dat False \<in> set evs \<and> d = take k dat)
   | Dg_timedout \<Rightarrow> n = 3 - j \<and> \<not> rttinit s' \<and> 4 - j \<le> length (filter is_alarm evs)
   | Dg_waiting \<Rightarrow> length (filter is_alarm evs) \<le> 3 - j
   | Dg_exit \<Rightarrow> True)"

lemma dg_wait_alarm:
  "is_alarm ev \<Longrightarrow> dg_wait F e k (ev # evs) s = (case dg_alarm F s of
     Inl s \<Rightarrow> (Dg_timedout, s)
   | Inr s \<Rightarrow> (case dg_send F e s of None \<Rightarrow> (Dg_exit, s) | Some s \<Rightarrow> dg_wait F e k evs s))"
  by (simp add: is_alarm_def)

lemma dg_wait_other:
  assumes "\<not> is_alarm ev"
  obtains "dg_wait F e k (ev # evs) s = dg_wait F e k evs s"
  | "dg_wait F e k (ev # evs) s = (Dg_exit, s)"
  | ts dat where "ev = Dgram (sendhdr_seq s) ts dat False" "dg_wait F e k (ev # evs) s = (Dg_reply (take k dat), dg_done F e ts s)"
  using assms by (cases ev; cases "ev_seq ev = sendhdr_seq s") (auto simp: is_alarm_def)

lemma outcome_other:
  "outcome_ok q k j evs n out s' \<Longrightarrow> \<not> is_alarm ev \<Longrightarrow> outcome_ok q k j (ev # evs) n out s'"
  by (auto simp: outcome_ok_def split: dg_out.splits)

lemma outcome_alarm:
  "outcome_ok q k (j + 1) evs n out s' \<Longrightarrow> is_alarm ev \<Longrightarrow> j < 3 \<Longrightarrow> outcome_ok q k j (ev # evs) (1 + n) out s'"
  by (auto simp: outcome_ok_def split: dg_out.splits)

lemma dg_wait_ok:
  assumes "fpu_ok F" "rto_ok j (rttinfo s)" "j \<le> 3" "rttinit s" "dg_wait F e k evs s = (out, s')"
  shows "\<exists>n. sends (sendhdr_seq s) n s s' \<and> sendhdr_seq s' = sendhdr_seq s \<and> outcome_ok (sendhdr_seq s) k j evs n out s'"
  using assms
proof (induction evs arbitrary: s j)
  case Nil
  then show ?case
    by (auto simp: outcome_ok_def intro!: exI [of _ 0] sends_0)
next
  case (Cons ev evs)
  note a = dg_alarm_ok [OF Cons.prems(1-3)]
  show ?case
  proof (cases "is_alarm ev")
    case True
    show ?thesis
    proof (cases "dg_alarm F s")
      case (Inl s1)
      then show ?thesis
        using a True Cons.prems(5) by (intro exI [of _ 0]) (auto simp: dg_wait_alarm outcome_ok_def simp del: dg_wait.simps)
    next
      case (Inr s1)
      then have s1: "j < 3" "rto_ok (j + 1) (rttinfo s1)" "rttinit s1" "sendhdr_seq s1 = sendhdr_seq s" "sends (sendhdr_seq s) 0 s s1"
        using a Cons.prems(4) by auto
      show ?thesis
      proof (cases "dg_send F e s1")
        case None
        then show ?thesis
          using s1 Inr True Cons.prems(5) by (intro exI [of _ 0]) (auto simp: dg_wait_alarm outcome_ok_def simp del: dg_wait.simps)
      next
        case (Some s2)
        note t = dg_send_sends [OF Cons.prems(1) s1(2) _ Some]
        have w: "dg_wait F e k evs s2 = (out, s')"
          using Cons.prems(5) True Inr Some by (simp add: dg_wait_alarm del: dg_wait.simps)
        obtain n where "sends (sendhdr_seq s) n s2 s'" "sendhdr_seq s' = sendhdr_seq s" "outcome_ok (sendhdr_seq s) k (j + 1) evs n out s'"
          using Cons.IH [OF Cons.prems(1) _ _ _ w, of "j + 1"] s1 t by auto
        moreover have "sends (sendhdr_seq s) 1 s s2"
          using sends_trans [OF s1(5), of 1 s2] t(1) s1 by simp
        ultimately show ?thesis
          using sends_trans [of "sendhdr_seq s" 1 s s2 n s'] outcome_alarm [OF _ True s1(1)] by blast
      qed
    qed
  next
    case False
    then show ?thesis
    proof (cases rule: dg_wait_other [where F = F and e = e and k = k and evs = evs and s = s])
      case 1
      then have w: "dg_wait F e k evs s = (out, s')"
        using Cons.prems(5) by simp
      show ?thesis
        using Cons.IH [OF Cons.prems(1-4) w] outcome_other [OF _ False] by blast
    next
      case 2
      then have "out = Dg_exit" "s' = s"
        using Cons.prems(5) by simp_all
      then show ?thesis
        by (intro exI [of _ 0]) (simp add: outcome_ok_def sends_0)
    next
      case (3 ts dat)
      then have "out = Dg_reply (take k dat)" "s' = dg_done F e ts s"
        using Cons.prems(5) by (simp_all del: dg_wait.simps)
      then show ?thesis
        using Cons.prems(4) dg_done_ok [where F = F and e = e and ts = ts and s = s] 3(1) by (intro exI [of _ 0]) (auto simp: outcome_ok_def)
    qed
  qed
qed

lemma dg_begin_ok:
  assumes "fpu_ok F" "dg_ok s"
  shows "rto_ok 0 (rttinfo (dg_begin F e s))" "rttinit (dg_begin F e s)" "sendhdr_seq (dg_begin F e s) = sendhdr_seq s + 1"
    "sends q 0 s (dg_begin F e s)"
  using assms rtt_init_rto [OF assms(1)]
  by (auto simp: dg_begin_def dg_ok_def rto_ok_def rtt_newpack_def Let_def sends_0)

text \<open>
  C21. Whatever the network and the clock do, a call of \<open>dg_send_recv\<close> sends its request at most four times, always with
  the next sequence number, and sets each time an alarm between 2 and 480 seconds. It returns a reply only from a
  datagram that carries this sequence number, gives up exactly after the fourth alarm and four requests, and
  cannot still be waiting after the fourth alarm; in both cases the timer is fit for the next call.
\<close>

theorem dg_send_recv_bounded:
  assumes "fpu_ok F" "dg_ok s" "dg_send_recv F e k evs s = (out, s')"
  shows "\<exists>n \<le> 4. sends (sendhdr_seq s + 1) n s s' \<and> sendhdr_seq s' = sendhdr_seq s + 1 \<and>
    (case out of
       Dg_reply d \<Rightarrow> dg_ok s' \<and> (\<exists>ts dat. Dgram (sendhdr_seq s + 1) ts dat False \<in> set evs \<and> d = take k dat)
     | Dg_timedout \<Rightarrow> dg_ok s' \<and> n = 4 \<and> 4 \<le> length (filter is_alarm evs)
     | Dg_waiting \<Rightarrow> length (filter is_alarm evs) < 4
     | Dg_exit \<Rightarrow> True)"
proof (cases "dg_send F e (dg_begin F e s)")
  case None
  then show ?thesis
    using assms(3) dg_begin_ok [where e = e, OF assms(1,2)] by (auto simp: dg_send_recv_def intro!: exI [of _ 0])
next
  case (Some s1)
  note b = dg_begin_ok [where e = e, OF assms(1,2)] and t = dg_send_sends [OF assms(1) dg_begin_ok(1) [OF assms(1,2)] _ Some]
  have w: "dg_wait F e k evs s1 = (out, s')"
    using assms(3) Some by (simp add: dg_send_recv_def)
  obtain n where n: "sends (sendhdr_seq s + 1) n s1 s'" "sendhdr_seq s' = sendhdr_seq s + 1"
    "outcome_ok (sendhdr_seq s + 1) k 0 evs n out s'"
    using dg_wait_ok [OF assms(1) _ _ _ w, of 0] b t by auto
  have "sends (sendhdr_seq s + 1) (1 + n) s s'"
    using sends_trans [OF sends_trans [OF b(4) t(1)] n(1) [folded b(3)]] b(3) by simp
  then show ?thesis
    using n by (intro exI [of _ "1 + n"]) (auto simp: outcome_ok_def dg_ok_def split: dg_out.splits)
qed

text \<open>Exact arithmetic, a clock that stands still and a first call that is answered after one alarm.\<close>

definition exact :: fpu where
  "exact = \<lparr>fl = (\<lambda>x. x), dl = (\<lambda>x. x)\<rparr>"

definition calm :: dg_env where
  "calm = \<lparr>clock = (\<lambda>_. (0, 0)), send_fails = (\<lambda>_. False)\<rparr>"

definition dg_start :: dg where
  "dg_start = \<lparr>rttinit = False, rttinfo = \<lparr>rtt_rtt = 0, rtt_srtt = 0, rtt_rttvar = 0, rtt_rto = 0, rtt_nrexmt = 0, rtt_base = 0\<rparr>,
     sendhdr_seq = 0, ticks = 0, sent = [], alarms = []\<rparr>"

theorem dg_send_recv_bounded_witness:
  "fst (dg_send_recv exact calm 1 [Dgram 0 0 [9] False, Alarm, Dgram 1 0 [7, 8] False] dg_start) = Dg_reply [7] \<and>
   (\<exists>n \<le> 4. sends 1 n dg_start (snd (dg_send_recv exact calm 1 [Dgram 0 0 [9] False, Alarm, Dgram 1 0 [7, 8] False] dg_start)))"
proof -
  let ?r = "dg_send_recv exact calm 1 [Dgram 0 0 [9] False, Alarm, Dgram 1 0 [7, 8] False] dg_start"
  have "fst ?r = Dg_reply [7]"
    by (simp add: dg_send_recv_def dg_begin_def dg_send_def dg_alarm_def rtt_timeout_def rtt_newpack_def RTT_MAXNREXMT_def
        dg_start_def calm_def rtt_init_def)
  moreover have "fpu_ok exact" "dg_ok dg_start" "sendhdr_seq dg_start + 1 = 1"
    by (simp_all add: fpu_ok_def rounding_def exact_def mono_def dg_ok_def dg_start_def)
  ultimately show ?thesis
    using dg_send_recv_bounded [OF _ _ surjective_pairing, of exact dg_start calm 1] by fastforce
qed

end
