(* ===== verification/Queue.thy ===== *)
theory Queue
  imports Prelude "HOL-Library.Monad_Syntax"
begin

text \<open>
  The list macros of \<^verbatim>\<open>src/dataStructure/tailq/queue.h\<close> that link elements through the address of the previous next field:
  tail queues (\<^verbatim>\<open>TAILQ\<close>), lists (\<^verbatim>\<open>LIST\<close>), singly linked tail queues (\<^verbatim>\<open>STAILQ\<close>, \<^verbatim>\<open>SIMPLEQ\<close>) and singly linked lists
  (\<^verbatim>\<open>SLIST\<close>). Memory is a store of the link fields. A location is the address of the first field of a head or of the
  entry of an element; the first field holds an element or null, the second the address of a first
  field. Since heads and entries have this layout in common, the casts in \<^verbatim>\<open>TAILQ_LAST\<close> and \<^verbatim>\<open>TAILQ_PREV\<close> are
  plain reads. The theory shows that the macros implement operations on lists and leave other
  queues alone; what a sequence of elements is good for is stated in the locale \<open>linked_queue\<close>.
\<close>

subsection \<open>Memory\<close>

datatype loc = H nat | N nat

record store =
  nxt :: "loc \<Rightarrow> nat option"
  prv :: "loc \<Rightarrow> loc"

definition set_nxt :: "loc \<Rightarrow> nat option \<Rightarrow> store \<Rightarrow> store" where
  "set_nxt c v s = s\<lparr>nxt := (nxt s)(c := v)\<rparr>"

definition set_prv :: "loc \<Rightarrow> loc \<Rightarrow> store \<Rightarrow> store" where
  "set_prv c v s = s\<lparr>prv := (prv s)(c := v)\<rparr>"

lemma store_simps [simp]:
  "nxt (set_nxt c v s) = (nxt s)(c := v)" "prv (set_nxt c v s) = prv s"
  "prv (set_prv c w s) = (prv s)(c := w)" "nxt (set_prv c w s) = nxt s"
  by (simp_all add: set_nxt_def set_prv_def)

subsection \<open>Tail queues\<close>

definition TAILQ_INIT :: "nat \<Rightarrow> store \<Rightarrow> store" where
  "TAILQ_INIT h s = set_prv (H h) (H h) (set_nxt (H h) None s)"

definition TAILQ_INSERT_HEAD :: "nat \<Rightarrow> nat \<Rightarrow> store \<Rightarrow> store" where
  "TAILQ_INSERT_HEAD h e s =
     (let s = set_nxt (N e) (nxt s (H h)) s;
          s = (case nxt s (H h) of Some f \<Rightarrow> set_prv (N f) (N e) s | None \<Rightarrow> set_prv (H h) (N e) s);
          s = set_nxt (H h) (Some e) s
      in set_prv (N e) (H h) s)"

definition TAILQ_INSERT_TAIL :: "nat \<Rightarrow> nat \<Rightarrow> store \<Rightarrow> store" where
  "TAILQ_INSERT_TAIL h e s =
     (let s = set_nxt (N e) None s;
          s = set_prv (N e) (prv s (H h)) s;
          s = set_nxt (prv s (H h)) (Some e) s
      in set_prv (H h) (N e) s)"

definition TAILQ_INSERT_AFTER :: "nat \<Rightarrow> nat \<Rightarrow> nat \<Rightarrow> store \<Rightarrow> store" where
  "TAILQ_INSERT_AFTER h l e s =
     (let s = set_nxt (N e) (nxt s (N l)) s;
          s = (case nxt s (N e) of Some f \<Rightarrow> set_prv (N f) (N e) s | None \<Rightarrow> set_prv (H h) (N e) s);
          s = set_nxt (N l) (Some e) s
      in set_prv (N e) (N l) s)"

definition TAILQ_INSERT_BEFORE :: "nat \<Rightarrow> nat \<Rightarrow> store \<Rightarrow> store" where
  "TAILQ_INSERT_BEFORE l e s =
     (let s = set_prv (N e) (prv s (N l)) s;
          s = set_nxt (N e) (Some l) s;
          s = set_nxt (prv s (N l)) (Some e) s
      in set_prv (N l) (N e) s)"

definition TAILQ_REMOVE :: "nat \<Rightarrow> nat \<Rightarrow> store \<Rightarrow> store" where
  "TAILQ_REMOVE h e s =
     (let s = (case nxt s (N e) of Some f \<Rightarrow> set_prv (N f) (prv s (N e)) s | None \<Rightarrow> set_prv (H h) (prv s (N e)) s)
      in set_nxt (prv s (N e)) (nxt s (N e)) s)"

definition TAILQ_EMPTY :: "nat \<Rightarrow> store \<Rightarrow> bool" where
  "TAILQ_EMPTY h s = (nxt s (H h) = None)"

definition TAILQ_FIRST :: "nat \<Rightarrow> store \<Rightarrow> nat option" where
  "TAILQ_FIRST h s = nxt s (H h)"

definition TAILQ_NEXT :: "nat \<Rightarrow> store \<Rightarrow> nat option" where
  "TAILQ_NEXT e s = nxt s (N e)"

definition TAILQ_LAST :: "nat \<Rightarrow> store \<Rightarrow> nat option" where
  "TAILQ_LAST h s = nxt s (prv s (prv s (H h)))"

definition TAILQ_PREV :: "nat \<Rightarrow> store \<Rightarrow> nat option" where
  "TAILQ_PREV e s = nxt s (prv s (prv s (N e)))"

definition TAILQ_CONCAT :: "nat \<Rightarrow> nat \<Rightarrow> store \<Rightarrow> store" where
  "TAILQ_CONCAT h1 h2 s = (case nxt s (H h2) of
     None \<Rightarrow> s
   | Some f \<Rightarrow>
       let s = set_nxt (prv s (H h1)) (nxt s (H h2)) s;
           s = set_prv (N f) (prv s (H h1)) s;
           s = set_prv (H h1) (prv s (H h2)) s
       in TAILQ_INIT h2 s)"

text \<open>The elements that a loop visits, in order; a loop over damaged links may not end, which is \<open>None\<close>.\<close>

partial_function (option) foreach_from :: "store \<Rightarrow> nat option \<Rightarrow> nat list option" where
  "foreach_from s var = (case var of
     None \<Rightarrow> Some []
   | Some x \<Rightarrow> do { xs \<leftarrow> foreach_from s (nxt s (N x)); Some (x # xs) })"

partial_function (option) foreach_back :: "store \<Rightarrow> nat option \<Rightarrow> nat list option" where
  "foreach_back s var = (case var of
     None \<Rightarrow> Some []
   | Some x \<Rightarrow> do { xs \<leftarrow> foreach_back s (TAILQ_PREV x s); Some (x # xs) })"

definition TAILQ_FOREACH :: "nat \<Rightarrow> store \<Rightarrow> nat list option" where
  "TAILQ_FOREACH h s = foreach_from s (TAILQ_FIRST h s)"

definition TAILQ_FOREACH_REVERSE :: "nat \<Rightarrow> store \<Rightarrow> nat list option" where
  "TAILQ_FOREACH_REVERSE h s = foreach_back s (TAILQ_LAST h s)"

subsection \<open>Lists\<close>

definition LIST_INIT :: "nat \<Rightarrow> store \<Rightarrow> store" where
  "LIST_INIT h s = set_nxt (H h) None s"

definition LIST_INSERT_AFTER :: "nat \<Rightarrow> nat \<Rightarrow> store \<Rightarrow> store" where
  "LIST_INSERT_AFTER l e s =
     (let s = set_nxt (N e) (nxt s (N l)) s;
          s = (case nxt s (N e) of Some _ \<Rightarrow> set_prv (N (the (nxt s (N l)))) (N e) s | None \<Rightarrow> s);
          s = set_nxt (N l) (Some e) s
      in set_prv (N e) (N l) s)"

definition LIST_INSERT_BEFORE :: "nat \<Rightarrow> nat \<Rightarrow> store \<Rightarrow> store" where
  "LIST_INSERT_BEFORE l e s =
     (let s = set_prv (N e) (prv s (N l)) s;
          s = set_nxt (N e) (Some l) s;
          s = set_nxt (prv s (N l)) (Some e) s
      in set_prv (N l) (N e) s)"

definition LIST_INSERT_HEAD :: "nat \<Rightarrow> nat \<Rightarrow> store \<Rightarrow> store" where
  "LIST_INSERT_HEAD h e s =
     (let s = set_nxt (N e) (nxt s (H h)) s;
          s = (case nxt s (H h) of Some f \<Rightarrow> set_prv (N f) (N e) s | None \<Rightarrow> s);
          s = set_nxt (H h) (Some e) s
      in set_prv (N e) (H h) s)"

definition LIST_REMOVE :: "nat \<Rightarrow> store \<Rightarrow> store" where
  "LIST_REMOVE e s =
     (let s = (case nxt s (N e) of Some f \<Rightarrow> set_prv (N f) (prv s (N e)) s | None \<Rightarrow> s)
      in set_nxt (prv s (N e)) (nxt s (N e)) s)"

definition LIST_EMPTY :: "nat \<Rightarrow> store \<Rightarrow> bool" where
  "LIST_EMPTY h s = (nxt s (H h) = None)"

definition LIST_FIRST :: "nat \<Rightarrow> store \<Rightarrow> nat option" where
  "LIST_FIRST h s = nxt s (H h)"

definition LIST_NEXT :: "nat \<Rightarrow> store \<Rightarrow> nat option" where
  "LIST_NEXT e s = nxt s (N e)"

definition LIST_FOREACH :: "nat \<Rightarrow> store \<Rightarrow> nat list option" where
  "LIST_FOREACH h s = foreach_from s (LIST_FIRST h s)"

subsection \<open>Singly linked lists and tail queues\<close>

definition SLIST_INIT :: "nat \<Rightarrow> store \<Rightarrow> store" where
  "SLIST_INIT h s = set_nxt (H h) None s"

definition SLIST_INSERT_AFTER :: "nat \<Rightarrow> nat \<Rightarrow> store \<Rightarrow> store" where
  "SLIST_INSERT_AFTER l e s = set_nxt (N l) (Some e) (set_nxt (N e) (nxt s (N l)) s)"

definition SLIST_INSERT_HEAD :: "nat \<Rightarrow> nat \<Rightarrow> store \<Rightarrow> store" where
  "SLIST_INSERT_HEAD h e s = set_nxt (H h) (Some e) (set_nxt (N e) (nxt s (H h)) s)"

text \<open>A read through a null pointer is \<open>None\<close>.\<close>

definition SLIST_REMOVE_HEAD :: "nat \<Rightarrow> store \<Rightarrow> store option" where
  "SLIST_REMOVE_HEAD h s = (case nxt s (H h) of
     None \<Rightarrow> None
   | Some f \<Rightarrow> Some (set_nxt (H h) (nxt s (N f)) s))"

text \<open>The search for the element before \<open>e\<close>, from \<^verbatim>\<open>curelm\<close> on.\<close>

partial_function (option) find_before :: "store \<Rightarrow> nat \<Rightarrow> nat option \<Rightarrow> nat option" where
  "find_before s e curelm = (case curelm of
     None \<Rightarrow> None
   | Some c \<Rightarrow> if nxt s (N c) = Some e then Some c else find_before s e (nxt s (N c)))"

definition SLIST_REMOVE :: "nat \<Rightarrow> nat \<Rightarrow> store \<Rightarrow> store option" where
  "SLIST_REMOVE h e s =
     (if nxt s (H h) = Some e then SLIST_REMOVE_HEAD h s
      else do { c \<leftarrow> find_before s e (nxt s (H h)); Some (set_nxt (N c) (nxt s (N e)) s) })"

definition SLIST_FOREACH :: "nat \<Rightarrow> store \<Rightarrow> nat list option" where
  "SLIST_FOREACH h s = foreach_from s (nxt s (H h))"

definition STAILQ_INIT :: "nat \<Rightarrow> store \<Rightarrow> store" where
  "STAILQ_INIT h s = set_prv (H h) (H h) (set_nxt (H h) None s)"

definition STAILQ_INSERT_HEAD :: "nat \<Rightarrow> nat \<Rightarrow> store \<Rightarrow> store" where
  "STAILQ_INSERT_HEAD h e s =
     (let s = set_nxt (N e) (nxt s (H h)) s;
          s = (if nxt s (N e) = None then set_prv (H h) (N e) s else s)
      in set_nxt (H h) (Some e) s)"

definition STAILQ_INSERT_TAIL :: "nat \<Rightarrow> nat \<Rightarrow> store \<Rightarrow> store" where
  "STAILQ_INSERT_TAIL h e s =
     (let s = set_nxt (N e) None s;
          s = set_nxt (prv s (H h)) (Some e) s
      in set_prv (H h) (N e) s)"

definition STAILQ_INSERT_AFTER :: "nat \<Rightarrow> nat \<Rightarrow> nat \<Rightarrow> store \<Rightarrow> store" where
  "STAILQ_INSERT_AFTER h l e s =
     (let s = set_nxt (N e) (nxt s (N l)) s;
          s = (if nxt s (N e) = None then set_prv (H h) (N e) s else s)
      in set_nxt (N l) (Some e) s)"

definition STAILQ_REMOVE_HEAD :: "nat \<Rightarrow> store \<Rightarrow> store option" where
  "STAILQ_REMOVE_HEAD h s = (case nxt s (H h) of
     None \<Rightarrow> None
   | Some f \<Rightarrow>
       let s = set_nxt (H h) (nxt s (N f)) s
       in Some (if nxt s (H h) = None then set_prv (H h) (H h) s else s))"

definition STAILQ_REMOVE :: "nat \<Rightarrow> nat \<Rightarrow> store \<Rightarrow> store option" where
  "STAILQ_REMOVE h e s =
     (if nxt s (H h) = Some e then STAILQ_REMOVE_HEAD h s
      else do { c \<leftarrow> find_before s e (nxt s (H h));
                let s = set_nxt (N c) (nxt s (N e)) s;
                Some (if nxt s (N c) = None then set_prv (H h) (N c) s else s) })"

definition STAILQ_CONCAT :: "nat \<Rightarrow> nat \<Rightarrow> store \<Rightarrow> store" where
  "STAILQ_CONCAT h1 h2 s =
     (if nxt s (H h2) \<noteq> None then
        let s = set_nxt (prv s (H h1)) (nxt s (H h2)) s;
            s = set_prv (H h1) (prv s (H h2)) s
        in STAILQ_INIT h2 s
      else s)"

definition STAILQ_FOREACH :: "nat \<Rightarrow> store \<Rightarrow> nat list option" where
  "STAILQ_FOREACH h s = foreach_from s (nxt s (H h))"

text \<open>The simple queues repeat the code of the singly linked tail queues with other field names, without the concatenation.\<close>

definition SIMPLEQ_INIT :: "nat \<Rightarrow> store \<Rightarrow> store" where
  "SIMPLEQ_INIT = STAILQ_INIT"

definition SIMPLEQ_INSERT_HEAD :: "nat \<Rightarrow> nat \<Rightarrow> store \<Rightarrow> store" where
  "SIMPLEQ_INSERT_HEAD = STAILQ_INSERT_HEAD"

definition SIMPLEQ_INSERT_TAIL :: "nat \<Rightarrow> nat \<Rightarrow> store \<Rightarrow> store" where
  "SIMPLEQ_INSERT_TAIL = STAILQ_INSERT_TAIL"

definition SIMPLEQ_INSERT_AFTER :: "nat \<Rightarrow> nat \<Rightarrow> nat \<Rightarrow> store \<Rightarrow> store" where
  "SIMPLEQ_INSERT_AFTER = STAILQ_INSERT_AFTER"

definition SIMPLEQ_REMOVE_HEAD :: "nat \<Rightarrow> store \<Rightarrow> store option" where
  "SIMPLEQ_REMOVE_HEAD = STAILQ_REMOVE_HEAD"

definition SIMPLEQ_REMOVE :: "nat \<Rightarrow> nat \<Rightarrow> store \<Rightarrow> store option" where
  "SIMPLEQ_REMOVE = STAILQ_REMOVE"

definition SIMPLEQ_FOREACH :: "nat \<Rightarrow> store \<Rightarrow> nat list option" where
  "SIMPLEQ_FOREACH = STAILQ_FOREACH"

subsection \<open>Linked segments\<close>

text \<open>
  From the location \<open>c\<close> on the first fields lead through the elements \<open>xs\<close>; with \<open>b\<close> the second fields lead back. The
  last location of the segment is \<open>last_cell c xs\<close>, whose first field is not part of the segment.
\<close>

fun lnk :: "bool \<Rightarrow> store \<Rightarrow> loc \<Rightarrow> nat list \<Rightarrow> bool" where
  "lnk b s c [] \<longleftrightarrow> True"
| "lnk b s c (x # xs) \<longleftrightarrow> nxt s c = Some x \<and> (b \<longrightarrow> prv s (N x) = c) \<and> lnk b s (N x) xs"

definition last_cell :: "loc \<Rightarrow> nat list \<Rightarrow> loc" where
  "last_cell c xs = (if xs = [] then c else N (last xs))"

lemma last_cell_simps [simp]:
  "last_cell c [] = c" "last_cell c (x # xs) = last_cell (N x) xs" "last_cell c (xs @ ys) = last_cell (last_cell c xs) ys"
  by (auto simp: last_cell_def)

lemma last_cell_in: "last_cell c xs \<in> insert c (N ` set xs)"
  by (simp add: last_cell_def)

lemma loc_mem [simp]: "N e \<in> N ` A \<longleftrightarrow> e \<in> A" "H h \<notin> N ` A"
  by auto

lemma last_cell_neq [simp]:
  "e \<notin> set xs \<Longrightarrow> last_cell (H h) xs \<noteq> N e" "e \<notin> set xs \<Longrightarrow> e \<noteq> x \<Longrightarrow> last_cell (N x) xs \<noteq> N e"
  "last_cell (N x) xs \<noteq> H h" "h \<noteq> k \<Longrightarrow> last_cell (H h) xs \<noteq> H k"
  by (auto simp: last_cell_def)

lemmas last_cell_neq_sym [simp] = last_cell_neq [THEN not_sym]

lemma last_cell_disjoint: "set xs \<inter> set ys = {} \<Longrightarrow> last_cell (H h) xs \<notin> N ` set ys"
  by (auto simp: last_cell_def disjoint_iff)

lemma last_cells_neq:
  "x \<notin> set ys \<Longrightarrow> set xs \<inter> set ys = {} \<Longrightarrow> last_cell (N x) xs \<noteq> last_cell (H h) ys"
  by (auto simp: last_cell_def split: if_splits) (metis disjoint_iff last_in_set)+

lemma lnk_append: "lnk b s c (xs @ ys) \<longleftrightarrow> lnk b s c xs \<and> lnk b s (last_cell c xs) ys"
  by (induction xs arbitrary: c) auto

lemma lnk_nxt_other [simp]: "d \<notin> insert c (N ` set xs) \<Longrightarrow> lnk b (set_nxt d v s) c xs = lnk b s c xs"
  by (induction xs arbitrary: c) auto

lemma lnk_prv_other [simp]: "d \<notin> N ` set xs \<Longrightarrow> lnk b (set_prv d v s) c xs = lnk b s c xs"
  by (induction xs arbitrary: c) auto

lemma lnk_nxt_last [simp]:
  "distinct xs \<Longrightarrow> c \<notin> N ` set xs \<Longrightarrow> lnk b (set_nxt (last_cell c xs) v s) c xs = lnk b s c xs"
proof (induction xs arbitrary: c)
  case (Cons x xs)
  have "last_cell (N x) xs \<noteq> c"
    using last_cell_in [of "N x" xs] Cons.prems by auto
  then show ?case
    using Cons.IH [of "N x"] Cons.prems by auto
qed simp

text \<open>A segment can start from another location that holds the same first element.\<close>

definition starts :: "bool \<Rightarrow> store \<Rightarrow> loc \<Rightarrow> nat list \<Rightarrow> bool" where
  "starts b s c xs \<longleftrightarrow> (case xs of [] \<Rightarrow> True | x # _ \<Rightarrow> nxt s c = Some x \<and> (b \<longrightarrow> prv s (N x) = c))"

lemma lnk_starts: "lnk b s c xs \<longleftrightarrow> starts b s c xs \<and> (case xs of [] \<Rightarrow> True | x # ys \<Rightarrow> lnk b s (N x) ys)"
  by (cases xs) (auto simp: starts_def)

text \<open>What each kind of structure is: the elements of a list, of a list with a tail pointer, and of a tail queue.\<close>

definition ends :: "store \<Rightarrow> nat \<Rightarrow> nat list \<Rightarrow> bool" where
  "ends s h xs \<longleftrightarrow> nxt s (last_cell (H h) xs) = None"

definition slist :: "store \<Rightarrow> nat \<Rightarrow> nat list \<Rightarrow> bool" where
  "slist s h xs \<longleftrightarrow> distinct xs \<and> lnk False s (H h) xs \<and> ends s h xs"

definition list_of :: "store \<Rightarrow> nat \<Rightarrow> nat list \<Rightarrow> bool" where
  "list_of s h xs \<longleftrightarrow> distinct xs \<and> lnk True s (H h) xs \<and> ends s h xs"

definition stailq :: "store \<Rightarrow> nat \<Rightarrow> nat list \<Rightarrow> bool" where
  "stailq s h xs \<longleftrightarrow> slist s h xs \<and> prv s (H h) = last_cell (H h) xs"

definition tailq :: "store \<Rightarrow> nat \<Rightarrow> nat list \<Rightarrow> bool" where
  "tailq s h xs \<longleftrightarrow> list_of s h xs \<and> prv s (H h) = last_cell (H h) xs"

lemmas queue_defs = tailq_def stailq_def list_of_def slist_def ends_def

subsection \<open>Loops\<close>

lemma foreach_from_None [simp]: "foreach_from s None = Some []"
  by (subst foreach_from.simps) simp

lemma foreach_from_Some [simp]: "foreach_from s (Some x) = do { xs \<leftarrow> foreach_from s (nxt s (N x)); Some (x # xs) }"
  by (subst foreach_from.simps) simp

lemma foreach_back_None [simp]: "foreach_back s None = Some []"
  by (subst foreach_back.simps) simp

lemma foreach_back_Some [simp]: "foreach_back s (Some x) = do { xs \<leftarrow> foreach_back s (TAILQ_PREV x s); Some (x # xs) }"
  by (subst foreach_back.simps) simp

lemma foreach_from_lnk: "lnk b s c xs \<Longrightarrow> nxt s (last_cell c xs) = None \<Longrightarrow> foreach_from s (nxt s c) = Some xs"
  by (induction xs arbitrary: c) auto

lemma tailq_prev:
  assumes "tailq s h (ys @ x # zs)"
  shows "TAILQ_PREV x s = (if ys = [] then None else Some (last ys))"
proof (cases ys rule: rev_cases)
  case Nil
  then show ?thesis
    using assms by (simp add: queue_defs TAILQ_PREV_def)
next
  case (snoc vs v)
  then show ?thesis
    using assms by (simp add: queue_defs TAILQ_PREV_def lnk_append)
qed

lemma tailq_last:
  assumes "tailq s h xs"
  shows "TAILQ_LAST h s = (if xs = [] then None else Some (last xs))"
proof (cases xs rule: rev_cases)
  case Nil
  then show ?thesis
    using assms by (simp add: queue_defs TAILQ_LAST_def)
next
  case (snoc vs v)
  then show ?thesis
    using assms by (simp add: queue_defs TAILQ_LAST_def lnk_append)
qed

lemma foreach_back_tailq:
  "tailq s h (ys @ zs) \<Longrightarrow> foreach_back s (if ys = [] then None else Some (last ys)) = Some (rev ys)"
proof (induction ys arbitrary: zs rule: rev_induct)
  case (snoc y ys)
  then show ?case
    using tailq_prev [of s h ys y zs] snoc.IH [of "y # zs"] by simp
qed simp

lemma tailq_foreach: "tailq s h xs \<Longrightarrow> TAILQ_FOREACH h s = Some xs"
  using foreach_from_lnk by (fastforce simp: queue_defs TAILQ_FOREACH_def TAILQ_FIRST_def)

lemma tailq_foreach_reverse: "tailq s h xs \<Longrightarrow> TAILQ_FOREACH_REVERSE h s = Some (rev xs)"
  using foreach_back_tailq [of s h xs "[]"] tailq_last [of s h xs] by (simp add: TAILQ_FOREACH_REVERSE_def)

subsection \<open>Tail queue operations\<close>

lemma tailq_init: "tailq (TAILQ_INIT h s) h []"
  by (simp add: queue_defs TAILQ_INIT_def)

lemma tailq_insert_head: "tailq s h xs \<Longrightarrow> e \<notin> set xs \<Longrightarrow> tailq (TAILQ_INSERT_HEAD h e s) h (e # xs)"
  by (cases xs) (auto simp: queue_defs TAILQ_INSERT_HEAD_def Let_def)

lemma tailq_insert_tail:
  "tailq s h xs \<Longrightarrow> e \<notin> set xs \<Longrightarrow> tailq (TAILQ_INSERT_TAIL h e s) h (xs @ [e])"
  by (auto simp: queue_defs TAILQ_INSERT_TAIL_def Let_def lnk_append)

lemma tailq_insert_after:
  assumes "tailq s h (ys @ l # zs)" "e \<notin> set (ys @ l # zs)"
  shows "tailq (TAILQ_INSERT_AFTER h l e s) h (ys @ l # e # zs)"
  using assms by (cases zs) (auto simp: queue_defs TAILQ_INSERT_AFTER_def Let_def lnk_append)

lemma tailq_insert_before:
  assumes "tailq s h (ys @ l # zs)" "e \<notin> set (ys @ l # zs)"
  shows "tailq (TAILQ_INSERT_BEFORE l e s) h (ys @ e # l # zs)"
  using assms last_cell_disjoint [of ys zs h] last_cells_neq [of l ys zs h]
  by (auto simp: queue_defs TAILQ_INSERT_BEFORE_def Let_def lnk_append)

lemma tailq_remove:
  assumes "tailq s h (ys @ e # zs)"
  shows "tailq (TAILQ_REMOVE h e s) h (ys @ zs)"
  using assms last_cell_disjoint [of ys zs h] last_cells_neq [of "hd zs" ys "tl zs" h]
  by (cases zs) (auto simp: queue_defs TAILQ_REMOVE_def Let_def lnk_append)

lemma tailq_concat:
  assumes "tailq s h xs" "tailq s k ys" "h \<noteq> k" "set xs \<inter> set ys = {}"
  shows "tailq (TAILQ_CONCAT h k s) h (xs @ ys)" "tailq (TAILQ_CONCAT h k s) k []"
  using assms last_cell_disjoint [of xs ys h] last_cells_neq [of "hd ys" xs "tl ys" h]
  by (cases ys; auto simp: queue_defs TAILQ_CONCAT_def TAILQ_INIT_def Let_def lnk_append)+

subsection \<open>Lists and singly linked structures\<close>

lemma list_init: "list_of (LIST_INIT h s) h []"
  by (simp add: queue_defs LIST_INIT_def)

lemma list_insert_head: "list_of s h xs \<Longrightarrow> e \<notin> set xs \<Longrightarrow> list_of (LIST_INSERT_HEAD h e s) h (e # xs)"
  by (cases xs) (auto simp: queue_defs LIST_INSERT_HEAD_def Let_def)

lemma list_insert_after:
  "list_of s h (ys @ l # zs) \<Longrightarrow> e \<notin> set (ys @ l # zs) \<Longrightarrow> list_of (LIST_INSERT_AFTER l e s) h (ys @ l # e # zs)"
  by (cases zs) (auto simp: queue_defs LIST_INSERT_AFTER_def Let_def lnk_append)

lemma list_insert_before:
  assumes "list_of s h (ys @ l # zs)" "e \<notin> set (ys @ l # zs)"
  shows "list_of (LIST_INSERT_BEFORE l e s) h (ys @ e # l # zs)"
  using assms last_cell_disjoint [of ys zs h] last_cells_neq [of l ys zs h]
  by (auto simp: queue_defs LIST_INSERT_BEFORE_def Let_def lnk_append)

lemma list_remove:
  assumes "list_of s h (ys @ e # zs)"
  shows "list_of (LIST_REMOVE e s) h (ys @ zs)"
  using assms last_cell_disjoint [of ys zs h] last_cells_neq [of "hd zs" ys "tl zs" h]
  by (cases zs) (auto simp: queue_defs LIST_REMOVE_def Let_def lnk_append)

lemma find_before_Some [simp]:
  "find_before s e (Some c) = (if nxt s (N c) = Some e then Some c else find_before s e (nxt s (N c)))"
  by (subst find_before.simps) simp

lemma find_before_lnk:
  "lnk b s (N c) (ys @ e # zs) \<Longrightarrow> e \<notin> set ys \<Longrightarrow> find_before s e (Some c) = Some (if ys = [] then c else last ys)"
proof (induction ys arbitrary: c)
  case (Cons y ys)
  then have "nxt s (N c) = Some y" "y \<noteq> e"
    by auto
  then show ?case
    using Cons by simp
qed simp

lemma slist_init: "slist (SLIST_INIT h s) h []"
  by (simp add: queue_defs SLIST_INIT_def)

lemma slist_insert_head: "slist s h xs \<Longrightarrow> e \<notin> set xs \<Longrightarrow> slist (SLIST_INSERT_HEAD h e s) h (e # xs)"
  by (cases xs) (auto simp: queue_defs SLIST_INSERT_HEAD_def)

lemma slist_insert_after:
  "slist s h (ys @ l # zs) \<Longrightarrow> e \<notin> set (ys @ l # zs) \<Longrightarrow> slist (SLIST_INSERT_AFTER l e s) h (ys @ l # e # zs)"
  by (cases zs) (auto simp: queue_defs SLIST_INSERT_AFTER_def lnk_append)

lemma slist_remove:
  assumes "slist s h (ys @ e # zs)"
  shows "\<exists>s'. SLIST_REMOVE h e s = Some s' \<and> slist s' h (ys @ zs)"
proof (cases ys)
  case Nil
  then show ?thesis
    using assms by (cases zs) (auto simp: queue_defs SLIST_REMOVE_def SLIST_REMOVE_HEAD_def)
next
  case (Cons y ys')
  then have "find_before s e (nxt s (H h)) = Some (last ys)" "nxt s (H h) \<noteq> Some e"
    using assms find_before_lnk [of False s y ys' e zs] by (auto simp: queue_defs)
  moreover obtain us u where u: "ys = us @ [u]"
    using Cons by (metis list.distinct(1) rev_exhaust)
  ultimately show ?thesis
    using assms by (cases zs) (auto simp: queue_defs SLIST_REMOVE_def lnk_append u)
qed

lemma slist_remove_head: "slist s h (x # xs) \<Longrightarrow> \<exists>s'. SLIST_REMOVE_HEAD h s = Some s' \<and> slist s' h xs"
  by (cases xs) (auto simp: queue_defs SLIST_REMOVE_HEAD_def)

lemma stailq_init: "stailq (STAILQ_INIT h s) h []"
  by (simp add: queue_defs STAILQ_INIT_def)

lemma stailq_insert_head: "stailq s h xs \<Longrightarrow> e \<notin> set xs \<Longrightarrow> stailq (STAILQ_INSERT_HEAD h e s) h (e # xs)"
  by (cases xs) (auto simp: queue_defs STAILQ_INSERT_HEAD_def Let_def)

lemma stailq_insert_tail: "stailq s h xs \<Longrightarrow> e \<notin> set xs \<Longrightarrow> stailq (STAILQ_INSERT_TAIL h e s) h (xs @ [e])"
  by (auto simp: queue_defs STAILQ_INSERT_TAIL_def Let_def lnk_append)

lemma stailq_insert_after:
  "stailq s h (ys @ l # zs) \<Longrightarrow> e \<notin> set (ys @ l # zs) \<Longrightarrow> stailq (STAILQ_INSERT_AFTER h l e s) h (ys @ l # e # zs)"
  by (cases zs) (auto simp: queue_defs STAILQ_INSERT_AFTER_def Let_def lnk_append)

lemma stailq_remove_head: "stailq s h (x # xs) \<Longrightarrow> \<exists>s'. STAILQ_REMOVE_HEAD h s = Some s' \<and> stailq s' h xs"
  by (cases xs) (auto simp: queue_defs STAILQ_REMOVE_HEAD_def Let_def)

lemma stailq_remove:
  assumes "stailq s h (ys @ e # zs)"
  shows "\<exists>s'. STAILQ_REMOVE h e s = Some s' \<and> stailq s' h (ys @ zs)"
proof (cases ys)
  case Nil
  then show ?thesis
    using assms stailq_remove_head [of s h e zs] by (auto simp: queue_defs STAILQ_REMOVE_def)
next
  case (Cons y ys')
  then have "find_before s e (nxt s (H h)) = Some (last ys)" "nxt s (H h) \<noteq> Some e"
    using assms find_before_lnk [of False s y ys' e zs] by (auto simp: queue_defs)
  moreover obtain us u where u: "ys = us @ [u]"
    using Cons by (metis list.distinct(1) rev_exhaust)
  ultimately show ?thesis
    using assms by (cases zs) (auto simp: queue_defs STAILQ_REMOVE_def lnk_append u Let_def)
qed

lemma stailq_concat:
  assumes "stailq s h xs" "stailq s k ys" "h \<noteq> k" "set xs \<inter> set ys = {}"
  shows "stailq (STAILQ_CONCAT h k s) h (xs @ ys)" "stailq (STAILQ_CONCAT h k s) k []"
  using assms last_cell_disjoint [of xs ys h] last_cells_neq [of "hd ys" xs "tl ys" h]
  by (cases ys; auto simp: queue_defs STAILQ_CONCAT_def STAILQ_INIT_def Let_def lnk_append)+

subsection \<open>Other queues in the same memory\<close>

text \<open>An operation on the queue \<open>h\<close> with the elements \<open>es\<close> changes fields of \<open>h\<close> and of these elements only.\<close>

definition touches :: "nat \<Rightarrow> nat set \<Rightarrow> store \<Rightarrow> store \<Rightarrow> bool" where
  "touches h es s s' \<longleftrightarrow> (\<forall>c. c \<noteq> H h \<and> c \<notin> N ` es \<longrightarrow> nxt s' c = nxt s c \<and> prv s' c = prv s c)"

lemma lnk_frame:
  "(\<And>c. c \<in> insert d (N ` set xs) \<Longrightarrow> nxt s' c = nxt s c \<and> prv s' c = prv s c) \<Longrightarrow> lnk b s' d xs = lnk b s d xs"
  by (induction xs arbitrary: d) auto

lemma tailq_frame:
  assumes "touches h es s s'" "tailq s k xs" "k \<noteq> h" "set xs \<inter> es = {}"
  shows "tailq s' k xs"
proof -
  have same: "nxt s' c = nxt s c \<and> prv s' c = prv s c" if "c \<in> insert (H k) (N ` set xs)" for c
    using assms that by (auto simp: touches_def disjoint_iff)
  then show ?thesis
    using assms(2) lnk_frame [of "H k" xs s' s True] last_cell_in [of "H k" xs] by (simp add: queue_defs)
qed

lemma tailq_touches:
  assumes "tailq s h (ys @ l # zs)"
  shows "touches h (insert e (set (ys @ l # zs))) s (TAILQ_INSERT_HEAD h e s)"
    "touches h (insert e (set (ys @ l # zs))) s (TAILQ_INSERT_TAIL h e s)"
    "touches h (insert e (set (ys @ l # zs))) s (TAILQ_INSERT_AFTER h l e s)"
    "touches h (insert e (set (ys @ l # zs))) s (TAILQ_INSERT_BEFORE l e s)"
    "touches h (set (ys @ l # zs)) s (TAILQ_REMOVE h l s)"
proof -
  let ?xs = "ys @ l # zs"
  have l: "nxt s (N l) = Some f \<Longrightarrow> f \<in> set zs" "nxt s (H h) = Some f \<Longrightarrow> f \<in> set ?xs" for f
    using assms by (cases zs; cases ys; auto simp: queue_defs lnk_append)+
  have p: "prv s (N l) = last_cell (H h) ys" "prv s (H h) = last_cell (H h) ?xs"
    using assms by (auto simp: queue_defs lnk_append)
  have c: "last_cell (H h) ys \<in> insert (H h) (N ` set ?xs)" "last_cell (H h) ?xs \<in> insert (H h) (N ` set ?xs)"
    using last_cell_in [of "H h" ys] last_cell_in [of "H h" ?xs] by auto
  show "touches h (insert e (set ?xs)) s (TAILQ_INSERT_HEAD h e s)"
    using l by (auto simp: touches_def TAILQ_INSERT_HEAD_def Let_def split: option.splits)
  show "touches h (insert e (set ?xs)) s (TAILQ_INSERT_TAIL h e s)"
    using p c by (auto simp: touches_def TAILQ_INSERT_TAIL_def Let_def)
  show "touches h (insert e (set ?xs)) s (TAILQ_INSERT_AFTER h l e s)"
    using l by (auto simp: touches_def TAILQ_INSERT_AFTER_def Let_def split: option.splits)
  show "touches h (insert e (set ?xs)) s (TAILQ_INSERT_BEFORE l e s)"
    using p c by (auto simp: touches_def TAILQ_INSERT_BEFORE_def Let_def)
  show "touches h (set ?xs) s (TAILQ_REMOVE h l s)"
    using l p c by (auto simp: touches_def TAILQ_REMOVE_def Let_def split: option.splits)
qed

lemma tailq_touches_tail: "tailq s h xs \<Longrightarrow> touches h (insert e (set xs)) s (TAILQ_INSERT_TAIL h e s)"
  using last_cell_in [of "H h" xs] by (auto simp: queue_defs touches_def TAILQ_INSERT_TAIL_def Let_def)

lemma tailq_touches_init: "touches h {} s (TAILQ_INIT h s)"
  by (simp add: touches_def TAILQ_INIT_def)

subsection \<open>The contract of a queue\<close>

text \<open>
  What programs rely on: a queue holds a sequence of distinct elements, elements are added at the end and removed
  at the front, and the queues in one memory with different elements do not disturb each other.
\<close>

locale linked_queue =
  fixes queue :: "'s \<Rightarrow> nat \<Rightarrow> nat list \<Rightarrow> bool"
    and init :: "nat \<Rightarrow> 's \<Rightarrow> 's"
    and first :: "nat \<Rightarrow> 's \<Rightarrow> nat option"
    and insert_tail :: "nat \<Rightarrow> nat \<Rightarrow> 's \<Rightarrow> 's"
    and remove :: "nat \<Rightarrow> nat \<Rightarrow> 's \<Rightarrow> 's"
  assumes queue_init: "queue (init h s) h []"
    and queue_init_other: "queue s k ys \<Longrightarrow> k \<noteq> h \<Longrightarrow> queue (init h s) k ys"
    and queue_first: "queue s h (x # xs) \<Longrightarrow> first h s = Some x"
    and queue_insert: "queue s h xs \<Longrightarrow> e \<notin> set xs \<Longrightarrow> queue (insert_tail h e s) h (xs @ [e])"
    and queue_insert_other: "queue s k ys \<Longrightarrow> k \<noteq> h \<Longrightarrow> queue s h xs \<Longrightarrow> set ys \<inter> set xs = {} \<Longrightarrow> e \<notin> set ys \<Longrightarrow>
      queue (insert_tail h e s) k ys"
    and queue_remove: "queue s h (x # xs) \<Longrightarrow> queue (remove h x s) h xs"
    and queue_remove_other: "queue s k ys \<Longrightarrow> k \<noteq> h \<Longrightarrow> queue s h (x # xs) \<Longrightarrow> set ys \<inter> set (x # xs) = {} \<Longrightarrow>
      queue (remove h x s) k ys"
begin

lemma insert_all:
  "queue s h xs \<Longrightarrow> distinct (xs @ es) \<Longrightarrow> queue (fold (insert_tail h) es s) h (xs @ es)"
proof (induction es arbitrary: s xs)
  case (Cons e es)
  then show ?case
    using Cons.IH [of "insert_tail h e s" "xs @ [e]"] queue_insert [of s h xs e] by simp
qed simp

lemma insert_all_other:
  "queue s h xs \<Longrightarrow> queue s k ys \<Longrightarrow> k \<noteq> h \<Longrightarrow> distinct (xs @ es) \<Longrightarrow> set ys \<inter> set (xs @ es) = {} \<Longrightarrow>
     queue (fold (insert_tail h) es s) k ys"
proof (induction es arbitrary: s xs)
  case (Cons e es)
  have "queue (insert_tail h e s) h (xs @ [e])" "queue (insert_tail h e s) k ys"
    using Cons.prems queue_insert [of s h xs e] queue_insert_other [of s k ys h xs e] by auto
  then show ?case
    using Cons.IH [of "insert_tail h e s" "xs @ [e]"] Cons.prems by simp
qed simp

text \<open>The first element of one queue moves to the end of another.\<close>

lemma move_first:
  assumes "queue s f (x # xs)" "queue s u ys" "f \<noteq> u" "distinct (x # xs @ ys)"
  shows "first f s = Some x" "queue (insert_tail u x (remove f x s)) f xs" "queue (insert_tail u x (remove f x s)) u (ys @ [x])"
proof -
  have q: "queue (remove f x s) f xs" "queue (remove f x s) u ys"
    using assms queue_remove [of s f x xs] queue_remove_other [of s u ys f x xs] by auto
  show "first f s = Some x"
    using assms(1) by (rule queue_first)
  show "queue (insert_tail u x (remove f x s)) f xs"
    using queue_insert_other [OF q(1) assms(3) q(2)] assms(4) by auto
  show "queue (insert_tail u x (remove f x s)) u (ys @ [x])"
    using queue_insert [OF q(2)] assms(4) by auto
qed

end

interpretation tq: linked_queue tailq TAILQ_INIT TAILQ_FIRST TAILQ_INSERT_TAIL TAILQ_REMOVE
proof
  show "tailq (TAILQ_INIT h s) k ys" if "tailq s k ys" "k \<noteq> h" for h s k ys
    using tailq_frame [OF tailq_touches_init that(1,2)] by simp
  show "TAILQ_FIRST h s = Some x" if "tailq s h (x # xs)" for h s x xs
    using that by (simp add: queue_defs TAILQ_FIRST_def)
  show "tailq (TAILQ_INSERT_TAIL h e s) k ys"
    if "tailq s k ys" "k \<noteq> h" "tailq s h xs" "set ys \<inter> set xs = {}" "e \<notin> set ys" for s k ys h xs e
    using tailq_frame [OF tailq_touches_tail [OF that(3), of e] that(1,2)] that(4,5) by simp
  show "tailq (TAILQ_REMOVE h x s) h xs" if "tailq s h (x # xs)" for h x s xs
    using tailq_remove [of s h "[]" x xs] that by simp
  show "tailq (TAILQ_REMOVE h x s) k ys"
    if "tailq s k ys" "k \<noteq> h" "tailq s h (x # xs)" "set ys \<inter> set (x # xs) = {}" for s k ys h x xs
    using tailq_frame [OF tailq_touches(5) [of s h "[]" x xs] that(1,2)] that(3,4) by simp
qed (simp_all add: tailq_init tailq_insert_tail)



end
