(* ===== verification/QueuePool.thy ===== *)
theory QueuePool
  imports Queue Text
begin

text \<open>
  Two programs over tail queues: \<^verbatim>\<open>src/dataStructure/tailq/array_as_element.c\<close>, which keeps the elements of an array in a
  free and a used queue, and \<^verbatim>\<open>demo.c\<close>, which exercises the macros. Elements are numbered by their array index or by the
  order of their allocation; the output is a list of lines. The theory shows what the programs
  print, for any contents of memory at the start.
\<close>

subsection \<open>Free and used elements\<close>

definition STRU_LEN :: nat where "STRU_LEN = 100"

definition usedHead :: nat where "usedHead = 0"

definition freeHead :: nat where "freeHead = 1"

record data_obj =
  links :: store
  data :: "nat \<Rightarrow> nat"
  usedNum :: nat

definition add_free :: "nat \<Rightarrow> data_obj \<Rightarrow> data_obj" where
  "add_free loop d = d\<lparr>links := TAILQ_INSERT_TAIL freeHead loop (links d)\<rparr>"

text \<open>The body of the second loop; \<open>None\<close> when the free queue is empty and the program uses a null pointer.\<close>

definition use_elem :: "data_obj \<Rightarrow> data_obj option" where
  "use_elem d = (case TAILQ_FIRST freeHead (links d) of
     None \<Rightarrow> None
   | Some e \<Rightarrow>
       let s = TAILQ_REMOVE freeHead e (links d); s = TAILQ_INSERT_TAIL usedHead e s
       in Some (d\<lparr>links := s, data := (data d)(e := usedNum d), usedNum := usedNum d + 1\<rparr>))"

fun use_elems :: "nat \<Rightarrow> data_obj \<Rightarrow> data_obj option" where
  "use_elems 0 d = Some d"
| "use_elems (Suc n) d = (case use_elem d of None \<Rightarrow> None | Some d \<Rightarrow> use_elems n d)"

definition pool_init :: "data_obj \<Rightarrow> data_obj" where
  "pool_init d =
     (let d = d\<lparr>links := TAILQ_INIT freeHead (links d)\<rparr>;
          d = d\<lparr>links := TAILQ_INIT usedHead (links d)\<rparr>;
          d = fold add_free [0..<STRU_LEN] d
      in d\<lparr>usedNum := 0\<rparr>)"

definition pool_main :: "data_obj \<Rightarrow> (string list \<times> data_obj) option" where
  "pool_main d = (case use_elems 10 (pool_init d) of
     None \<Rightarrow> None
   | Some d \<Rightarrow> (case TAILQ_FOREACH usedHead (links d) of
       None \<Rightarrow> None
     | Some es \<Rightarrow> Some (map (\<lambda>e. ''elem:'' @ show_dec (data d e)) es, d)))"

text \<open>The free elements \<open>fs\<close>, the used elements \<open>us\<close> with their numbers.\<close>

definition pool_ok :: "nat list \<Rightarrow> nat list \<Rightarrow> data_obj \<Rightarrow> bool" where
  "pool_ok fs us d \<longleftrightarrow> tailq (links d) freeHead fs \<and> tailq (links d) usedHead us \<and> distinct (fs @ us) \<and>
     usedNum d = length us \<and> map (data d) us = [0..<length us]"

lemma pool_init_ok: "pool_ok [0..<STRU_LEN] [] (pool_init d)"
proof -
  have l: "links (fold add_free es d) = fold (TAILQ_INSERT_TAIL freeHead) es (links d)" for es d
    by (induction es arbitrary: d) (simp_all add: add_free_def)
  let ?s = "TAILQ_INIT usedHead (TAILQ_INIT freeHead (links d))"
  have q: "tailq ?s freeHead []" "tailq ?s usedHead []" "usedHead \<noteq> freeHead"
    using tq.queue_init_other [OF tq.queue_init, of freeHead usedHead "links d"] tq.queue_init
    by (simp_all add: usedHead_def freeHead_def)
  show ?thesis
    using tq.insert_all [OF q(1), of "[0..<STRU_LEN]"] tq.insert_all_other [OF q, of "[0..<STRU_LEN]"]
    by (simp add: pool_ok_def pool_init_def Let_def l del: upt_Suc)
qed

lemma use_elem_ok:
  assumes "pool_ok (x # fs) us d"
  shows "\<exists>d'. use_elem d = Some d' \<and> pool_ok fs (us @ [x]) d'"
proof -
  have "freeHead \<noteq> usedHead" "distinct (x # fs @ us)"
    using assms by (auto simp: usedHead_def freeHead_def pool_ok_def)
  note m = tq.move_first [OF _ _ this, of "links d"]
  have "map ((data d)(x := length us)) us = [0..<length us]"
    using assms by (simp add: pool_ok_def map_fun_upd)
  then show ?thesis
    using assms m by (auto simp: pool_ok_def use_elem_def Let_def)
qed

lemma use_elems_ok:
  "pool_ok (xs @ fs) us d \<Longrightarrow> \<exists>d'. use_elems (length xs) d = Some d' \<and> pool_ok fs (us @ xs) d'"
proof (induction xs arbitrary: us d)
  case (Cons x xs)
  then obtain d1 where d1: "use_elem d = Some d1" "pool_ok (xs @ fs) (us @ [x]) d1"
    using use_elem_ok [of x "xs @ fs" us d] by auto
  then show ?case
    using Cons.IH [of "us @ [x]" d1] by auto
qed simp

text \<open>
  The program takes ten elements of the array from the free to the used queue. Whatever memory holds at the start, it
  never uses a null pointer, the loops end, the ten elements are printed in order with the numbers 0 to 9, and the
  two queues split the array.
\<close>

theorem pool_main_prints:
  "\<exists>d'. pool_main d = Some (map (\<lambda>i. ''elem:'' @ show_dec i) [0..<10], d') \<and>
    tailq (links d') usedHead [0..<10] \<and> tailq (links d') freeHead [10..<STRU_LEN]"
proof -
  have "[0..<STRU_LEN] = [0..<10] @ [10..<STRU_LEN]"
    using upt_add_eq_append [of 0 10 90] by (simp add: STRU_LEN_def)
  then obtain d' where d': "use_elems 10 (pool_init d) = Some d'" "pool_ok [10..<STRU_LEN] [0..<10] d'"
    using use_elems_ok [of "[0..<10]" "[10..<STRU_LEN]" "[]" "pool_init d"] pool_init_ok [of d] by auto
  then have each: "TAILQ_FOREACH usedHead (links d') = Some [0..<10]" "map (data d') [0..<10] = map id [0..<10]"
    using tailq_foreach by (auto simp: pool_ok_def)
  have "data d' i = i" if "i \<in> set [0..<10]" for i
    using each(2) that unfolding map_eq_conv by (metis id_apply)
  then have "map (\<lambda>e. ''elem:'' @ show_dec (data d' e)) [0..<10] = map (\<lambda>i. ''elem:'' @ show_dec i) [0..<10]"
    unfolding map_eq_conv by simp
  then show ?thesis
    using d' each(1) by (auto simp: pool_main_def pool_ok_def)
qed

subsection \<open>The demonstration\<close>

definition empty_line :: "bool \<Rightarrow> string" where
  "empty_line b = ''list1 is empty? '' @ (if b then ''YES'' else ''NO'') @ ''.''"

definition demo_main :: "store \<Rightarrow> string list option" where
  "demo_main s =
     (let list1 = 0; elm1 = 0; elm2 = 1; dat = (\<lambda>e :: nat. e);
          s0 = TAILQ_INIT list1 s;
          s1 = TAILQ_INSERT_HEAD list1 elm1 s0;
          s2 = TAILQ_INSERT_AFTER list1 elm1 elm2 s1;
          s3 = TAILQ_REMOVE list1 elm1 s2;
          s4 = TAILQ_REMOVE list1 elm2 s3
      in do { fwd \<leftarrow> TAILQ_FOREACH list1 s2;
              bwd \<leftarrow> TAILQ_FOREACH_REVERSE list1 s2;
              n \<leftarrow> TAILQ_NEXT elm1 s2;
              p \<leftarrow> TAILQ_PREV elm2 s2;
              Some ([empty_line (TAILQ_EMPTY list1 s0)] @ map (\<lambda>e. ''foreach:'' @ show_dec (dat e)) fwd @
                map (\<lambda>e. ''foreach_reverse:'' @ show_dec (dat e)) bwd @
                [''elm1 entry='' @ show_dec (dat n), ''elm2 pre='' @ show_dec (dat p), empty_line (TAILQ_EMPTY list1 s2),
                 empty_line (TAILQ_EMPTY list1 s4)]) })"

lemma demo_main_prints:
  "demo_main s = Some [''list1 is empty? YES.'', ''foreach:0'', ''foreach:1'', ''foreach_reverse:1'', ''foreach_reverse:0'',
     ''elm1 entry=1'', ''elm2 pre=0'', ''list1 is empty? NO.'', ''list1 is empty? YES.'']"
proof -
  let ?s0 = "TAILQ_INIT 0 s"
  let ?s1 = "TAILQ_INSERT_HEAD 0 0 ?s0"
  let ?s2 = "TAILQ_INSERT_AFTER 0 0 1 ?s1"
  let ?s4 = "TAILQ_REMOVE 0 1 (TAILQ_REMOVE 0 0 ?s2)"
  have q0: "tailq ?s0 0 []"
    by (rule tailq_init)
  have q1: "tailq ?s1 0 [0]"
    using tailq_insert_head [OF q0] by simp
  have q2: "tailq ?s2 0 [0, 1]"
    using tailq_insert_after [of ?s1 0 "[]" 0 "[]" 1] q1 by simp
  have q4: "tailq ?s4 0 []"
    using tailq_remove [of "TAILQ_REMOVE 0 0 ?s2" 0 "[]" 1 "[]"] tailq_remove [of ?s2 0 "[]" 0 "[1]"] q2 by simp
  have "TAILQ_NEXT 0 ?s2 = Some 1" "TAILQ_PREV 1 ?s2 = Some 0" "TAILQ_FOREACH 0 ?s2 = Some [0, 1]"
    "TAILQ_FOREACH_REVERSE 0 ?s2 = Some [1, 0]"
    using q2 tailq_prev [of ?s2 0 "[0]" 1 "[]"] tailq_foreach [OF q2] tailq_foreach_reverse [OF q2]
    by (auto simp: queue_defs TAILQ_NEXT_def)
  moreover have "TAILQ_EMPTY 0 ?s0" "\<not> TAILQ_EMPTY 0 ?s2" "TAILQ_EMPTY 0 ?s4"
    using q0 q2 q4 by (auto simp: queue_defs TAILQ_EMPTY_def)
  ultimately show ?thesis
    by (simp add: demo_main_def empty_line_def show_dec.simps digits_def)
qed

end
