(* ===== verification/CircleQ.thy ===== *)
theory CircleQ
  imports Queue
begin

text \<open>
  The circular queues (\<^verbatim>\<open>CIRCLEQ\<close>) of \<^verbatim>\<open>src/dataStructure/tailq/queue.h\<close>: heads and elements are linked in a ring of pointers in both
  directions, the pointer to the head serving as the end mark. A pointer is a head or an element, and the
  fields \<^verbatim>\<open>cqh_first\<close>, \<^verbatim>\<open>cqe_next\<close> and \<^verbatim>\<open>cqh_last\<close>, \<^verbatim>\<open>cqe_prev\<close> are two functions on pointers. The theory shows that the macros
  implement operations on sequences and fulfil the contract \<open>linked_queue\<close>.
\<close>

subsection \<open>Model\<close>

datatype cptr = CH nat | CE nat

record cstore =
  cnext :: "cptr \<Rightarrow> cptr"
  cprev :: "cptr \<Rightarrow> cptr"

definition set_cnext :: "cptr \<Rightarrow> cptr \<Rightarrow> cstore \<Rightarrow> cstore" where
  "set_cnext p q s = s\<lparr>cnext := (cnext s)(p := q)\<rparr>"

definition set_cprev :: "cptr \<Rightarrow> cptr \<Rightarrow> cstore \<Rightarrow> cstore" where
  "set_cprev p q s = s\<lparr>cprev := (cprev s)(p := q)\<rparr>"

lemma cstore_simps [simp]:
  "cnext (set_cnext p q s) = (cnext s)(p := q)" "cprev (set_cnext p q s) = cprev s"
  "cprev (set_cprev p q s) = (cprev s)(p := q)" "cnext (set_cprev p q s) = cnext s"
  by (simp_all add: set_cnext_def set_cprev_def)

definition CIRCLEQ_INIT :: "nat \<Rightarrow> cstore \<Rightarrow> cstore" where
  "CIRCLEQ_INIT h s = set_cprev (CH h) (CH h) (set_cnext (CH h) (CH h) s)"

definition CIRCLEQ_INSERT_AFTER :: "nat \<Rightarrow> nat \<Rightarrow> nat \<Rightarrow> cstore \<Rightarrow> cstore" where
  "CIRCLEQ_INSERT_AFTER h l e s =
     (let s = set_cnext (CE e) (cnext s (CE l)) s;
          s = set_cprev (CE e) (CE l) s;
          s = (if cnext s (CE l) = CH h then set_cprev (CH h) (CE e) s else set_cprev (cnext s (CE l)) (CE e) s)
      in set_cnext (CE l) (CE e) s)"

definition CIRCLEQ_INSERT_BEFORE :: "nat \<Rightarrow> nat \<Rightarrow> nat \<Rightarrow> cstore \<Rightarrow> cstore" where
  "CIRCLEQ_INSERT_BEFORE h l e s =
     (let s = set_cnext (CE e) (CE l) s;
          s = set_cprev (CE e) (cprev s (CE l)) s;
          s = (if cprev s (CE l) = CH h then set_cnext (CH h) (CE e) s else set_cnext (cprev s (CE l)) (CE e) s)
      in set_cprev (CE l) (CE e) s)"

definition CIRCLEQ_INSERT_HEAD :: "nat \<Rightarrow> nat \<Rightarrow> cstore \<Rightarrow> cstore" where
  "CIRCLEQ_INSERT_HEAD h e s =
     (let s = set_cnext (CE e) (cnext s (CH h)) s;
          s = set_cprev (CE e) (CH h) s;
          s = (if cprev s (CH h) = CH h then set_cprev (CH h) (CE e) s else set_cprev (cnext s (CH h)) (CE e) s)
      in set_cnext (CH h) (CE e) s)"

definition CIRCLEQ_INSERT_TAIL :: "nat \<Rightarrow> nat \<Rightarrow> cstore \<Rightarrow> cstore" where
  "CIRCLEQ_INSERT_TAIL h e s =
     (let s = set_cnext (CE e) (CH h) s;
          s = set_cprev (CE e) (cprev s (CH h)) s;
          s = (if cnext s (CH h) = CH h then set_cnext (CH h) (CE e) s else set_cnext (cprev s (CH h)) (CE e) s)
      in set_cprev (CH h) (CE e) s)"

definition CIRCLEQ_REMOVE :: "nat \<Rightarrow> nat \<Rightarrow> cstore \<Rightarrow> cstore" where
  "CIRCLEQ_REMOVE h e s =
     (let s = (if cnext s (CE e) = CH h then set_cprev (CH h) (cprev s (CE e)) s
               else set_cprev (cnext s (CE e)) (cprev s (CE e)) s)
      in if cprev s (CE e) = CH h then set_cnext (CH h) (cnext s (CE e)) s
         else set_cnext (cprev s (CE e)) (cnext s (CE e)) s)"

definition CIRCLEQ_EMPTY :: "nat \<Rightarrow> cstore \<Rightarrow> bool" where
  "CIRCLEQ_EMPTY h s = (cnext s (CH h) = CH h)"

definition CIRCLEQ_FIRST :: "nat \<Rightarrow> cstore \<Rightarrow> cptr" where
  "CIRCLEQ_FIRST h s = cnext s (CH h)"

definition CIRCLEQ_LAST :: "nat \<Rightarrow> cstore \<Rightarrow> cptr" where
  "CIRCLEQ_LAST h s = cprev s (CH h)"

definition CIRCLEQ_NEXT :: "nat \<Rightarrow> cstore \<Rightarrow> cptr" where
  "CIRCLEQ_NEXT e s = cnext s (CE e)"

definition CIRCLEQ_PREV :: "nat \<Rightarrow> cstore \<Rightarrow> cptr" where
  "CIRCLEQ_PREV e s = cprev s (CE e)"

definition CIRCLEQ_LOOP_NEXT :: "nat \<Rightarrow> nat \<Rightarrow> cstore \<Rightarrow> cptr" where
  "CIRCLEQ_LOOP_NEXT h e s = (if cnext s (CE e) = CH h then cnext s (CH h) else cnext s (CE e))"

definition CIRCLEQ_LOOP_PREV :: "nat \<Rightarrow> nat \<Rightarrow> cstore \<Rightarrow> cptr" where
  "CIRCLEQ_LOOP_PREV h e s = (if cprev s (CE e) = CH h then cprev s (CH h) else cprev s (CE e))"

text \<open>
  The loops follow one of the two fields from \<^verbatim>\<open>var\<close> until it is the head \<open>h\<close>; \<open>None\<close> when they do not end, or run into another
  head.
\<close>

partial_function (option) cloop :: "(cptr \<Rightarrow> cptr) \<Rightarrow> nat \<Rightarrow> cptr \<Rightarrow> nat list option" where
  "cloop step h var =
     (if var = CH h then Some []
      else case var of
        CH _ \<Rightarrow> None
      | CE x \<Rightarrow> do { xs \<leftarrow> cloop step h (step var); Some (x # xs) })"

definition CIRCLEQ_FOREACH :: "nat \<Rightarrow> cstore \<Rightarrow> nat list option" where
  "CIRCLEQ_FOREACH h s = cloop (cnext s) h (cnext s (CH h))"

definition CIRCLEQ_FOREACH_REVERSE :: "nat \<Rightarrow> cstore \<Rightarrow> nat list option" where
  "CIRCLEQ_FOREACH_REVERSE h s = cloop (cprev s) h (cprev s (CH h))"

subsection \<open>Rings\<close>

text \<open>From the pointer \<open>c\<close> through the elements \<open>xs\<close> to the pointer \<open>d\<close>, in both directions.\<close>

fun ring :: "cstore \<Rightarrow> cptr \<Rightarrow> nat list \<Rightarrow> cptr \<Rightarrow> bool" where
  "ring s c [] d \<longleftrightarrow> cnext s c = d \<and> cprev s d = c"
| "ring s c (x # xs) d \<longleftrightarrow> cnext s c = CE x \<and> cprev s (CE x) = c \<and> ring s (CE x) xs d"

definition circleq :: "cstore \<Rightarrow> nat \<Rightarrow> nat list \<Rightarrow> bool" where
  "circleq s h xs \<longleftrightarrow> distinct xs \<and> ring s (CH h) xs (CH h)"

lemma ring_append: "ring s c (xs @ x # ys) d \<longleftrightarrow> ring s c xs (CE x) \<and> ring s (CE x) ys d"
  by (induction xs arbitrary: c) auto

lemma ring_last: "ring s c xs d \<Longrightarrow> cprev s d = (if xs = [] then c else CE (last xs))"
  by (induction xs arbitrary: c) auto

lemma ring_first: "ring s c xs d \<Longrightarrow> cnext s c = (if xs = [] then d else CE (hd xs))"
  by (cases xs) auto

lemma cptr_mem [simp]: "CE e \<in> CE ` A \<longleftrightarrow> e \<in> A" "CH h \<notin> CE ` A"
  by auto

lemma ring_frame:
  "(\<And>p. p \<in> insert c (CE ` set xs) \<Longrightarrow> cnext s' p = cnext s p) \<Longrightarrow> (\<And>p. p \<in> insert d (CE ` set xs) \<Longrightarrow> cprev s' p = cprev s p) \<Longrightarrow>
     ring s' c xs d = ring s c xs d"
proof (induction xs arbitrary: c)
  case (Cons x xs)
  then have "ring s' (CE x) xs d = ring s (CE x) xs d"
    by (intro Cons.IH) auto
  then show ?case
    using Cons.prems by auto
qed auto

lemma ring_cnext_other [simp]: "p \<notin> insert c (CE ` set xs) \<Longrightarrow> ring (set_cnext p q s) c xs d = ring s c xs d"
  by (rule ring_frame) auto

lemma ring_cprev_other [simp]: "p \<notin> insert d (CE ` set xs) \<Longrightarrow> ring (set_cprev p q s) c xs d = ring s c xs d"
  by (rule ring_frame) auto

subsection \<open>Operations\<close>

lemma circleq_init: "circleq (CIRCLEQ_INIT h s) h []"
  by (simp add: circleq_def CIRCLEQ_INIT_def)

lemma ring_end_prev: "ring s c xs d \<Longrightarrow> xs \<noteq> [] \<Longrightarrow> cprev s d = CE (last xs)"
  using ring_last by fastforce

lemma circleq_insert_head: "circleq s h xs \<Longrightarrow> e \<notin> set xs \<Longrightarrow> circleq (CIRCLEQ_INSERT_HEAD h e s) h (e # xs)"
  using ring_last [of s "CH h" xs "CH h"] by (cases xs) (auto simp: circleq_def CIRCLEQ_INSERT_HEAD_def Let_def)

lemma circleq_insert_tail:
  assumes "circleq s h xs" "e \<notin> set xs"
  shows "circleq (CIRCLEQ_INSERT_TAIL h e s) h (xs @ [e])"
proof (cases xs rule: rev_cases)
  case Nil
  then show ?thesis
    using assms by (simp add: circleq_def CIRCLEQ_INSERT_TAIL_def Let_def)
next
  case (snoc ys y)
  then show ?thesis
    using assms ring_first [of s "CH h" xs "CH h"]
    by (auto simp: circleq_def CIRCLEQ_INSERT_TAIL_def Let_def ring_append split: if_splits)
qed

lemma circleq_insert_after:
  assumes "circleq s h (ys @ l # zs)" "e \<notin> set (ys @ l # zs)"
  shows "circleq (CIRCLEQ_INSERT_AFTER h l e s) h (ys @ l # e # zs)"
  using assms by (cases zs) (auto simp: circleq_def CIRCLEQ_INSERT_AFTER_def Let_def ring_append)

lemma circleq_insert_before:
  assumes "circleq s h (ys @ l # zs)" "e \<notin> set (ys @ l # zs)"
  shows "circleq (CIRCLEQ_INSERT_BEFORE h l e s) h (ys @ e # l # zs)"
  using assms by (cases ys rule: rev_cases) (auto simp: circleq_def CIRCLEQ_INSERT_BEFORE_def Let_def ring_append)

lemma circleq_remove:
  assumes "circleq s h (ys @ e # zs)"
  shows "circleq (CIRCLEQ_REMOVE h e s) h (ys @ zs)"
  using assms by (cases ys rule: rev_cases; cases zs) (auto simp: circleq_def CIRCLEQ_REMOVE_def Let_def ring_append)

subsection \<open>Loops and neighbours\<close>

lemma cloop_head [simp]: "cloop step h (CH h) = Some []"
  by (subst cloop.simps) simp

lemma cloop_elem [simp]: "cloop step h (CE x) = do { xs \<leftarrow> cloop step h (step (CE x)); Some (x # xs) }"
  by (subst cloop.simps) simp

lemma cloop_next: "ring s c xs (CH h) \<Longrightarrow> cloop (cnext s) h (cnext s c) = Some xs"
  by (induction xs arbitrary: c) auto

lemma cloop_prev: "ring s (CH h) xs d \<Longrightarrow> cloop (cprev s) h (cprev s d) = Some (rev xs)"
  by (induction xs arbitrary: d rule: rev_induct) (auto simp: ring_append)

lemma circleq_loops:
  assumes "circleq s h (ys @ e # zs)"
  shows "CIRCLEQ_LOOP_NEXT h e s = CE (hd (zs @ ys @ [e]))" "CIRCLEQ_LOOP_PREV h e s = CE (last (e # zs @ ys))"
proof -
  have r: "ring s (CH h) ys (CE e)" "ring s (CE e) zs (CH h)"
    using assms by (simp_all add: circleq_def ring_append)
  show "CIRCLEQ_LOOP_NEXT h e s = CE (hd (zs @ ys @ [e]))"
    using ring_first [OF r(1)] ring_first [OF r(2)] by (auto simp: CIRCLEQ_LOOP_NEXT_def hd_append)
  show "CIRCLEQ_LOOP_PREV h e s = CE (last (e # zs @ ys))"
    using ring_last [OF r(1)] ring_last [OF r(2)] by (auto simp: CIRCLEQ_LOOP_PREV_def last_append)
qed

subsection \<open>Other queues\<close>

definition ctouches :: "nat \<Rightarrow> nat set \<Rightarrow> cstore \<Rightarrow> cstore \<Rightarrow> bool" where
  "ctouches h es s s' \<longleftrightarrow> (\<forall>p. p \<noteq> CH h \<and> p \<notin> CE ` es \<longrightarrow> cnext s' p = cnext s p \<and> cprev s' p = cprev s p)"

lemma circleq_frame:
  assumes "ctouches h es s s'" "circleq s k xs" "k \<noteq> h" "set xs \<inter> es = {}"
  shows "circleq s' k xs"
proof -
  have "ring s' (CH k) xs (CH k) = ring s (CH k) xs (CH k)"
    using assms by (intro ring_frame) (auto simp: ctouches_def disjoint_iff)
  then show ?thesis
    using assms(2) by (simp add: circleq_def)
qed

lemma circleq_neighbours:
  assumes "circleq s h xs"
  shows "cprev s (CH h) \<in> insert (CH h) (CE ` set xs)" "cnext s (CH h) \<in> insert (CH h) (CE ` set xs)"
    "l \<in> set xs \<Longrightarrow> cprev s (CE l) \<in> insert (CH h) (CE ` set xs)" "l \<in> set xs \<Longrightarrow> cnext s (CE l) \<in> insert (CH h) (CE ` set xs)"
proof -
  note r = ring_last [of s "CH h" xs "CH h"] ring_first [of s "CH h" xs "CH h"]
  show "cprev s (CH h) \<in> insert (CH h) (CE ` set xs)" "cnext s (CH h) \<in> insert (CH h) (CE ` set xs)"
    using assms r by (auto simp: circleq_def)
  show "cprev s (CE l) \<in> insert (CH h) (CE ` set xs)" "cnext s (CE l) \<in> insert (CH h) (CE ` set xs)" if l: "l \<in> set xs"
  proof -
    obtain ys zs where x: "xs = ys @ l # zs"
      using l by (auto simp: in_set_conv_decomp)
    then have "ring s (CH h) ys (CE l)" "ring s (CE l) zs (CH h)"
      using assms by (simp_all add: circleq_def ring_append)
    then show "cprev s (CE l) \<in> insert (CH h) (CE ` set xs)" "cnext s (CE l) \<in> insert (CH h) (CE ` set xs)"
      using ring_last [of s "CH h" ys "CE l"] ring_first [of s "CE l" zs "CH h"] x by auto
  qed
qed

lemma circleq_touches:
  assumes "circleq s h xs"
  shows "ctouches h (insert e (set xs)) s (CIRCLEQ_INSERT_HEAD h e s)" "ctouches h (insert e (set xs)) s (CIRCLEQ_INSERT_TAIL h e s)"
    "l \<in> set xs \<Longrightarrow> ctouches h (insert e (set xs)) s (CIRCLEQ_INSERT_AFTER h l e s)"
    "l \<in> set xs \<Longrightarrow> ctouches h (insert e (set xs)) s (CIRCLEQ_INSERT_BEFORE h l e s)"
    "l \<in> set xs \<Longrightarrow> ctouches h (set xs) s (CIRCLEQ_REMOVE h l s)"
proof -
  note n = circleq_neighbours [OF assms]
  show "ctouches h (insert e (set xs)) s (CIRCLEQ_INSERT_HEAD h e s)" "ctouches h (insert e (set xs)) s (CIRCLEQ_INSERT_TAIL h e s)"
    using n(1,2) by (auto simp: ctouches_def CIRCLEQ_INSERT_HEAD_def CIRCLEQ_INSERT_TAIL_def Let_def)
  show "ctouches h (insert e (set xs)) s (CIRCLEQ_INSERT_AFTER h l e s)" "ctouches h (insert e (set xs)) s (CIRCLEQ_INSERT_BEFORE h l e s)"
    "ctouches h (set xs) s (CIRCLEQ_REMOVE h l s)" if "l \<in> set xs"
    using n(3,4) [OF that] that
    by (auto simp: ctouches_def CIRCLEQ_INSERT_AFTER_def CIRCLEQ_INSERT_BEFORE_def CIRCLEQ_REMOVE_def Let_def)
qed

lemma circleq_touches_init: "ctouches h {} s (CIRCLEQ_INIT h s)"
  by (simp add: ctouches_def CIRCLEQ_INIT_def)

definition cfirst :: "nat \<Rightarrow> cstore \<Rightarrow> nat option" where
  "cfirst h s = (case CIRCLEQ_FIRST h s of CE e \<Rightarrow> Some e | CH _ \<Rightarrow> None)"

interpretation cq: linked_queue circleq CIRCLEQ_INIT cfirst CIRCLEQ_INSERT_TAIL CIRCLEQ_REMOVE
proof
  show "circleq (CIRCLEQ_INIT h s) k ys" if "circleq s k ys" "k \<noteq> h" for h s k ys
    using circleq_frame [OF circleq_touches_init that(1,2)] by simp
  show "cfirst h s = Some x" if "circleq s h (x # xs)" for h s x xs
    using that by (simp add: circleq_def cfirst_def CIRCLEQ_FIRST_def)
  show "circleq (CIRCLEQ_INSERT_TAIL h e s) k ys"
    if "circleq s k ys" "k \<noteq> h" "circleq s h xs" "set ys \<inter> set xs = {}" "e \<notin> set ys" for s k ys h xs e
    using circleq_frame [OF circleq_touches(2) [OF that(3), of e] that(1,2)] that(4,5) by simp
  show "circleq (CIRCLEQ_REMOVE h x s) h xs" if "circleq s h (x # xs)" for h x s xs
    using circleq_remove [of s h "[]" x xs] that by simp
  show "circleq (CIRCLEQ_REMOVE h x s) k ys"
    if "circleq s k ys" "k \<noteq> h" "circleq s h (x # xs)" "set ys \<inter> set (x # xs) = {}" for s k ys h x xs
    using circleq_frame [OF circleq_touches(5) [OF that(3), of x] that(1,2)] that(4) by simp
qed (simp_all add: circleq_init circleq_insert_tail)



end
