(* ===== verification/ReadyLoop.thy ===== *)
theory ReadyLoop
  imports Prelude
begin

text \<open>
  The loop of the servers that wait in \<^verbatim>\<open>select\<close> or \<^verbatim>\<open>poll\<close>: a counter starts with the number of ready descriptors, the table of
  clients is searched, each ready entry is served, and the search stops when the counter has reached zero. The locale \<open>ready_loop\<close>
  is the contract under which the search serves every ready entry once, as if there were no counter.
  The second part has descriptor sets and tables of descriptors, in which a free entry is \<^verbatim>\<open>-1\<close>.
\<close>

subsection \<open>The search for ready entries\<close>

fun scan :: "(int \<Rightarrow> bool) \<Rightarrow> ('i \<Rightarrow> 's \<Rightarrow> bool) \<Rightarrow> ('i \<Rightarrow> 's \<Rightarrow> 'e + 's) \<Rightarrow> 'i list \<Rightarrow> int \<Rightarrow> 's \<Rightarrow> 'e + 's" where
  "scan stop rdy act [] n s = Inr s"
| "scan stop rdy act (i # is) n s =
     (if rdy i s then
        (case act i s of Inl e \<Rightarrow> Inl e | Inr s' \<Rightarrow> if stop (n - 1) then Inr s' else scan stop rdy act is (n - 1) s')
      else scan stop rdy act is n s)"

text \<open>The reference: serve these entries, one after the other.\<close>

fun serve :: "('i \<Rightarrow> 's \<Rightarrow> 'e + 's) \<Rightarrow> 'i list \<Rightarrow> 's \<Rightarrow> 'e + 's" where
  "serve act [] s = Inr s"
| "serve act (i # is) s = (case act i s of Inl e \<Rightarrow> Inl e | Inr s' \<Rightarrow> serve act is s')"

lemma scan_inv:
  assumes "scan stop rdy act is n s = Inr s'" "Q s"
    and step: "\<And>i s s'. i \<in> set is \<Longrightarrow> Q s \<Longrightarrow> rdy i s \<Longrightarrow> act i s = Inr s' \<Longrightarrow> Q s'"
  shows "Q s'"
  using assms
proof (induction "is" arbitrary: n s)
  case (Cons i "is")
  show ?case
  proof (cases "rdy i s")
    case True
    then obtain x where x: "act i s = Inr x"
      using Cons.prems(1) by (auto split: sum.splits)
    moreover have "Q x"
      using Cons.prems(3) [of i s x] Cons.prems(2) True x by simp
    moreover have "scan stop rdy act is (n - 1) x = Inr s' \<Longrightarrow> Q s'"
      using \<open>Q x\<close> Cons.prems(3) by (intro Cons.IH [of "n - 1" x]) auto
    ultimately show ?thesis
      using Cons.prems(1) True by (auto split: if_splits)
  next
    case False
    then show ?thesis
      using Cons.prems by (intro Cons.IH [of n s]) auto
  qed
qed simp

lemma serve_inv:
  assumes "serve act is s = Inr s'" "Q s"
    and step: "\<And>i s s'. i \<in> set is \<Longrightarrow> Q s \<Longrightarrow> act i s = Inr s' \<Longrightarrow> Q s'"
  shows "Q s'"
  using assms
proof (induction "is" arbitrary: s)
  case (Cons i "is")
  then obtain x where x: "act i s = Inr x" "serve act is x = Inr s'"
    by (auto split: sum.splits)
  show ?case
    using Cons.prems x by (intro Cons.IH [OF x(2)]) auto
qed simp

lemma serve_Inl: "serve act is s = Inl e \<Longrightarrow> \<exists>i s'. act i s' = Inl e"
  by (induction "is" arbitrary: s) (auto split: sum.splits)

text \<open>
  A measure that no action lowers, and that grows at an entry that is \<open>hot\<close>: an entry stays hot until its turn, so the measure
  grows over the whole loop.
\<close>

lemma serve_progress:
  fixes \<mu> :: "'s \<Rightarrow> int"
  assumes "serve act is s = Inr s'" "Q s" "j \<in> set is" "hot j s"
    and keep: "\<And>i s s'. i \<in> set is \<Longrightarrow> Q s \<Longrightarrow> act i s = Inr s' \<Longrightarrow> Q s' \<and> \<mu> s \<le> \<mu> s'"
    and other: "\<And>i s s'. i \<in> set is \<Longrightarrow> Q s \<Longrightarrow> act i s = Inr s' \<Longrightarrow> i \<noteq> j \<Longrightarrow> hot j s \<Longrightarrow> hot j s'"
    and grows: "\<And>s s'. Q s \<Longrightarrow> act j s = Inr s' \<Longrightarrow> hot j s \<Longrightarrow> \<mu> s < \<mu> s'"
  shows "\<mu> s < \<mu> s'"
  using assms(1-6)
proof (induction "is" arbitrary: s)
  case (Cons i "is")
  obtain x where x: "act i s = Inr x" "serve act is x = Inr s'"
    using Cons.prems(1) by (auto split: sum.splits)
  have Q: "Q x" "\<mu> s \<le> \<mu> x"
    using Cons.prems(2,5) x(1) by auto
  show ?case
  proof (cases "i = j")
    case True
    have "Q s' \<and> \<mu> x \<le> \<mu> s'"
    proof (rule serve_inv [OF x(2)])
      show "Q y' \<and> \<mu> x \<le> \<mu> y'" if "k \<in> set is" "Q y \<and> \<mu> x \<le> \<mu> y" "act k y = Inr y'" for k y y'
        using Cons.prems(5) [of k y y'] that by auto
    qed (use Q in simp)
    moreover have "\<mu> s < \<mu> x"
      using grows [of s x] Cons.prems(2,4) x(1) True by simp
    ultimately show ?thesis
      by simp
  next
    case False
    then have later: "j \<in> set is" "hot j x"
      using Cons.prems(3) Cons.prems(6) [of i s x] Cons.prems(2,4) x(1) by auto
    have "\<mu> x < \<mu> s'"
    proof (rule Cons.IH [OF x(2) Q(1) later])
      show "Q y' \<and> \<mu> y \<le> \<mu> y'" if "k \<in> set is" "Q y" "act k y = Inr y'" for k y y'
        using Cons.prems(5) [of k y y'] that by simp
      show "hot j y'" if "k \<in> set is" "Q y" "act k y = Inr y'" "k \<noteq> j" "hot j y" for k y y'
        using Cons.prems(6) [of k y y'] that by simp
    qed
    then show ?thesis
      using Q(2) by simp
  qed
qed simp

lemma scan_Inl: "scan stop rdy act is n s = Inl e \<Longrightarrow> \<exists>i s'. act i s' = Inl e"
  by (induction "is" arbitrary: n s) (auto split: if_splits sum.splits)

locale ready_loop =
  fixes stop :: "int \<Rightarrow> bool" and rdy :: "'i \<Rightarrow> 's \<Rightarrow> bool" and act :: "'i \<Rightarrow> 's \<Rightarrow> 'e + 's"
  assumes stop_iff: "0 \<le> n \<Longrightarrow> stop n \<longleftrightarrow> n = 0"
    and act_local: "act i s = Inr s' \<Longrightarrow> j \<noteq> i \<Longrightarrow> rdy j s' = rdy j s"
begin

lemma still_ready: "act i s = Inr s' \<Longrightarrow> i \<notin> set is \<Longrightarrow> filter (\<lambda>j. rdy j s') is = filter (\<lambda>j. rdy j s) is"
  by (intro filter_cong refl) (metis act_local)

lemma scan_serves:
  "distinct is \<Longrightarrow> int (length (filter (\<lambda>i. rdy i s) is)) \<le> n \<Longrightarrow>
    scan stop rdy act is n s = serve act (filter (\<lambda>i. rdy i s) is) s"
proof (induction "is" arbitrary: n s)
  case (Cons i "is")
  show ?case
  proof (cases "rdy i s")
    case True
    show ?thesis
    proof (cases "act i s")
      case (Inr s')
      have same: "filter (\<lambda>j. rdy j s') is = filter (\<lambda>j. rdy j s) is"
        using still_ready [OF Inr] Cons.prems(1) by simp
      have "int (length (filter (\<lambda>j. rdy j s') is)) \<le> n - 1" "0 \<le> n - 1"
        using Cons.prems(2) True unfolding same by auto
      then have "scan stop rdy act is (n - 1) s' = serve act (filter (\<lambda>j. rdy j s') is) s'"
        and "stop (n - 1) \<Longrightarrow> filter (\<lambda>j. rdy j s') is = []"
        using Cons.IH [of s' "n - 1"] Cons.prems(1) stop_iff [of "n - 1"] by auto
      then show ?thesis
        using True Inr unfolding same by auto
    qed (simp add: True)
  qed (use Cons in simp)
qed simp

text \<open>When the counter is exact, what follows the last ready entry is never looked at.\<close>

lemma scan_stops:
  "distinct is \<Longrightarrow> int (length (filter (\<lambda>i. rdy i s) is)) = n \<Longrightarrow> 0 < n \<Longrightarrow>
    scan stop rdy act (is @ js) n s = serve act (filter (\<lambda>i. rdy i s) is) s"
proof (induction "is" arbitrary: n s)
  case (Cons i "is")
  show ?case
  proof (cases "rdy i s")
    case True
    show ?thesis
    proof (cases "act i s")
      case (Inr s')
      have same: "filter (\<lambda>j. rdy j s') is = filter (\<lambda>j. rdy j s) is"
        using still_ready [OF Inr] Cons.prems(1) by simp
      have "int (length (filter (\<lambda>j. rdy j s') is)) = n - 1" "0 \<le> n - 1"
        using Cons.prems(2) True unfolding same by auto
      then show ?thesis
        using Cons.IH [of s' "n - 1"] Cons.prems(1) stop_iff [of "n - 1"] True Inr unfolding same by auto
    qed (simp add: True)
  next
    case False
    then show ?thesis
      using Cons.IH [of s n] Cons.prems by simp
  qed
qed simp

end

subsection \<open>Descriptor sets and tables\<close>

definition FD_SETSIZE :: int where
  "FD_SETSIZE = 1024"

text \<open>Setting a bit outside the set is an access outside the array.\<close>

definition FD_SET :: "int \<Rightarrow> int set \<Rightarrow> int set option" where
  "FD_SET fd S = (if 0 \<le> fd \<and> fd < FD_SETSIZE then Some (insert fd S) else None)"

text \<open>The first free entry of a table, from entry \<open>k\<close> on.\<close>

fun free_slot :: "nat \<Rightarrow> int list \<Rightarrow> nat option" where
  "free_slot k [] = None"
| "free_slot k (c # cs) = (if c < 0 then Some k else free_slot (k + 1) cs)"

lemma free_slot_Some: "free_slot k cs = Some i \<Longrightarrow> k \<le> i \<and> i < k + length cs \<and> cs ! (i - k) < 0"
  by (induction cs arbitrary: k) (fastforce split: if_splits simp: nth_Cons' Suc_diff_le)+

lemma free_slot_None: "free_slot k cs = None \<longleftrightarrow> (\<forall>c \<in> set cs. 0 \<le> c)"
  by (induction cs arbitrary: k) auto

text \<open>The descriptors in a table, in its order.\<close>

definition in_use :: "int list \<Rightarrow> int list" where
  "in_use cs = filter (\<lambda>c. 0 \<le> c) cs"

lemma in_use_split: "i < length cs \<Longrightarrow> in_use cs = in_use (take i cs) @ in_use [cs ! i] @ in_use (drop (Suc i) cs)"
  by (subst id_take_nth_drop [of i cs]) (simp_all add: in_use_def)

lemma in_use_update:
  "i < length cs \<Longrightarrow> in_use (cs[i := c]) = in_use (take i cs) @ in_use [c] @ in_use (drop (Suc i) cs)"
  by (simp add: upd_conv_take_nth_drop in_use_def)

lemma set_in_use: "set (in_use cs) = {c \<in> set cs. 0 \<le> c}"
  by (auto simp: in_use_def)

lemma in_use_add:
  assumes "i < length cs" "cs ! i < 0" "0 \<le> c" "distinct (in_use cs)" "c \<notin> set cs"
  shows "distinct (in_use (cs[i := c]))" and "set (in_use (cs[i := c])) = insert c (set (in_use cs))"
  using assms in_use_split [OF assms(1)] in_use_update [OF assms(1), of c]
  by (auto simp: in_use_def dest: in_set_takeD in_set_dropD)

lemma in_use_drop:
  assumes "i < length cs" "0 \<le> cs ! i" "distinct (in_use cs)"
  shows "distinct (in_use (cs[i := - 1]))" and "set (in_use (cs[i := - 1])) = set (in_use cs) - {cs ! i}"
  using assms in_use_split [OF assms(1)] in_use_update [OF assms(1), of "- 1"]
  by (auto simp: in_use_def)

text \<open>
  A table with as many entries as there are descriptors below \<open>n\<close> is not full when it holds such descriptors only, each
  at most once, and one of them is elsewhere.
\<close>

lemma table_not_full:
  assumes "distinct (in_use cs)" "set (in_use cs) \<subseteq> {0..<int n} - {l}" "l \<in> {0..<int n}" "length cs = n"
  shows "free_slot k cs \<noteq> None"
proof
  assume "free_slot k cs = None"
  then have "in_use cs = cs"
    by (simp add: free_slot_None in_use_def)
  then have "n = card (set (in_use cs))"
    using assms(1,4) distinct_card by fastforce
  also have "\<dots> \<le> card ({0..<int n} - {l})"
    using assms(2) by (intro card_mono) auto
  finally show False
    using assms(3) by auto
qed

subsection \<open>The table of a server with \<open>select\<close>\<close>

text \<open>
  A table \<open>cs\<close> with its largest index, the largest descriptor and the descriptor set: the set holds the fixed descriptors \<open>F\<close> and those of
  the table, each of which is there once, at an index up to \<open>mi\<close>, and small enough for \<^verbatim>\<open>select\<close>.
\<close>

definition table_inv :: "int set \<Rightarrow> int list \<Rightarrow> int \<Rightarrow> int \<Rightarrow> int set \<Rightarrow> bool" where
  "table_inv F cs mi mf S \<longleftrightarrow> length cs = nat FD_SETSIZE \<and> distinct (in_use cs) \<and> F \<inter> set cs = {} \<and> F \<noteq> {} \<and>
     S = F \<union> set (in_use cs) \<and> S \<subseteq> {0..<FD_SETSIZE} \<and> (\<forall>fd \<in> S. fd \<le> mf) \<and>
     - 1 \<le> mi \<and> (\<forall>i < length cs. 0 \<le> cs ! i \<longrightarrow> int i \<le> mi) \<and> mi < FD_SETSIZE"

lemma table_inv_init:
  "F \<noteq> {} \<Longrightarrow> F \<subseteq> {0..<FD_SETSIZE} \<Longrightarrow> \<forall>fd \<in> F. fd \<le> mf \<Longrightarrow> table_inv F (replicate (nat FD_SETSIZE) (- 1)) (- 1) mf F"
  by (auto simp: table_inv_def in_use_def FD_SETSIZE_def)

lemma table_has_slot:
  assumes "table_inv F cs mi mf S"
  shows "\<exists>i. free_slot 0 cs = Some i \<and> i < length cs \<and> cs ! i < 0"
proof -
  obtain l where "l \<in> F"
    using assms by (auto simp: table_inv_def)
  then have "free_slot 0 cs \<noteq> None"
    using assms by (intro table_not_full [where n = "nat FD_SETSIZE" and l = l]) (auto simp: table_inv_def set_in_use FD_SETSIZE_def)
  then show ?thesis
    using free_slot_Some by fastforce
qed

lemma table_add:
  assumes inv: "table_inv F cs mi mf S" and i: "i < length cs" "cs ! i < 0" and c: "c \<notin> S" "0 \<le> c" "c < FD_SETSIZE"
  shows "table_inv F (cs[i := c]) (max mi (int i)) (max mf c) (insert c S)"
proof -
  have c': "c \<notin> set cs" "c \<notin> F"
    using inv c by (auto simp: table_inv_def set_in_use)
  have "distinct (in_use (cs[i := c]))" "set (in_use (cs[i := c])) = insert c (set (in_use cs))"
    using in_use_add [of i cs c] i c c' inv by (auto simp: table_inv_def)
  moreover have "F \<inter> set (cs[i := c]) = {}"
    using inv c' set_update_subset_insert [of cs i c] by (auto simp: table_inv_def)
  moreover have "0 \<le> cs[i := c] ! k \<Longrightarrow> k < length cs \<Longrightarrow> int k \<le> max mi (int i)" for k
    using inv by (cases "k = i") (auto simp: table_inv_def)
  ultimately show ?thesis
    using inv i c by (auto simp: table_inv_def intro: max.coboundedI1)
qed

lemma table_drop:
  assumes inv: "table_inv F cs mi mf S" and i: "i < length cs" "0 \<le> cs ! i"
  shows "table_inv F (cs[i := - 1]) mi mf (S - {cs ! i})"
proof -
  have "distinct (in_use (cs[i := - 1]))" "set (in_use (cs[i := - 1])) = set (in_use cs) - {cs ! i}"
    using in_use_drop i inv by (auto simp: table_inv_def)
  moreover have "0 \<le> cs[i := - 1] ! k \<Longrightarrow> 0 \<le> cs ! k" for k
    using i by (cases "k = i") auto
  moreover have "cs ! i \<notin> F"
    using inv i(1) nth_mem by (fastforce simp: table_inv_def)
  moreover have "- 1 \<notin> F"
    using inv by (auto simp: table_inv_def)
  then have "F \<inter> set (cs[i := - 1]) = {}"
    using inv set_update_subset_insert [of cs i "- 1"] by (auto simp: table_inv_def)
  ultimately show ?thesis
    using inv by (auto simp: table_inv_def)
qed

lemma filter_add:
  "i < length cs \<Longrightarrow> cs ! i < 0 \<Longrightarrow> filter (\<lambda>fd. P fd \<and> fd \<noteq> c) (in_use (cs[i := c])) = filter (\<lambda>fd. P fd \<and> fd \<noteq> c) (in_use cs)"
  using in_use_split [of i cs] in_use_update [of i cs c] by (simp add: in_use_def)

lemma table_select: "table_inv F cs mi mf S \<Longrightarrow> {fd \<in> S. fd \<le> mf \<and> fd \<in> R} = S \<inter> R"
  by (auto simp: table_inv_def)

subsection \<open>Serving the entries of a table\<close>

text \<open>
  The contract of serving one entry: an answer is logged, and the entry is kept or becomes free. Then serving
  several entries logs an answer for each and frees just the entries whose service closes them.
\<close>

locale served_table =
  fixes act :: "nat \<Rightarrow> 's \<Rightarrow> 'e + 's" and table :: "'s \<Rightarrow> int list" and log :: "'s \<Rightarrow> 'o list" and inv :: "'s \<Rightarrow> bool"
    and ok closes :: "int \<Rightarrow> bool" and ans :: "int \<Rightarrow> 'o"
  assumes act_ok: "inv s \<Longrightarrow> i < length (table s) \<Longrightarrow> 0 \<le> table s ! i \<Longrightarrow> ok (table s ! i) \<Longrightarrow>
      \<exists>s'. act i s = Inr s' \<and> inv s' \<and> log s' = log s @ [ans (table s ! i)] \<and>
        table s' = (if closes (table s ! i) then (table s)[i := - 1] else table s)"
    and table_distinct: "inv s \<Longrightarrow> distinct (in_use (table s))"
begin

lemma serve_ok:
  assumes "inv s" "distinct js" "\<forall>j \<in> set js. j < length (table s) \<and> 0 \<le> table s ! j \<and> ok (table s ! j)"
  shows "\<exists>s'. serve act js s = Inr s' \<and> inv s' \<and> log s' = log s @ map (\<lambda>j. ans (table s ! j)) js \<and>
    set (in_use (table s')) = set (in_use (table s)) - {fd. fd \<in> (\<lambda>j. table s ! j) ` set js \<and> closes fd}"
  using assms
proof (induction js arbitrary: s)
  case (Cons j js)
  let ?fd = "table s ! j"
  obtain s1 where s1: "act j s = Inr s1" "inv s1" "log s1 = log s @ [ans ?fd]"
    "table s1 = (if closes ?fd then (table s)[j := - 1] else table s)"
    using act_ok Cons.prems by force
  have k: "table s1 ! k = table s ! k" if "k \<in> set js" for k
    using s1(4) Cons.prems(2) that by (cases "k = j") auto
  then have img: "(\<lambda>j. table s1 ! j) ` set js = (\<lambda>j. table s ! j) ` set js"
    by (auto simp: image_def)
  have "length (table s1) = length (table s)"
    by (simp add: s1(4))
  then obtain s' where "serve act js s1 = Inr s'" "inv s'" "log s' = log s1 @ map (\<lambda>j. ans (table s1 ! j)) js"
    "set (in_use (table s')) = set (in_use (table s1)) - {fd. fd \<in> (\<lambda>j. table s ! j) ` set js \<and> closes fd}"
    using Cons.IH [OF s1(2)] Cons.prems k unfolding img by auto
  moreover have "set (in_use (table s1)) = set (in_use (table s)) - {fd. fd = ?fd \<and> closes fd}"
    using in_use_drop(2) [of j "table s"] table_distinct [OF Cons.prems(1)] Cons.prems(3) s1(4) by auto
  ultimately show ?case
    using s1 k by auto
qed simp

end

text \<open>The entries that the search meets are the descriptors with a property, in the order of the table.\<close>

lemma ready_entries:
  assumes "\<forall>i < length cs. 0 \<le> cs ! i \<longrightarrow> P (cs ! i) \<longrightarrow> i < m" "m \<le> length cs"
  shows "map (\<lambda>i. cs ! i) (filter (\<lambda>i. 0 \<le> cs ! i \<and> P (cs ! i)) [0..<m]) = filter P (in_use cs)"
proof -
  have "filter (\<lambda>i. 0 \<le> cs ! i \<and> P (cs ! i)) [m..<length cs] = []"
    using assms(1) by (auto simp: filter_empty_conv)
  then have "filter (\<lambda>i. 0 \<le> cs ! i \<and> P (cs ! i)) [0..<m] = filter (\<lambda>i. 0 \<le> cs ! i \<and> P (cs ! i)) [0..<length cs]"
    using upt_add_eq_append [of 0 m "length cs - m"] assms(2) by simp
  moreover have "map (\<lambda>i. cs ! i) (filter (\<lambda>i. Q (cs ! i)) [0..<length cs]) = filter Q cs" for Q
    using filter_map [of Q "\<lambda>i. cs ! i" "[0..<length cs]"] by (simp add: comp_def map_nth)
  ultimately show ?thesis
    by (simp add: in_use_def conj_commute)
qed

end
