(* ===== verification/SelectServer.thy ===== *)
theory SelectServer
  imports ReadyLoop StreamIo
begin

text \<open>
  The echo servers that serve many connections in one process: with \<^verbatim>\<open>select\<close> (\<^verbatim>\<open>src/unixNetV1/tcpcliserv/tcpservselect01.c\<close>) and
  with \<^verbatim>\<open>poll\<close> (\<^verbatim>\<open>src/unixNetV1/tcpcliserv/tcpservpoll01.c\<close>). One pass of the endless loop is a function of what the system reports in it.
  Both loops instantiate \<open>ready_loop\<close>. The theory shows what a pass does to the table, the descriptor set and the
  connections, that the test for too many clients of the first server is never true, and that the second server can read
  from a connection that was not reported.
\<close>

subsection \<open>The server with \<open>select\<close>\<close>

datatype srv_exit = Too_many | Fd_range | Sys_error

datatype srv_io = Accepted int | Echoed int "byte list" | Closed int

record srv =
  client :: "int list"
  maxi :: int
  maxfd :: int
  allset :: "int set"
  io :: "srv_io list"

text \<open>What one pass sees: the ready descriptors, the result of \<^verbatim>\<open>accept\<close>, what the reads give, and whether the writes succeed.\<close>

record srv_event =
  ready :: "int set"
  accepts :: "int res"
  reads :: "int \<Rightarrow> byte list res"
  writes :: "int \<Rightarrow> bool"

definition srv_init :: "int \<Rightarrow> srv_exit + srv" where
  "srv_init listenfd = (case FD_SET listenfd {} of None \<Rightarrow> Inl Fd_range
     | Some S \<Rightarrow> Inr \<lparr>client = replicate (nat FD_SETSIZE) (- 1), maxi = - 1, maxfd = listenfd, allset = S, io = []\<rparr>)"

definition srv_accept :: "srv_event \<Rightarrow> srv \<Rightarrow> srv_exit + srv" where
  "srv_accept ev s = (case accepts ev of Inl e \<Rightarrow> Inl Sys_error | Inr connfd \<Rightarrow>
     (case free_slot 0 (client s) of None \<Rightarrow> Inl Too_many
      | Some i \<Rightarrow> (case FD_SET connfd (allset s) of None \<Rightarrow> Inl Fd_range
          | Some S \<Rightarrow> Inr (s\<lparr>client := (client s)[i := connfd], allset := S, maxfd := max (maxfd s) connfd,
              maxi := max (maxi s) (int i), io := io s @ [Accepted connfd]\<rparr>))))"

definition srv_client :: "srv_event \<Rightarrow> nat \<Rightarrow> srv \<Rightarrow> srv_exit + srv" where
  "srv_client ev i s = (let sockfd = client s ! i in
     case reads ev sockfd of Inl e \<Rightarrow> Inl Sys_error | Inr bs \<Rightarrow>
       (let buf = take MAXLINE bs in
        if buf = [] then Inr (s\<lparr>allset := allset s - {sockfd}, client := (client s)[i := - 1], io := io s @ [Closed sockfd]\<rparr>)
        else if writes ev sockfd then Inr (s\<lparr>io := io s @ [Echoed sockfd buf]\<rparr>) else Inl Sys_error))"

definition srv_ready :: "int set \<Rightarrow> nat \<Rightarrow> srv \<Rightarrow> bool" where
  "srv_ready rset i s = (0 \<le> client s ! i \<and> client s ! i \<in> rset)"

text \<open>\<^verbatim>\<open>select\<close> looks at the descriptors up to \<^verbatim>\<open>maxfd\<close> that are in the set.\<close>

definition srv_select :: "srv_event \<Rightarrow> srv \<Rightarrow> int set" where
  "srv_select ev s = {fd \<in> allset s. fd \<le> maxfd s \<and> fd \<in> ready ev}"

definition srv_loop :: "srv_event \<Rightarrow> int set \<Rightarrow> int \<Rightarrow> srv \<Rightarrow> srv_exit + srv" where
  "srv_loop ev rset nready s = scan (\<lambda>n. n \<le> 0) (srv_ready rset) (srv_client ev) [0..<nat (maxi s + 1)] nready s"

definition srv_pass :: "int \<Rightarrow> srv_event \<Rightarrow> srv \<Rightarrow> srv_exit + srv" where
  "srv_pass listenfd ev s =
     (let rset = srv_select ev s; nready = int (card rset) in
      if listenfd \<in> rset then
        (case srv_accept ev s of Inl e \<Rightarrow> Inl e | Inr s1 \<Rightarrow>
           if nready - 1 \<le> 0 then Inr s1 else srv_loop ev rset (nready - 1) s1)
      else srv_loop ev rset nready s)"

subsection \<open>What a pass does\<close>

interpretation sel: ready_loop "\<lambda>n. n \<le> 0" "srv_ready rset" "srv_client ev" for rset ev
  by unfold_locales (auto simp: srv_client_def srv_ready_def Let_def split: sum.splits if_splits)

definition srv_inv :: "int \<Rightarrow> srv \<Rightarrow> bool" where
  "srv_inv l s \<longleftrightarrow> table_inv {l} (client s) (maxi s) (maxfd s) (allset s)"

text \<open>The connections of the server, and what it does for one of them that is ready.\<close>

definition conns :: "srv \<Rightarrow> int set" where
  "conns s = set (in_use (client s))"

definition at_end :: "srv_event \<Rightarrow> int \<Rightarrow> bool" where
  "at_end ev fd \<longleftrightarrow> reads ev fd = Inr []"

definition answer :: "srv_event \<Rightarrow> int \<Rightarrow> srv_io" where
  "answer ev fd = (case reads ev fd of Inr bs \<Rightarrow> if bs = [] then Closed fd else Echoed fd (take MAXLINE bs) | Inl e \<Rightarrow> Closed fd)"

definition no_error :: "srv_event \<Rightarrow> int set \<Rightarrow> bool" where
  "no_error ev fds \<longleftrightarrow> (\<forall>fd \<in> fds. (\<exists>bs. reads ev fd = Inr bs) \<and> writes ev fd)"

lemma srv_init_inv: "0 \<le> l \<Longrightarrow> l < FD_SETSIZE \<Longrightarrow> \<exists>s. srv_init l = Inr s \<and> srv_inv l s \<and> conns s = {} \<and> io s = []"
  using table_inv_init [of "{l}" l] by (auto simp: srv_init_def FD_SET_def srv_inv_def conns_def in_use_def)

lemma srv_inv_io [simp]: "srv_inv l (s\<lparr>io := x\<rparr>) = srv_inv l s"
  by (simp add: srv_inv_def)

lemma MAXLINE_pos [simp]: "MAXLINE \<noteq> 0" "0 < MAXLINE"
  by (simp_all add: MAXLINE_def)

lemma srv_client_ok:
  assumes "srv_inv l s" "i < length (client s)" "0 \<le> client s ! i" "no_error ev {client s ! i}"
  shows "\<exists>s'. srv_client ev i s = Inr s' \<and> srv_inv l s' \<and> io s' = io s @ [answer ev (client s ! i)] \<and>
    client s' = (if at_end ev (client s ! i) then (client s)[i := - 1] else client s)"
proof -
  obtain bs where bs: "reads ev (client s ! i) = Inr bs" "writes ev (client s ! i)"
    using assms(4) by (auto simp: no_error_def)
  show ?thesis
  proof (cases "bs = []")
    case True
    have "srv_inv l (s\<lparr>allset := allset s - {client s ! i}, client := (client s)[i := - 1], io := io s @ [Closed (client s ! i)]\<rparr>)"
      using table_drop assms(1-3) by (simp add: srv_inv_def)
    then show ?thesis
      using bs True by (simp add: srv_client_def answer_def at_end_def Let_def)
  next
    case False
    then show ?thesis
      using bs assms(1) by (simp add: srv_client_def answer_def at_end_def Let_def)
  qed
qed

interpretation sel_table: served_table "srv_client ev" client io "srv_inv l" "\<lambda>fd. no_error ev {fd}" "at_end ev" "answer ev" for ev l
  by unfold_locales (blast intro: srv_client_ok, simp add: srv_inv_def table_inv_def)

lemma srv_has_slot: "srv_inv l s \<Longrightarrow> \<exists>i. free_slot 0 (client s) = Some i \<and> i < length (client s) \<and> client s ! i < 0"
  unfolding srv_inv_def by (rule table_has_slot)

lemma srv_loop_ok:
  assumes inv: "srv_inv l s" and n: "int (length (filter (\<lambda>fd. fd \<in> R) (in_use (client s)))) \<le> n"
    and ok: "no_error ev (conns s \<inter> R)"
  shows "\<exists>s'. srv_loop ev R n s = Inr s' \<and> srv_inv l s' \<and>
    io s' = io s @ map (answer ev) (filter (\<lambda>fd. fd \<in> R) (in_use (client s))) \<and>
    conns s' = conns s - {fd \<in> R. at_end ev fd}"
proof -
  let ?m = "nat (maxi s + 1)"
  define js where "js = filter (\<lambda>i. srv_ready R i s) [0..<?m]"
  have m: "\<forall>i < length (client s). 0 \<le> client s ! i \<longrightarrow> i < ?m" "?m \<le> length (client s)"
    using inv by (auto simp: srv_inv_def table_inv_def)
  have js: "map (\<lambda>i. client s ! i) js = filter (\<lambda>fd. fd \<in> R) (in_use (client s))"
    using ready_entries [of "client s" "\<lambda>fd. fd \<in> R" ?m] m by (simp add: js_def srv_ready_def)
  then have loop: "srv_loop ev R n s = serve (srv_client ev) js s"
    using sel.scan_serves [of "[0..<?m]" R s n ev] n unfolding srv_loop_def js_def by (simp flip: length_map [of "\<lambda>i. client s ! i"])
  have img: "(\<lambda>i. client s ! i) ` set js = conns s \<inter> R"
    using arg_cong [OF js, of set] by (auto simp: conns_def)
  have "no_error ev {client s ! j}" if "j \<in> set js" for j
    using ok imageI [OF that, of "\<lambda>i. client s ! i"] unfolding img by (simp add: no_error_def)
  then have "\<forall>j \<in> set js. j < length (client s) \<and> 0 \<le> client s ! j \<and> no_error ev {client s ! j}" "distinct js"
    using m by (auto simp: js_def srv_ready_def)
  moreover have "map (\<lambda>j. answer ev (client s ! j)) js = map (answer ev) (filter (\<lambda>fd. fd \<in> R) (in_use (client s)))"
    by (simp flip: js)
  moreover have "conns s - {fd. fd \<in> conns s \<inter> R \<and> at_end ev fd} = conns s - {fd \<in> R. at_end ev fd}"
    by blast
  ultimately show ?thesis
    using sel_table.serve_ok [OF inv, of js ev] unfolding loop img conns_def by simp
qed

lemma srv_accept_ok:
  assumes inv: "srv_inv l s" and c: "accepts ev = Inr c" "c \<notin> allset s" "0 \<le> c" "c < FD_SETSIZE"
  shows "\<exists>s'. srv_accept ev s = Inr s' \<and> srv_inv l s' \<and> io s' = io s @ [Accepted c] \<and> conns s' = insert c (conns s) \<and>
    filter (\<lambda>fd. fd \<in> R \<and> fd \<noteq> c) (in_use (client s')) = filter (\<lambda>fd. fd \<in> R \<and> fd \<noteq> c) (in_use (client s))"
proof -
  obtain i where i: "free_slot 0 (client s) = Some i" "i < length (client s)" "client s ! i < 0"
    using srv_has_slot [OF inv] by auto
  have "set (in_use ((client s)[i := c])) = insert c (set (in_use (client s)))"
    using in_use_add(2) [OF i(2,3) c(3)] inv c(2) by (auto simp: srv_inv_def table_inv_def set_in_use c(3))
  then show ?thesis
    using table_add [OF _ i(2,3) c(2-4)] inv i filter_add [OF i(2,3)] c by (auto simp: srv_accept_def FD_SET_def conns_def srv_inv_def)
qed

lemma srv_select_inv: "srv_inv l s \<Longrightarrow> srv_select ev s = allset s \<inter> ready ev"
  using table_select by (auto simp: srv_select_def srv_inv_def)

text \<open>
  C15. A pass of the server with \<^verbatim>\<open>select\<close> serves every connection that is ready exactly once, in the order of the table, although
  the search stops when the counter of ready descriptors is zero: it echoes the bytes read, or closes the connection at the end of
  its input. A new connection is added and not read in the same pass, no other connection changes, and the table, the
  descriptor set, \<^verbatim>\<open>maxi\<close> and \<^verbatim>\<open>maxfd\<close> stay consistent.
\<close>

theorem select_server_pass:
  assumes inv: "srv_inv l s" and ok: "no_error ev (conns s \<inter> ready ev)"
    and c: "accepts ev = Inr c" "c \<notin> allset s" "0 \<le> c" "c < FD_SETSIZE"
  shows "\<exists>s'. srv_pass l ev s = Inr s' \<and> srv_inv l s' \<and>
    conns s' = (if l \<in> ready ev then {c} else {}) \<union> (conns s - {fd \<in> ready ev. at_end ev fd}) \<and>
    io s' = io s @ (if l \<in> ready ev then [Accepted c] else []) @ map (answer ev) (filter (\<lambda>fd. fd \<in> ready ev) (in_use (client s)))"
proof -
  let ?R = "allset s \<inter> ready ev"
  let ?fds = "filter (\<lambda>fd. fd \<in> ready ev) (in_use (client s))"
  have s: "distinct (in_use (client s))" "allset s = insert l (conns s)" "l \<notin> conns s"
    using inv by (auto simp: srv_inv_def table_inv_def conns_def set_in_use)
  have fds: "filter (\<lambda>fd. fd \<in> ?R) (in_use (client s)) = ?fds"
    using s(2) by (auto simp: conns_def intro!: filter_cong)
  have nc: "(fd \<in> ?R \<and> fd \<noteq> c) = (fd \<in> ?R)" for fd
    using c(2) by auto
  have "?R = (if l \<in> ready ev then insert l (set ?fds) else set ?fds)" "l \<notin> set ?fds"
    using s by (auto simp: conns_def)
  moreover have "card (set ?fds) = length ?fds"
    using s(1) by (intro distinct_card) simp
  ultimately have n: "int (card ?R) = int (length ?fds) + of_bool (l \<in> ready ev)"
    by (simp del: set_filter)
  show ?thesis
  proof (cases "l \<in> ready ev")
    case False
    then show ?thesis
      using srv_loop_ok [OF inv, of ?R "int (card ?R)" ev] n fds ok s srv_select_inv [OF inv, of ev]
      by (auto simp: srv_pass_def Let_def no_error_def)
  next
    case True
    obtain s1 where s1: "srv_accept ev s = Inr s1" "srv_inv l s1" "io s1 = io s @ [Accepted c]" "conns s1 = insert c (conns s)"
      "filter (\<lambda>fd. fd \<in> ?R) (in_use (client s1)) = ?fds"
      using srv_accept_ok [OF inv c, of ?R] fds nc by auto
    have "no_error ev (conns s1 \<inter> ?R)"
      using ok s1(4) c(2) by (auto simp: no_error_def s)
    then obtain s' where s': "srv_loop ev ?R (int (card ?R) - 1) s1 = Inr s'" "srv_inv l s'" "io s' = io s1 @ map (answer ev) ?fds"
      "conns s' = conns s1 - {fd \<in> ?R. at_end ev fd}"
      using srv_loop_ok [OF s1(2), of ?R "int (card ?R) - 1" ev] n True unfolding s1(5) by auto
    show ?thesis
    proof (cases "int (card ?R) - 1 \<le> 0")
      case 1: True
      then have "?fds = []"
        using n True by simp
      then have "conns s - {fd \<in> ready ev. at_end ev fd} = conns s"
        by (auto simp: conns_def filter_empty_conv)
      then show ?thesis
        using 1 True s1 srv_select_inv [OF inv, of ev] s \<open>?fds = []\<close> by (auto simp: srv_pass_def Let_def)
    next
      case 2: False
      then show ?thesis
        using True s1 s' srv_select_inv [OF inv, of ev] s c(2) by (auto simp: srv_pass_def Let_def)
    qed
  qed
qed

text \<open>One connection arrives at a server that has just started.\<close>

definition first_conn :: srv_event where
  "first_conn = \<lparr>ready = {3}, accepts = Inr 4, reads = (\<lambda>_. Inr []), writes = (\<lambda>_. True)\<rparr>"

theorem select_server_pass_witness:
  "\<exists>s s'. srv_init 3 = Inr s \<and> srv_pass 3 first_conn s = Inr s' \<and> conns s' = {4} \<and> io s' = [Accepted 4]"
proof -
  obtain s where s: "srv_init 3 = Inr s" "srv_inv 3 s" "conns s = {}" "io s = []"
    using srv_init_inv [of 3] by (auto simp: FD_SETSIZE_def)
  then have "4 \<notin> allset s"
    by (simp add: srv_inv_def table_inv_def conns_def)
  then show ?thesis
    using select_server_pass [OF s(2), of first_conn 4] s by (auto simp: first_conn_def no_error_def FD_SETSIZE_def conns_def)
qed

text \<open>
  The test for too many clients never ends the server: a descriptor that does not fit into the set is met first, and
  nothing checks for it.
\<close>

lemma srv_client_error: "srv_client ev i s = Inl e \<Longrightarrow> e = Sys_error"
  by (auto simp: srv_client_def Let_def split: sum.splits if_splits)

lemma select_server_never_full:
  assumes "srv_inv l s"
  shows "srv_pass l ev s \<noteq> Inl Too_many"
proof -
  obtain i where "free_slot 0 (client s) = Some i"
    using srv_has_slot [OF assms] by auto
  then show ?thesis
    by (auto simp: srv_pass_def srv_accept_def srv_loop_def Let_def dest!: scan_Inl srv_client_error
        split: if_splits sum.splits option.splits)
qed

lemma select_server_fd_range:
  "srv_inv l s \<Longrightarrow> l \<in> ready ev \<Longrightarrow> accepts ev = Inr FD_SETSIZE \<Longrightarrow> srv_pass l ev s = Inl Fd_range"
  using srv_has_slot [of l s] srv_select_inv [of l s ev] by (auto simp: srv_pass_def srv_accept_def FD_SET_def srv_inv_def table_inv_def)

subsection \<open>The server with \<open>poll\<close>\<close>

datatype poll_flag = POLLRDNORM | POLLERR | POLLHUP

text \<open>
  The array of \<^verbatim>\<open>pollfd\<close>, with entry 0 for the listening descriptor. \<^verbatim>\<open>events\<close> is \<^verbatim>\<open>POLLRDNORM\<close> in all entries in use. The
  members \<^verbatim>\<open>revents\<close> have the contents of the memory until \<^verbatim>\<open>poll\<close> sets them.
\<close>

record psrv =
  p_fd :: "int list"
  p_rev :: "poll_flag set list"
  p_maxi :: nat
  p_io :: "srv_io list"

record poll_event =
  p_ready :: "int \<Rightarrow> poll_flag set"
  p_accepts :: "int res"
  p_reads :: "int \<Rightarrow> byte list res"
  p_writes :: "int \<Rightarrow> bool"

definition poll_init :: "nat \<Rightarrow> poll_flag set list \<Rightarrow> int \<Rightarrow> psrv" where
  "poll_init open_max mem listenfd = \<lparr>p_fd = listenfd # replicate (open_max - 1) (- 1), p_rev = mem, p_maxi = 0, p_io = []\<rparr>"

text \<open>\<^verbatim>\<open>poll\<close> sets \<^verbatim>\<open>revents\<close> in the entries up to \<^verbatim>\<open>maxi\<close>, to 0 for a negative descriptor, and counts those that are not 0.\<close>

definition revents_of :: "poll_event \<Rightarrow> int \<Rightarrow> poll_flag set" where
  "revents_of ev fd = (if fd < 0 then {} else p_ready ev fd)"

definition sys_poll :: "poll_event \<Rightarrow> psrv \<Rightarrow> int \<times> psrv" where
  "sys_poll ev s =
     (let n = p_maxi s + 1; polled = map (revents_of ev) (take n (p_fd s)) in
      (int (length (filter (\<lambda>r. r \<noteq> {}) polled)), s\<lparr>p_rev := polled @ drop n (p_rev s)\<rparr>))"

definition poll_accept :: "poll_event \<Rightarrow> psrv \<Rightarrow> srv_exit + psrv" where
  "poll_accept ev s = (case p_accepts ev of Inl e \<Rightarrow> Inl Sys_error | Inr connfd \<Rightarrow>
     (case free_slot 1 (tl (p_fd s)) of None \<Rightarrow> Inl Too_many
      | Some i \<Rightarrow> Inr (s\<lparr>p_fd := (p_fd s)[i := connfd], p_maxi := max (p_maxi s) i, p_io := p_io s @ [Accepted connfd]\<rparr>)))"

definition poll_client :: "poll_event \<Rightarrow> nat \<Rightarrow> psrv \<Rightarrow> srv_exit + psrv" where
  "poll_client ev i s = (let sockfd = p_fd s ! i; closed = s\<lparr>p_fd := (p_fd s)[i := - 1], p_io := p_io s @ [Closed sockfd]\<rparr> in
     case p_reads ev sockfd of
       Inl e \<Rightarrow> if e = ECONNRESET then Inr closed else Inl Sys_error
     | Inr bs \<Rightarrow>
         (let buf = take MAXLINE bs in
          if buf = [] then Inr closed
          else if p_writes ev sockfd then Inr (s\<lparr>p_io := p_io s @ [Echoed sockfd buf]\<rparr>) else Inl Sys_error))"

definition poll_ready :: "nat \<Rightarrow> psrv \<Rightarrow> bool" where
  "poll_ready i s = (0 \<le> p_fd s ! i \<and> p_rev s ! i \<inter> {POLLRDNORM, POLLERR} \<noteq> {})"

definition poll_loop :: "poll_event \<Rightarrow> int \<Rightarrow> psrv \<Rightarrow> srv_exit + psrv" where
  "poll_loop ev nready s = scan (\<lambda>n. n \<le> 0) poll_ready (poll_client ev) [1..<p_maxi s + 1] nready s"

definition poll_pass :: "poll_event \<Rightarrow> psrv \<Rightarrow> srv_exit + psrv" where
  "poll_pass ev s0 = (case sys_poll ev s0 of (nready, s) \<Rightarrow>
     if POLLRDNORM \<in> p_rev s ! 0 then
       (case poll_accept ev s of Inl e \<Rightarrow> Inl e | Inr s1 \<Rightarrow> if nready - 1 \<le> 0 then Inr s1 else poll_loop ev (nready - 1) s1)
     else poll_loop ev nready s)"

interpretation pol: ready_loop "\<lambda>n. n \<le> 0" poll_ready "poll_client ev" for ev
  by unfold_locales (auto simp: poll_client_def poll_ready_def Let_def split: sum.splits if_splits)

text \<open>The invariant. It says nothing on the flags: the program does not initialise them.\<close>

definition poll_inv :: "int \<Rightarrow> psrv \<Rightarrow> bool" where
  "poll_inv l s \<longleftrightarrow> length (p_rev s) = length (p_fd s) \<and> p_maxi s < length (p_fd s) \<and> p_fd s ! 0 = l \<and> 0 \<le> l \<and>
     distinct (in_use (p_fd s)) \<and> (\<forall>i < length (p_fd s). 0 \<le> p_fd s ! i \<longrightarrow> i \<le> p_maxi s)"

definition p_conns :: "psrv \<Rightarrow> int list" where
  "p_conns s = in_use (tl (p_fd s))"

definition hot :: "poll_event \<Rightarrow> int \<Rightarrow> bool" where
  "hot ev fd \<longleftrightarrow> p_ready ev fd \<inter> {POLLRDNORM, POLLERR} \<noteq> {}"

definition p_closes :: "poll_event \<Rightarrow> int \<Rightarrow> bool" where
  "p_closes ev fd \<longleftrightarrow> p_reads ev fd \<in> {Inr [], Inl ECONNRESET}"

definition p_answer :: "poll_event \<Rightarrow> int \<Rightarrow> srv_io" where
  "p_answer ev fd = (case p_reads ev fd of Inr bs \<Rightarrow> if bs = [] then Closed fd else Echoed fd (take MAXLINE bs) | Inl e \<Rightarrow> Closed fd)"

definition p_ok :: "poll_event \<Rightarrow> int \<Rightarrow> bool" where
  "p_ok ev fd \<longleftrightarrow> (case p_reads ev fd of Inr bs \<Rightarrow> p_writes ev fd | Inl e \<Rightarrow> e = ECONNRESET)"

lemma poll_init_inv:
  "length mem = open_max \<Longrightarrow> 0 < open_max \<Longrightarrow> 0 \<le> l \<Longrightarrow> poll_inv l (poll_init open_max mem l)"
  by (auto simp: poll_inv_def poll_init_def in_use_def nth_Cons split: nat.splits)

lemma poll_inv_io [simp]: "poll_inv l (s\<lparr>p_io := x\<rparr>) = poll_inv l s"
  by (simp add: poll_inv_def)

lemma poll_client_ok:
  assumes "poll_inv l s" "i < length (p_fd s)" "0 \<le> p_fd s ! i" "p_ok ev (p_fd s ! i)" "0 < i"
  shows "\<exists>s'. poll_client ev i s = Inr s' \<and> poll_inv l s' \<and> p_io s' = p_io s @ [p_answer ev (p_fd s ! i)] \<and>
    p_fd s' = (if p_closes ev (p_fd s ! i) then (p_fd s)[i := - 1] else p_fd s)"
proof -
  let ?fds = "(p_fd s)[i := - 1]"
  have "0 \<le> ?fds ! k \<Longrightarrow> 0 \<le> p_fd s ! k" for k
    using assms(2) by (cases "k = i") auto
  then have "poll_inv l (s\<lparr>p_fd := ?fds, p_io := x\<rparr>)" for x
    using assms(1,5) in_use_drop(1) [OF assms(2,3)] by (auto simp: poll_inv_def)
  then show ?thesis
    using assms(1,4) by (auto simp: poll_client_def p_answer_def p_closes_def p_ok_def Let_def split: sum.splits)
qed

interpretation pol_table: served_table "poll_client ev" p_fd p_io "poll_inv l" "\<lambda>fd. p_ok ev fd \<and> fd \<noteq> l" "p_closes ev" "p_answer ev" for ev l
proof unfold_locales
  fix s i
  assume "poll_inv l s" "i < length (p_fd s)" "0 \<le> p_fd s ! i" "p_ok ev (p_fd s ! i) \<and> p_fd s ! i \<noteq> l"
  moreover from this have "0 < i"
    by (auto simp: poll_inv_def intro: gr0I)
  ultimately show "\<exists>s'. poll_client ev i s = Inr s' \<and> poll_inv l s' \<and> p_io s' = p_io s @ [p_answer ev (p_fd s ! i)] \<and>
    p_fd s' = (if p_closes ev (p_fd s ! i) then (p_fd s)[i := - 1] else p_fd s)"
    using poll_client_ok by blast
qed (simp add: poll_inv_def)

lemma poll_inv_cons:
  assumes "poll_inv l s"
  obtains cs where "p_fd s = l # cs" "p_conns s = in_use cs" "l \<notin> set cs"
  using assms by (cases "p_fd s") (auto simp: poll_inv_def p_conns_def in_use_def)

text \<open>
  The loop serves the connections whose flags are set, when the flags of the entries up to \<open>m\<close> depend on the descriptor only and the counter
  keeps the loop from going further.
\<close>

lemma poll_loop_ok:
  assumes inv: "poll_inv l s" and m: "m \<le> p_maxi s" "\<And>j. j < length (p_fd s) \<Longrightarrow> 0 \<le> p_fd s ! j \<Longrightarrow> P (p_fd s ! j) \<Longrightarrow> 0 < j \<Longrightarrow> j \<le> m"
    and n: "int (length (filter P (p_conns s))) \<le> n" "m < p_maxi s \<Longrightarrow> int (length (filter P (p_conns s))) = n \<and> 0 < n"
    and rev: "\<And>j. 0 < j \<Longrightarrow> j \<le> m \<Longrightarrow> 0 \<le> p_fd s ! j \<Longrightarrow> (p_rev s ! j \<inter> {POLLRDNORM, POLLERR} \<noteq> {}) = P (p_fd s ! j)"
    and ok: "\<And>fd. fd \<in> set (p_conns s) \<Longrightarrow> P fd \<Longrightarrow> p_ok ev fd"
  shows "\<exists>s'. poll_loop ev n s = Inr s' \<and> poll_inv l s' \<and> p_io s' = p_io s @ map (p_answer ev) (filter P (p_conns s)) \<and>
    set (p_conns s') = set (p_conns s) - {fd. P fd \<and> p_closes ev fd}"
proof -
  obtain cs where cs: "p_fd s = l # cs" "p_conns s = in_use cs" "l \<notin> set cs"
    using poll_inv_cons [OF inv] .
  define js where "js = filter (\<lambda>i. poll_ready i s) [1..<m + 1]"
  have m': "\<forall>i < length cs. 0 \<le> cs ! i \<longrightarrow> P (cs ! i) \<longrightarrow> i < m" "m \<le> length cs"
    using m(2) [of "Suc _"] m(1) inv cs(1) by (auto simp: poll_inv_def less_Suc_eq_le Suc_le_eq)
  have suc: "[1..<m + 1] = map Suc [0..<m]"
    by (simp add: map_Suc_upt)
  have "poll_ready (Suc i) s \<longleftrightarrow> 0 \<le> cs ! i \<and> P (cs ! i)" if "i < m" for i
    using rev [of "Suc i"] that cs(1) by (auto simp: poll_ready_def)
  then have "js = map Suc (filter (\<lambda>i. 0 \<le> cs ! i \<and> P (cs ! i)) [0..<m])"
    unfolding js_def suc filter_map comp_def by (intro arg_cong [of _ _ "map Suc"] filter_cong) auto
  then have js: "map (\<lambda>i. p_fd s ! i) js = filter P (p_conns s)"
    using ready_entries [OF m'] cs by (simp add: comp_def)
  then have len: "length js = length (filter P (p_conns s))"
    by (simp flip: length_map [of "\<lambda>i. p_fd s ! i" js])
  have "[1..<p_maxi s + 1] = [1..<m + 1] @ [m + 1..<p_maxi s + 1]"
    using m(1) upt_add_eq_append [of 1 "m + 1" "p_maxi s - m"] by simp
  then have loop: "poll_loop ev n s = serve (poll_client ev) js s"
    using pol.scan_serves [of "[1..<m + 1]" s n ev] pol.scan_stops [of "[1..<m + 1]" s n ev "[m + 1..<p_maxi s + 1]"] n m(1) len
    unfolding poll_loop_def js_def by (cases "m < p_maxi s") auto
  have img: "(\<lambda>i. p_fd s ! i) ` set js = {fd \<in> set (p_conns s). P fd}"
    using arg_cong [OF js, of set] by simp
  have "p_ok ev (p_fd s ! j) \<and> p_fd s ! j \<noteq> l" if "j \<in> set js" for j
    using imageI [OF that, of "\<lambda>i. p_fd s ! i"] ok cs unfolding img by (auto simp: set_in_use)
  then have "\<forall>j \<in> set js. j < length (p_fd s) \<and> 0 \<le> p_fd s ! j \<and> p_ok ev (p_fd s ! j) \<and> p_fd s ! j \<noteq> l" "distinct js"
    using m'(2) cs(1) by (auto simp: js_def poll_ready_def)
  then obtain s' where s': "serve (poll_client ev) js s = Inr s'" "poll_inv l s'" "p_io s' = p_io s @ map (\<lambda>j. p_answer ev (p_fd s ! j)) js"
    "set (in_use (p_fd s')) = set (in_use (p_fd s)) - {fd. fd \<in> set (p_conns s) \<and> P fd \<and> p_closes ev fd}"
    using pol_table.serve_ok [OF inv, of js ev] unfolding img by auto
  obtain cs' where cs': "p_fd s' = l # cs'" "p_conns s' = in_use cs'" "l \<notin> set cs'"
    using poll_inv_cons [OF s'(2)] .
  have "set (p_conns s') = set (p_conns s) - {fd. P fd \<and> p_closes ev fd}"
    using s'(4) cs cs' inv by (auto simp: set_in_use poll_inv_def)
  moreover have "map (\<lambda>j. p_answer ev (p_fd s ! j)) js = map (p_answer ev) (filter P (p_conns s))"
    by (simp flip: js)
  ultimately show ?thesis
    using s' loop by simp
qed

lemma sys_poll_ok:
  assumes "poll_inv l s" "sys_poll ev s = (n, s')"
  shows "poll_inv l s'" "p_fd s' = p_fd s" "p_io s' = p_io s" "p_maxi s' = p_maxi s"
    and "i \<le> p_maxi s \<Longrightarrow> p_rev s' ! i = revents_of ev (p_fd s ! i)"
    and "n = int (length (filter (\<lambda>fd. p_ready ev fd \<noteq> {}) (l # p_conns s)))"
proof -
  obtain cs where cs: "p_fd s = l # cs" "p_conns s = in_use cs" "l \<notin> set cs"
    using poll_inv_cons [OF assms(1)] .
  let ?n = "p_maxi s + 1"
  have late: "p_fd s ! i < 0" if "i < length (p_fd s)" "?n \<le> i" for i
    using assms(1) that by (auto simp: poll_inv_def not_le [symmetric])
  show "p_fd s' = p_fd s" "p_io s' = p_io s" "p_maxi s' = p_maxi s"
    using assms(2) by (auto simp: sys_poll_def Let_def)
  then show "poll_inv l s'"
    using assms by (auto simp: poll_inv_def sys_poll_def Let_def)
  show "p_rev s' ! i = revents_of ev (p_fd s ! i)" if "i \<le> p_maxi s"
    using assms that by (auto simp: sys_poll_def Let_def nth_append poll_inv_def)
  have "filter (\<lambda>r. r \<noteq> {}) (map (revents_of ev) (drop ?n (p_fd s))) = []"
    using late by (auto simp: filter_empty_conv in_set_conv_nth revents_of_def)
  then have tk: "filter (\<lambda>r. r \<noteq> {}) (map (revents_of ev) (take ?n (p_fd s))) = filter (\<lambda>r. r \<noteq> {}) (map (revents_of ev) (p_fd s))"
    by (metis append_Nil2 append_take_drop_id filter_append map_append)
  have cnt: "length (filter (\<lambda>r. r \<noteq> {}) (map (revents_of ev) fds)) = length (filter (\<lambda>fd. p_ready ev fd \<noteq> {}) (in_use fds))" for fds
    by (induction fds) (auto simp: in_use_def revents_of_def)
  have "n = int (length (filter (\<lambda>r. r \<noteq> {}) (map (revents_of ev) (take ?n (p_fd s)))))"
    using assms(2) by (simp add: sys_poll_def Let_def)
  also have "\<dots> = int (length (filter (\<lambda>fd. p_ready ev fd \<noteq> {}) (in_use (p_fd s))))"
    unfolding tk cnt ..
  finally show "n = int (length (filter (\<lambda>fd. p_ready ev fd \<noteq> {}) (l # p_conns s)))"
    using cs assms(1) by (simp add: in_use_def poll_inv_def)
qed

lemma poll_accept_ok:
  assumes inv: "poll_inv l s" and c: "p_accepts ev = Inr c" "0 \<le> c" "c \<notin> set (p_fd s)" and free: "\<exists>x \<in> set (tl (p_fd s)). x < 0"
  shows "\<exists>i s'. poll_accept ev s = Inr s' \<and> poll_inv l s' \<and> p_fd s' = (p_fd s)[i := c] \<and> p_rev s' = p_rev s \<and> p_io s' = p_io s @ [Accepted c] \<and>
    p_maxi s' = max (p_maxi s) i \<and> 0 < i \<and> i < length (p_fd s) \<and> p_fd s ! i < 0 \<and> set (p_conns s') = insert c (set (p_conns s)) \<and>
    filter (\<lambda>fd. P fd \<and> fd \<noteq> c) (p_conns s') = filter (\<lambda>fd. P fd \<and> fd \<noteq> c) (p_conns s)"
proof -
  obtain cs where cs: "p_fd s = l # cs" "p_conns s = in_use cs" "l \<notin> set cs"
    using poll_inv_cons [OF inv] .
  obtain i where i: "free_slot 1 cs = Some i" "0 < i" "i - 1 < length cs" "cs ! (i - 1) < 0"
    using free free_slot_None [of 1 cs] free_slot_Some [of 1 cs] cs(1) by fastforce
  have i': "i < length (p_fd s)" "p_fd s ! i < 0" "(p_fd s)[i := c] = l # cs[i - 1 := c]"
    using i cs(1) by (cases i; simp)+
  let ?s = "s\<lparr>p_fd := (p_fd s)[i := c], p_maxi := max (p_maxi s) i, p_io := p_io s @ [Accepted c]\<rparr>"
  have "0 \<le> (p_fd s)[i := c] ! k \<Longrightarrow> k < length (p_fd s) \<Longrightarrow> k \<le> max (p_maxi s) i" for k
    using inv by (cases "k = i") (auto simp: poll_inv_def)
  moreover have "distinct (in_use ((p_fd s)[i := c]))"
    using in_use_add(1) [OF i' (1,2) c(2)] inv c(3) by (simp add: poll_inv_def)
  ultimately have "poll_inv l ?s"
    using inv i(2) i'(1) by (auto simp: poll_inv_def)
  moreover have "p_conns ?s = in_use (cs[i - 1 := c])"
    by (simp add: p_conns_def i'(3))
  moreover have "set (in_use (cs[i - 1 := c])) = insert c (set (in_use cs))"
    using in_use_add(2) [OF i(3,4) c(2)] inv c(3) cs(1) by (auto simp: poll_inv_def in_use_def split: if_splits)
  ultimately show ?thesis
    using c i i' cs filter_add [OF i(3,4)] by (intro exI [of _ i] exI [of _ ?s]) (simp add: poll_accept_def)
qed

text \<open>
  Let \<^verbatim>\<open>poll\<close> report every connection that has a flag as readable or in error. Then a pass of the server, with room in its table, serves every such connection
  exactly once, in the order of the table, although the flags of a new entry have never been set: it echoes the bytes read, or
  closes the connection at the end of its input or when it was reset. A new connection is added and not read in the same pass, and the table stays consistent.
\<close>

theorem poll_server_pass:
  assumes inv: "poll_inv l s" and ok: "\<forall>fd \<in> set (p_conns s). p_ready ev fd \<noteq> {} \<longrightarrow> hot ev fd \<and> p_ok ev fd"
    and c: "p_accepts ev = Inr c" "0 \<le> c" "c \<notin> set (p_fd s)" and free: "\<exists>x \<in> set (tl (p_fd s)). x < 0"
  shows "\<exists>s'. poll_pass ev s = Inr s' \<and> poll_inv l s' \<and>
    set (p_conns s') = (if POLLRDNORM \<in> p_ready ev l then {c} else {}) \<union> (set (p_conns s) - {fd. hot ev fd \<and> p_closes ev fd}) \<and>
    p_io s' = p_io s @ (if POLLRDNORM \<in> p_ready ev l then [Accepted c] else []) @ map (p_answer ev) (filter (hot ev) (p_conns s))"
proof -
  obtain n s0 where poll: "sys_poll ev s = (n, s0)"
    by (cases "sys_poll ev s")
  note s0 = sys_poll_ok [OF inv poll]
  let ?hot = "filter (hot ev) (p_conns s)"
  have conns: "p_conns s0 = p_conns s" and l: "p_rev s0 ! 0 = p_ready ev l"
    using s0(2) s0(5) [of 0] inv by (auto simp: p_conns_def poll_inv_def revents_of_def)
  have nc: "c \<notin> set (p_conns s)"
    using c(3) inv by (cases "p_fd s") (auto simp: p_conns_def set_in_use poll_inv_def)
  have "filter (\<lambda>fd. p_ready ev fd \<noteq> {}) (p_conns s) = ?hot"
    using ok by (intro filter_cong) (auto simp: hot_def)
  then have n: "n = int (length ?hot) + of_bool (p_ready ev l \<noteq> {})"
    using s0(6) by simp
  have rev: "(p_rev s0 ! j \<inter> {POLLRDNORM, POLLERR} \<noteq> {}) = hot ev (p_fd s ! j)" if "j \<le> p_maxi s" "0 \<le> p_fd s ! j" for j
    using s0(5) that by (simp add: revents_of_def hot_def)
  have low: "j \<le> p_maxi s" if "j < length (p_fd s)" "0 \<le> p_fd s ! j" for j
    using inv that by (auto simp: poll_inv_def)
  have ok': "p_ok ev fd" if "fd \<in> set (p_conns s)" "hot ev fd" for fd
    using ok that by (auto simp: hot_def)
  show ?thesis
  proof (cases "POLLRDNORM \<in> p_ready ev l")
    case False
    obtain s' where "poll_loop ev n s0 = Inr s'" "poll_inv l s'" "p_io s' = p_io s @ map (p_answer ev) ?hot"
      "set (p_conns s') = set (p_conns s) - {fd. hot ev fd \<and> p_closes ev fd}"
      using poll_loop_ok [OF s0(1), of "p_maxi s" "hot ev" n ev] n rev low ok' s0(2-4) unfolding conns by auto
    then show ?thesis
      using False poll l by (simp add: poll_pass_def)
  next
    case True
    obtain i s1 where s1: "poll_accept ev s0 = Inr s1" "poll_inv l s1" "p_fd s1 = (p_fd s)[i := c]" "p_rev s1 = p_rev s0"
      "p_io s1 = p_io s @ [Accepted c]" "p_maxi s1 = max (p_maxi s) i" "i < length (p_fd s)" "p_fd s ! i < 0" "set (p_conns s1) = insert c (set (p_conns s))"
      "filter (\<lambda>fd. hot ev fd \<and> fd \<noteq> c) (p_conns s1) = filter (\<lambda>fd. hot ev fd \<and> fd \<noteq> c) (p_conns s)"
      using poll_accept_ok [OF s0(1) c(1,2), of "hot ev"] c(3) free unfolding conns s0(2-4) by blast
    have hot: "filter (\<lambda>fd. hot ev fd \<and> fd \<noteq> c) (p_conns s) = ?hot"
      using nc by (intro filter_cong) auto
    have n1: "n - 1 = int (length ?hot)"
      using n True by auto
    show ?thesis
    proof (cases "n - 1 \<le> 0")
      case 1: True
      then have "?hot = []"
        using n1 by simp
      then show ?thesis
        using 1 True s1 poll l by (auto simp: poll_pass_def filter_empty_conv)
    next
      case 2: False
      have "(p_rev s1 ! j \<inter> {POLLRDNORM, POLLERR} \<noteq> {}) = (hot ev (p_fd s1 ! j) \<and> p_fd s1 ! j \<noteq> c)"
        if "j \<le> p_maxi s" "0 \<le> p_fd s1 ! j" for j
      proof (cases "j = i")
        case False
        then show ?thesis
          using rev [of j] that s1(3,4) c(3) nth_mem [of j "p_fd s"] inv by (auto simp: poll_inv_def)
      next
        case True
        then show ?thesis
          using s0(5) [of i] that s1(3,4,7,8) by (simp add: revents_of_def)
      qed
      moreover have "j \<le> p_maxi s" if "j < length (p_fd s1)" "0 \<le> p_fd s1 ! j" "p_fd s1 ! j \<noteq> c" for j
        using low [of j] that s1(3) by (cases "j = i") auto
      ultimately obtain s' where s': "poll_loop ev (n - 1) s1 = Inr s'" "poll_inv l s'" "p_io s' = p_io s1 @ map (p_answer ev) ?hot"
        "set (p_conns s') = set (p_conns s1) - {fd. (hot ev fd \<and> fd \<noteq> c) \<and> p_closes ev fd}"
        using poll_loop_ok [OF s1(2), of "p_maxi s" "\<lambda>fd. hot ev fd \<and> fd \<noteq> c" "n - 1" ev] 2 n1 ok' s1(6,9) unfolding s1(10) hot by auto
      then show ?thesis
        using 2 True s1 poll l nc by (auto simp: poll_pass_def)
    qed
  qed
qed

text \<open>
  When some connection has another flag only, it is counted but not served, and a new connection can be read although \<^verbatim>\<open>poll\<close> did not
  report it: here the first connection has \<^verbatim>\<open>POLLHUP\<close>, and the memory of the third entry happens to hold \<^verbatim>\<open>POLLRDNORM\<close>.
\<close>

definition two_conns :: "poll_flag \<Rightarrow> poll_event" where
  "two_conns f = \<lparr>p_ready = (\<lambda>fd. if fd = 3 then {POLLRDNORM} else if fd = 4 then {f} else {}), p_accepts = Inr 5,
     p_reads = (\<lambda>fd. if fd = 4 then Inr [7] else Inr []), p_writes = (\<lambda>_. True)\<rparr>"

definition stale_flags :: psrv where
  "stale_flags = \<lparr>p_fd = [3, 4, - 1], p_rev = [{}, {}, {POLLRDNORM}], p_maxi = 1, p_io = []\<rparr>"

lemma poll_server_reads_unreported:
  "\<exists>s'. poll_pass (two_conns POLLHUP) stale_flags = Inr s' \<and> p_io s' = [Accepted 5, Closed 5]"
  by (simp add: poll_pass_def sys_poll_def two_conns_def stale_flags_def poll_accept_def poll_loop_def poll_ready_def poll_client_def
      revents_of_def MAXLINE_def upt_rec)

theorem poll_server_pass_witness:
  "\<exists>s'. poll_pass (two_conns POLLRDNORM) stale_flags = Inr s' \<and> p_io s' = [Accepted 5, Echoed 4 [7]]"
  using poll_server_pass [of 3 stale_flags "two_conns POLLRDNORM" 5]
  by (auto simp: poll_inv_def two_conns_def stale_flags_def in_use_def hot_def p_conns_def p_ok_def p_answer_def less_Suc_eq MAXLINE_def)

subsection \<open>The server that reads lines\<close>

text \<open>
  \<^verbatim>\<open>src/unixNetV1/nonblock/tcpservselect03.c\<close> is the server with \<^verbatim>\<open>select\<close>, with \<^verbatim>\<open>Readline\<close> in place of \<^verbatim>\<open>Read\<close>. The buffer of \<^verbatim>\<open>readline\<close> is static,
  so there is one for all descriptors. After the end of the input the server calls \<^verbatim>\<open>Writen\<close> with a count of zero, which writes nothing. When the line fills the buffer the count covers the terminating zero.
\<close>

record line_srv =
  tbl :: srv
  rl_static :: "byte list"
  dscs :: "int \<Rightarrow> dsc"

definition line_client :: "srv_event \<Rightarrow> nat \<Rightarrow> line_srv \<Rightarrow> srv_exit + line_srv" where
  "line_client ev i s = (let t = tbl s; sockfd = client t ! i in
     case readline MAXLINE \<lparr>rl_buf = rl_static s, rl_dsc = dscs s sockfd\<rparr> of
       (Inl e, r) \<Rightarrow> Inl Sys_error
     | (Inr (n, line), r) \<Rightarrow>
         (let s = s\<lparr>rl_static := rl_buf r, dscs := (dscs s)(sockfd := rl_dsc r)\<rparr> in
          if n = 0 then Inr (s\<lparr>tbl := t\<lparr>allset := allset t - {sockfd}, client := (client t)[i := - 1], io := io t @ [Closed sockfd]\<rparr>\<rparr>)
          else if writes ev sockfd then Inr (s\<lparr>tbl := t\<lparr>io := io t @ [Echoed sockfd (take n (line @ [0]))]\<rparr>\<rparr>)
          else Inl Sys_error))"

definition line_loop :: "srv_event \<Rightarrow> int set \<Rightarrow> int \<Rightarrow> line_srv \<Rightarrow> srv_exit + line_srv" where
  "line_loop ev rset nready s =
     scan (\<lambda>n. n \<le> 0) (\<lambda>i s. srv_ready rset i (tbl s)) (line_client ev) [0..<nat (maxi (tbl s) + 1)] nready s"

definition line_pass :: "int \<Rightarrow> srv_event \<Rightarrow> line_srv \<Rightarrow> srv_exit + line_srv" where
  "line_pass listenfd ev s =
     (let rset = srv_select ev (tbl s); nready = int (card rset) in
      if listenfd \<in> rset then
        (case srv_accept ev (tbl s) of Inl e \<Rightarrow> Inl e | Inr t \<Rightarrow>
           if nready - 1 \<le> 0 then Inr (s\<lparr>tbl := t\<rparr>) else line_loop ev rset (nready - 1) (s\<lparr>tbl := t\<rparr>))
      else line_loop ev rset nready s)"

text \<open>
  Two clients, the first of which has sent two lines in one segment: its second line is echoed to the other client,
  whose own line stays unread.
\<close>

definition two_clients :: line_srv where
  "two_clients = \<lparr>tbl = \<lparr>client = [4, 5], maxi = 1, maxfd = 5, allset = {3, 4, 5}, io = []\<rparr>, rl_static = [],
     dscs = (\<lambda>fd. if fd = 4 then \<lparr>d_in = [97, 10, 98, 10], d_out = [], d_plan = []\<rparr> else \<lparr>d_in = [99, 10], d_out = [], d_plan = []\<rparr>)\<rparr>"

definition both_ready :: srv_event where
  "both_ready = \<lparr>ready = {4, 5}, accepts = Inr 6, reads = (\<lambda>_. Inr []), writes = (\<lambda>_. True)\<rparr>"

lemma readline_loop_step:
  "0 < m \<Longrightarrow> readline_loop m n acc r = (case my_read r of
     (Inr (Some c), r') \<Rightarrow> if c = newline then (Inr (n, acc @ [c]), r') else readline_loop (m - 1) (n + 1) (acc @ [c]) r'
   | (Inr None, r') \<Rightarrow> (Inr (n - 1, acc), r')
   | (Inl e, r') \<Rightarrow> (Inl e, r'))"
  by (cases m) (auto split: prod.splits sum.splits option.splits)

lemma line_server_mixes_clients:
  "\<exists>s. line_pass 3 both_ready two_clients = Inr s \<and> io (tbl s) = [Echoed 4 [97, 10], Echoed 5 [98, 10]]"
proof -
  have sel: "srv_select both_ready (tbl two_clients) = {4, 5}"
    by (auto simp: srv_select_def both_ready_def two_clients_def)
  have "[0..<nat (maxi (tbl two_clients) + 1)] = [0, 1]"
    by (simp add: two_clients_def upt_rec)
  then show ?thesis
    unfolding line_pass_def Let_def sel
    by (simp add: line_loop_def two_clients_def both_ready_def line_client_def srv_ready_def readline_def readline_loop_step
        my_read.simps sys_read_def MAXLINE_def newline_def)
qed

end
