(* ===== verification/IcmpDaemon.thy ===== *)
theory IcmpDaemon
  imports SelectServer SockAddr
begin

text \<open>
  The daemon of \<^verbatim>\<open>src/unixNetV1/icmpd\<close>, which passes ICMP errors to the processes that own the UDP sockets they are about. A client connects over a
  Unix domain socket and passes its UDP descriptor; the daemon notes its family and port, and sends an error report to every client whose
  port is that of the datagram inside an ICMP message. The theory has the four handlers and the pass of the main loop as functions of what the system reports, for a build
  with IPv6, and shows that the table stays consistent and that a registered client gets just the reports for its port. It also
  shows that a client that has not registered can get the reports of its predecessor, and that a short ICMPv6 message is
  read past its end.
\<close>

subsection \<open>State and events\<close>

record cl =
  connfd :: int
  cl_family :: addr_family
  lport :: int

record icmpd_err =
  icmpd_errno :: errno
  icmpd_type :: byte
  icmpd_code :: byte
  icmpd_len :: nat
  icmpd_dest :: sockaddr

datatype d_io = DAccepted int | DRefused int | Registered int addr_family int | DClosed int | Reported int icmpd_err

record icmpd =
  clients :: "cl list"
  d_maxi :: int
  d_maxfd :: int
  d_allset :: "int set"
  d_io :: "d_io list"

text \<open>
  What a pass sees. \<open>read_fds\<close> is what \<^verbatim>\<open>Read_fd\<close> gives at a client's socket: the end of the input, or a byte with a descriptor, which is
  \<^verbatim>\<open>-1\<close> when none was passed. \<open>sock_name\<close> is \<^verbatim>\<open>getsockname\<close>, before and after a \<^verbatim>\<open>bind\<close>. \<open>stack4\<close> and \<open>stack6\<close> are the contents of the
  uninitialised buffers of the two readers, and of the memory behind them.
\<close>

record d_event =
  d_ready :: "int set"
  d_accept :: "int res"
  read_fds :: "int \<Rightarrow> int option res"
  sock_name :: "int \<Rightarrow> sockaddr res"
  bind_ok :: "int \<Rightarrow> bool"
  bound_name :: "int \<Rightarrow> sockaddr res"
  packet4 :: "byte list res"
  packet6 :: "byte list res"
  stack4 :: "byte list"
  stack6 :: "byte list"
  d_writes :: "int \<Rightarrow> bool"

datatype d_exit = D_quit | D_error | D_range

subsection \<open>New clients and descriptors\<close>

definition readable_listen :: "d_event \<Rightarrow> icmpd \<Rightarrow> d_exit + icmpd" where
  "readable_listen ev s = (case d_accept ev of Inl e \<Rightarrow> Inl D_error | Inr c \<Rightarrow>
     (case free_slot 0 (map connfd (clients s)) of
        None \<Rightarrow> Inr (s\<lparr>d_io := d_io s @ [DRefused c]\<rparr>)
      | Some i \<Rightarrow> (case FD_SET c (d_allset s) of None \<Rightarrow> Inl D_range
          | Some S \<Rightarrow> Inr (s\<lparr>clients := (clients s)[i := (clients s ! i)\<lparr>connfd := c\<rparr>], d_allset := S, d_maxfd := max (d_maxfd s) c,
              d_maxi := max (d_maxi s) (int i), d_io := d_io s @ [DAccepted c]\<rparr>))))"

text \<open>The result of \<^verbatim>\<open>sock_bind_wild\<close> for a descriptor that was passed: the port that the kernel chose, in network byte order, or \<^verbatim>\<open>-1\<close>.\<close>

definition d_bind_wild :: "d_event \<Rightarrow> int \<Rightarrow> addr_family \<Rightarrow> int" where
  "d_bind_wild ev fd fam =
     (if fam = AF_INET \<or> fam = AF_INET6 then
        if bind_ok ev fd then (case bound_name ev fd of Inl e \<Rightarrow> - 1 | Inr sa \<Rightarrow> uint (sa_port sa)) else - 1
      else - 1)"

text \<open>The end of a connection: after an error the client is told so.\<close>

definition conn_done :: "nat \<Rightarrow> icmpd \<Rightarrow> icmpd" where
  "conn_done i s = (let unixfd = connfd (clients s ! i) in
     s\<lparr>clients := (clients s)[i := (clients s ! i)\<lparr>connfd := - 1\<rparr>], d_allset := d_allset s - {unixfd}, d_io := d_io s @ [DClosed unixfd]\<rparr>)"

definition conn_err :: "d_event \<Rightarrow> nat \<Rightarrow> icmpd \<Rightarrow> d_exit + icmpd" where
  "conn_err ev i s = (if d_writes ev (connfd (clients s ! i)) then Inr (conn_done i s) else Inl D_error)"

definition readable_conn :: "d_event \<Rightarrow> nat \<Rightarrow> icmpd \<Rightarrow> d_exit + icmpd" where
  "readable_conn ev i s = (let unixfd = connfd (clients s ! i) in
     case read_fds ev unixfd of
       Inl e \<Rightarrow> Inl D_error
     | Inr None \<Rightarrow> Inr (conn_done i s)
     | Inr (Some recvfd) \<Rightarrow>
         if recvfd < 0 then conn_err ev i s
         else (case sock_name ev recvfd of
             Inl e \<Rightarrow> conn_err ev i s
           | Inr ss \<Rightarrow>
               (let fam = sa_family ss; p = sock_get_port ss; port = (if p = 0 then d_bind_wild ev recvfd fam else p);
                    s = s\<lparr>clients := (clients s)[i := (clients s ! i)\<lparr>cl_family := fam, lport := port\<rparr>]\<rparr> in
                if p = 0 \<and> port \<le> 0 then conn_err ev i s
                else if d_writes ev unixfd then Inr (s\<lparr>d_io := d_io s @ [Registered unixfd fam port]\<rparr>) else Inl D_error)))"

subsection \<open>ICMP messages\<close>

text \<open>The search for the clients with the port, over the indices up to \<^verbatim>\<open>maxi\<close>.\<close>

fun report :: "d_event \<Rightarrow> addr_family \<Rightarrow> int \<Rightarrow> icmpd_err \<Rightarrow> nat list \<Rightarrow> icmpd \<Rightarrow> d_exit + icmpd" where
  "report ev fam sport err [] s = Inr s"
| "report ev fam sport err (i # is) s = (let c = clients s ! i in
     if 0 \<le> connfd c \<and> cl_family c = fam \<and> lport c = sport then
       if d_writes ev (connfd c) then report ev fam sport err is (s\<lparr>d_io := d_io s @ [Reported (connfd c) err]\<rparr>) else Inl D_error
     else report ev fam sport err is s)"

definition raw16 :: "bool \<Rightarrow> byte list \<Rightarrow> nat \<Rightarrow> u16" where
  "raw16 be buf i = (if be then push_bit 8 (ucast (buf ! i)) OR ucast (buf ! (i + 1)) else ucast (buf ! i) OR push_bit 8 (ucast (buf ! (i + 1))))"

definition ip_hlen :: "byte \<Rightarrow> nat" where
  "ip_hlen b = 4 * (unat b mod 16)"

definition icmp_errno :: "byte \<Rightarrow> byte \<Rightarrow> errno" where
  "icmp_errno ty code = (if ty = 3 then if code = 3 then ECONNREFUSED else if code = 4 then EMSGSIZE else EHOSTUNREACH else EHOSTUNREACH)"

definition icmp6_errno :: "byte \<Rightarrow> byte \<Rightarrow> errno" where
  "icmp6_errno ty code = (let e = (if ty = 1 \<and> code = 4 then ECONNREFUSED else EHOSTUNREACH) in if ty = 2 then EMSGSIZE else e)"

text \<open>What is printed about a message is left out. The report that a message asks for: the source port of the datagram inside, and the error. \<open>None\<close> is a message of another kind.\<close>

definition parse_v4 :: "bool \<Rightarrow> nat \<Rightarrow> byte list \<Rightarrow> d_exit + (int \<times> icmpd_err) option" where
  "parse_v4 be n buf =
     (let hlen1 = ip_hlen (buf ! 0); icmplen = int n - int hlen1 in
      if icmplen < 8 then Inl D_quit
      else let ty = buf ! hlen1; code = buf ! (hlen1 + 1) in
        if ty = 3 \<or> ty = 11 \<or> ty = 4 then
          if icmplen < 8 + 20 + 8 then Inl D_quit
          else let hip = hlen1 + 8; hlen2 = ip_hlen (buf ! hip) in
            if buf ! (hip + 9) = 17 then
              let udp = hip + hlen2 in
              Inr (Some (uint (raw16 be buf udp), \<lparr>icmpd_errno = icmp_errno ty code, icmpd_type = ty, icmpd_code = code,
                icmpd_len = 16, icmpd_dest = Sin (raw16 be buf (udp + 2)) (take 4 (drop (hip + 16) buf))\<rparr>))
            else Inr None
        else Inr None)"

definition parse_v6 :: "bool \<Rightarrow> nat \<Rightarrow> byte list \<Rightarrow> d_exit + (int \<times> icmpd_err) option" where
  "parse_v6 be n buf =
     (if n < 8 then Inl D_quit
      else let ty = buf ! 0; code = buf ! 1 in
        if ty = 1 \<or> ty = 2 \<or> ty = 3 then
          if n < 8 + 8 then Inl D_quit
          else if buf ! (8 + 6) = 17 then
              let udp = 8 + 40 in
              Inr (Some (uint (raw16 be buf udp), \<lparr>icmpd_errno = icmp6_errno ty code, icmpd_type = ty, icmpd_code = code,
                icmpd_len = 28, icmpd_dest = Sin6 (raw16 be buf (udp + 2)) (take 16 (drop (8 + 24) buf))\<rparr>))
            else Inr None
        else Inr None)"

text \<open>\<^verbatim>\<open>Recvfrom\<close> overwrites the beginning of the buffer.\<close>

definition received :: "byte list \<Rightarrow> byte list \<Rightarrow> nat \<times> byte list" where
  "received mem bs = (let bs = take MAXLINE bs in (length bs, bs @ drop (length bs) mem))"

definition readable_icmp :: "d_event \<Rightarrow> addr_family \<Rightarrow> byte list res \<Rightarrow> byte list \<Rightarrow> (nat \<Rightarrow> byte list \<Rightarrow> d_exit + (int \<times> icmpd_err) option) \<Rightarrow>
    icmpd \<Rightarrow> d_exit + icmpd" where
  "readable_icmp ev fam pkt mem parse s = (case pkt of Inl e \<Rightarrow> Inl D_error | Inr bs \<Rightarrow>
     (case received mem bs of (n, buf) \<Rightarrow>
        (case parse n buf of Inl e \<Rightarrow> Inl e | Inr None \<Rightarrow> Inr s
         | Inr (Some (sport, err)) \<Rightarrow> report ev fam sport err [0..<nat (d_maxi s + 1)] s)))"

definition readable_v4 :: "bool \<Rightarrow> d_event \<Rightarrow> icmpd \<Rightarrow> d_exit + icmpd" where
  "readable_v4 be ev s = readable_icmp ev AF_INET (packet4 ev) (stack4 ev) (parse_v4 be) s"

definition readable_v6 :: "bool \<Rightarrow> d_event \<Rightarrow> icmpd \<Rightarrow> d_exit + icmpd" where
  "readable_v6 be ev s = readable_icmp ev AF_INET6 (packet6 ev) (stack6 ev) (parse_v6 be) s"

subsection \<open>The main loop\<close>

definition icmpd_init :: "int \<Rightarrow> int \<Rightarrow> int \<Rightarrow> d_exit + icmpd" where
  "icmpd_init fd4 fd6 listenfd =
     (case FD_SET fd4 {} of None \<Rightarrow> Inl D_range | Some S4 \<Rightarrow>
     (case FD_SET fd6 S4 of None \<Rightarrow> Inl D_range | Some S6 \<Rightarrow>
     (case FD_SET listenfd S6 of None \<Rightarrow> Inl D_range | Some S \<Rightarrow>
       Inr \<lparr>clients = replicate (nat FD_SETSIZE) \<lparr>connfd = - 1, cl_family = AF_UNSPEC, lport = 0\<rparr>, d_maxi = - 1,
         d_maxfd = max (max fd4 fd6) listenfd, d_allset = S, d_io = []\<rparr>)))"

text \<open>A handler that returns the decremented counter; the pass goes on, with the counter, only while it is positive.\<close>

definition stage :: "bool \<Rightarrow> (icmpd \<Rightarrow> d_exit + icmpd) \<Rightarrow> d_exit + (int option \<times> icmpd) \<Rightarrow> d_exit + (int option \<times> icmpd)" where
  "stage isset f r = (case r of
     Inr (Some n, s) \<Rightarrow>
       if isset then (case f s of Inl e \<Rightarrow> Inl e | Inr s' \<Rightarrow> Inr (if n - 1 \<le> 0 then None else Some (n - 1), s'))
       else Inr (Some n, s)
   | _ \<Rightarrow> r)"

definition conn_ready :: "int set \<Rightarrow> nat \<Rightarrow> icmpd \<Rightarrow> bool" where
  "conn_ready rset i s = (0 \<le> connfd (clients s ! i) \<and> connfd (clients s ! i) \<in> rset)"

definition icmpd_pass :: "bool \<Rightarrow> int \<Rightarrow> int \<Rightarrow> int \<Rightarrow> d_event \<Rightarrow> icmpd \<Rightarrow> d_exit + icmpd" where
  "icmpd_pass be fd4 fd6 listenfd ev s =
     (let rset = {fd \<in> d_allset s. fd \<le> d_maxfd s \<and> fd \<in> d_ready ev} in
      case stage (fd6 \<in> rset) (readable_v6 be ev) (stage (fd4 \<in> rset) (readable_v4 be ev)
             (stage (listenfd \<in> rset) (readable_listen ev) (Inr (Some (int (card rset)), s)))) of
        Inl e \<Rightarrow> Inl e
      | Inr (None, s) \<Rightarrow> Inr s
      | Inr (Some n, s) \<Rightarrow> scan (\<lambda>n. n \<le> 0) (conn_ready rset) (readable_conn ev) [0..<nat (d_maxi s + 1)] n s)"

text \<open>The states that the daemon reaches, when \<^verbatim>\<open>accept\<close> returns descriptors that are not in use.\<close>

definition fresh_accept :: "d_event \<Rightarrow> icmpd \<Rightarrow> bool" where
  "fresh_accept ev s \<longleftrightarrow> (case d_accept ev of Inl e \<Rightarrow> True | Inr c \<Rightarrow> 0 \<le> c \<and> c \<notin> d_allset s)"

inductive icmpd_reach :: "bool \<Rightarrow> int \<Rightarrow> int \<Rightarrow> int \<Rightarrow> icmpd \<Rightarrow> bool" for be fd4 fd6 listenfd where
  start: "icmpd_init fd4 fd6 listenfd = Inr s \<Longrightarrow> icmpd_reach be fd4 fd6 listenfd s"
| pass: "icmpd_reach be fd4 fd6 listenfd s \<Longrightarrow> fresh_accept ev s \<Longrightarrow> icmpd_pass be fd4 fd6 listenfd ev s = Inr s' \<Longrightarrow>
    icmpd_reach be fd4 fd6 listenfd s'"

subsection \<open>Registered clients\<close>

text \<open>The clients that have registered on their connection, with family and port, read off the history.\<close>

fun reg_step :: "(int \<rightharpoonup> addr_family \<times> int) \<Rightarrow> d_io \<Rightarrow> (int \<rightharpoonup> addr_family \<times> int)" where
  "reg_step m (Registered fd f p) = m(fd \<mapsto> (f, p))"
| "reg_step m (DAccepted fd) = m(fd := None)"
| "reg_step m (DClosed fd) = m(fd := None)"
| "reg_step m (DRefused fd) = m"
| "reg_step m (Reported fd e) = m"

definition registered :: "icmpd \<Rightarrow> (int \<rightharpoonup> addr_family \<times> int)" where
  "registered s = foldl reg_step Map.empty (d_io s)"

definition fds :: "icmpd \<Rightarrow> int list" where
  "fds s = map connfd (clients s)"

definition d_table :: "int set \<Rightarrow> icmpd \<Rightarrow> bool" where
  "d_table F s \<longleftrightarrow> table_inv F (fds s) (d_maxi s) (d_maxfd s) (d_allset s)"

definition d_inv :: "int set \<Rightarrow> icmpd \<Rightarrow> bool" where
  "d_inv F s \<longleftrightarrow> d_table F s \<and>
     (\<forall>fd v. registered s fd = Some v \<longrightarrow>
       0 \<le> fd \<and> (\<exists>i < length (clients s). connfd (clients s ! i) = fd \<and> (cl_family (clients s ! i), lport (clients s ! i)) = v))"

lemma registered_io [simp]:
  "registered (s\<lparr>d_io := d_io s @ [x]\<rparr>) = reg_step (registered s) x" "registered (s\<lparr>clients := cs\<rparr>) = registered s"
  "registered (s\<lparr>clients := cs, d_allset := S, d_io := d_io s @ [x]\<rparr>) = reg_step (registered s) x"
  "registered (s\<lparr>clients := cs, d_allset := S, d_maxfd := m, d_maxi := n, d_io := d_io s @ [x]\<rparr>) = reg_step (registered s) x"
  "registered (s\<lparr>clients := cs, d_io := d_io s @ [x]\<rparr>) = reg_step (registered s) x"
  by (simp_all add: registered_def)

lemma fds_update: "fds (s\<lparr>clients := (clients s)[i := c]\<rparr>) = (fds s)[i := connfd c]"
  by (simp add: fds_def map_update)

lemma fds_nth: "i < length (clients s) \<Longrightarrow> fds s ! i = connfd (clients s ! i)" "length (fds s) = length (clients s)"
  by (simp_all add: fds_def)

lemma d_inv_unique:
  assumes "d_table F s" "i < length (clients s)" "j < length (clients s)" "connfd (clients s ! i) = connfd (clients s ! j)" "0 \<le> connfd (clients s ! i)"
  shows "i = j"
proof (rule ccontr)
  assume "i \<noteq> j"
  define m n where "m = min i j" and "n = max i j"
  have mn: "m < n" "n < length (fds s)" "fds s ! m = fds s ! n" "0 \<le> fds s ! m"
    using assms \<open>i \<noteq> j\<close> by (auto simp: m_def n_def fds_nth min_def max_def)
  have "fds s ! n \<in> set (drop (Suc m) (fds s))"
    using mn by (auto simp: set_conv_nth intro!: exI [of _ "n - Suc m"])
  then have "fds s ! n \<in> set (in_use (drop (Suc m) (fds s)))"
    using mn by (simp add: set_in_use)
  then show False
    using assms(1) mn in_use_split [of m "fds s"] by (auto simp: d_table_def table_inv_def in_use_def)
qed

lemma reg_entry:
  assumes "d_inv F s" "registered s fd = Some v" "fd \<noteq> connfd (clients s ! i)"
  shows "\<exists>j < length (clients s). connfd (clients s ! j) = fd \<and> (cl_family (clients s ! j), lport (clients s ! j)) = v \<and> j \<noteq> i \<and> 0 \<le> fd"
  using assms unfolding d_inv_def by blast

lemma reg_nonneg: "d_inv F s \<Longrightarrow> registered s fd = Some v \<Longrightarrow> 0 \<le> fd"
  unfolding d_inv_def by blast

lemma listen_inv:
  assumes inv: "d_inv F s" and "fresh_accept ev s" "readable_listen ev s = Inr s'"
  shows "d_inv F s'"
proof -
  have t: "d_table F s"
    using inv by (simp add: d_inv_def)
  then obtain i where i: "free_slot 0 (fds s) = Some i" "i < length (fds s)" "fds s ! i < 0"
    using table_has_slot unfolding d_table_def by blast
  with assms(2,3) obtain c where c: "c \<notin> d_allset s" "0 \<le> c" "c < FD_SETSIZE"
    and s': "s' = s\<lparr>clients := (clients s)[i := (clients s ! i)\<lparr>connfd := c\<rparr>], d_allset := insert c (d_allset s), d_maxfd := max (d_maxfd s) c,
      d_maxi := max (d_maxi s) (int i), d_io := d_io s @ [DAccepted c]\<rparr>"
    by (auto simp: readable_listen_def fresh_accept_def FD_SET_def fds_def split: sum.splits if_splits)
  have "fds s' = (fds s)[i := c]"
    by (simp add: s' fds_def map_update)
  then have "d_table F s'"
    using table_add [OF t [unfolded d_table_def] i(2,3) c] by (simp add: d_table_def s')
  moreover have "\<exists>j < length (clients s). connfd (clients s ! j) = fd \<and> (cl_family (clients s ! j), lport (clients s ! j)) = v \<and> j \<noteq> i \<and> 0 \<le> fd"
    if "registered s fd = Some v" for fd v
    using reg_entry [OF inv that, of i] reg_nonneg [OF inv that] i by (auto simp: fds_nth)
  ultimately show ?thesis
    using i(2) by (fastforce simp: d_inv_def s' fds_nth split: if_splits)
qed

lemma conn_done_inv:
  assumes inv: "d_inv F s" and i: "i < length (clients s)" "0 \<le> connfd (clients s ! i)" and c: "connfd c = connfd (clients s ! i)"
  shows "d_inv F (conn_done i (s\<lparr>clients := (clients s)[i := c]\<rparr>))"
proof -
  have t: "d_table F s"
    using inv by (simp add: d_inv_def)
  let ?s = "conn_done i (s\<lparr>clients := (clients s)[i := c]\<rparr>)"
  have s': "fds ?s = (fds s)[i := - 1]" "d_maxi ?s = d_maxi s" "d_maxfd ?s = d_maxfd s" "d_allset ?s = d_allset s - {fds s ! i}"
    using i c by (simp_all add: conn_done_def fds_def map_update Let_def)
  have "d_table F ?s"
    using table_drop [OF t [unfolded d_table_def]] i unfolding d_table_def s' by (simp add: fds_nth)
  moreover have "\<exists>j < length (clients s). connfd (clients s ! j) = fd \<and> (cl_family (clients s ! j), lport (clients s ! j)) = v \<and> j \<noteq> i \<and> 0 \<le> fd"
    if "registered s fd = Some v" "fd \<noteq> connfd (clients s ! i)" for fd v
    using reg_entry [OF inv that] .
  moreover have "registered ?s = (registered s)(connfd (clients s ! i) := None)"
    using i c by (simp add: conn_done_def Let_def registered_def)
  moreover have "clients ?s = (clients s)[i := c\<lparr>connfd := - 1\<rparr>]"
    using i by (simp add: conn_done_def Let_def)
  ultimately show ?thesis
    by (fastforce simp: d_inv_def split: if_splits)
qed

lemma conn_inv:
  assumes inv: "d_inv F s" and i: "i < length (clients s)" "0 \<le> connfd (clients s ! i)" and run: "readable_conn ev i s = Inr s'"
  shows "d_inv F s'"
proof -
  let ?fd = "connfd (clients s ! i)"
  have closed: "d_inv F (conn_done i s)"
    using conn_done_inv [OF inv i refl] by simp
  have closed_after: "d_inv F (conn_done i (s\<lparr>clients := (clients s)[i := (clients s ! i)\<lparr>cl_family := f, lport := p\<rparr>]\<rparr>))" for f p
    using conn_done_inv [OF inv i] by simp
  have "d_inv F (s\<lparr>clients := (clients s)[i := (clients s ! i)\<lparr>cl_family := f, lport := p\<rparr>], d_io := d_io s @ [Registered ?fd f p]\<rparr>)"
    (is "d_inv F ?s") for f p
  proof -
    have "fds ?s = fds s"
      using i by (simp add: fds_def map_update list_update_same_conv)
    then have "d_table F ?s"
      using inv by (simp add: d_inv_def d_table_def)
    moreover have "\<exists>j < length (clients s). connfd (clients s ! j) = fd \<and> (cl_family (clients s ! j), lport (clients s ! j)) = v \<and> j \<noteq> i \<and> 0 \<le> fd"
      if "registered s fd = Some v" "fd \<noteq> ?fd" for fd v
      using reg_entry [OF inv that] .
    ultimately show ?thesis
      using i by (fastforce simp: d_inv_def split: if_splits)
  qed
  then show ?thesis
    using run closed closed_after
    by (auto simp: readable_conn_def conn_err_def Let_def split: sum.splits option.splits if_splits)
qed

text \<open>Reports change the history only.\<close>

lemma report_io:
  "report ev fam sport err is s = Inr s' \<Longrightarrow>
    s' = s\<lparr>d_io := d_io s @ map (\<lambda>i. Reported (connfd (clients s ! i)) err)
      (filter (\<lambda>i. 0 \<le> connfd (clients s ! i) \<and> cl_family (clients s ! i) = fam \<and> lport (clients s ! i) = sport) is)\<rparr>"
  by (induction ev fam sport err "is" s rule: report.induct) (auto simp: Let_def split: if_splits)

lemma registered_reports [simp]: "registered (s\<lparr>d_io := d_io s @ map (\<lambda>i. Reported (f i) err) is\<rparr>) = registered s"
proof -
  have "foldl reg_step m (map (\<lambda>i. Reported (f i) err) is) = m" for m
    by (induction "is") auto
  then show ?thesis
    by (simp add: registered_def)
qed

lemma d_inv_reports: "d_inv F s \<Longrightarrow> report ev fam sport err is s = Inr s' \<Longrightarrow> d_inv F s'"
  by (drule report_io) (simp add: d_inv_def d_table_def fds_def)

lemma icmp_inv: "d_inv F s \<Longrightarrow> readable_icmp ev fam pkt mem parse s = Inr s' \<Longrightarrow> d_inv F s'"
  using d_inv_reports by (auto simp: readable_icmp_def split: sum.splits option.splits prod.splits)

lemma stage_inv:
  assumes "stage isset f r = Inr (n, s)" "\<And>n s. r = Inr (n, s) \<Longrightarrow> Q s" "\<And>s s'. Q s \<Longrightarrow> f s = Inr s' \<Longrightarrow> Q s'"
  shows "Q s"
proof -
  obtain m t where r: "r = Inr (m, t)" "Q t"
    using assms(1,2) by (cases r) (auto simp: stage_def)
  then show ?thesis
    using assms(1,3) by (cases m) (auto simp: stage_def split: if_splits sum.splits)
qed

lemma icmp4_inv: "d_inv F s \<Longrightarrow> readable_v4 be ev s = Inr s' \<Longrightarrow> d_inv F s'"
  unfolding readable_v4_def by (rule icmp_inv)

lemma icmp6_inv: "d_inv F s \<Longrightarrow> readable_v6 be ev s = Inr s' \<Longrightarrow> d_inv F s'"
  unfolding readable_v6_def by (rule icmp_inv)

lemma pass_inv:
  assumes inv: "d_inv F s" and fresh: "fresh_accept ev s" and run: "icmpd_pass be fd4 fd6 listenfd ev s = Inr s'"
  shows "d_inv F s'"
proof -
  define rset where "rset = {fd \<in> d_allset s. fd \<le> d_maxfd s \<and> fd \<in> d_ready ev}"
  define r1 where "r1 = stage (listenfd \<in> rset) (readable_listen ev) (Inr (Some (int (card rset)), s))"
  define r2 where "r2 = stage (fd4 \<in> rset) (readable_v4 be ev) r1"
  define r3 where "r3 = stage (fd6 \<in> rset) (readable_v6 be ev) r2"
  note run = run [unfolded icmpd_pass_def Let_def, folded rset_def, folded r1_def, folded r2_def, folded r3_def]
  have 1: "d_inv F t" if "r1 = Inr (n, t)" for n t
    using that inv listen_inv [OF inv fresh] unfolding r1_def by (auto simp: stage_def split: sum.splits if_splits)
  have 2: "d_inv F t" if "r2 = Inr (n, t)" for n t
    using that [unfolded r2_def] by (rule stage_inv) (erule 1, erule (1) icmp4_inv)
  have 3: "d_inv F t" if "r3 = Inr (n, t)" for n t
    using that [unfolded r3_def] by (rule stage_inv) (erule 2, erule (1) icmp6_inv)
  obtain n t where r3: "r3 = Inr (n, t)"
    using run by (cases r3) auto
  then have t: "d_inv F t"
    by (rule 3)
  show ?thesis
  proof (cases n)
    case None
    then show ?thesis
      using run r3 t by simp
  next
    case (Some k)
    then have "scan (\<lambda>n. n \<le> 0) (conn_ready rset) (readable_conn ev) [0..<nat (d_maxi t + 1)] k t = Inr s'"
      using run r3 by simp
    then show ?thesis
    proof (rule scan_inv [where Q = "d_inv F"])
      fix i u u'
      assume u: "i \<in> set [0..<nat (d_maxi t + 1)]" "d_inv F u" "conn_ready rset i u" "readable_conn ev i u = Inr u'"
      have "length (clients u) = nat FD_SETSIZE" "d_maxi t < FD_SETSIZE"
        using t u(2) by (auto simp: d_inv_def d_table_def table_inv_def fds_def)
      then show "d_inv F u'"
        using conn_inv [OF u(2) _ _ u(4)] u(1,3) by (auto simp: conn_ready_def)
    qed (rule t)
  qed
qed

lemma init_inv: "icmpd_init fd4 fd6 listenfd = Inr s \<Longrightarrow> d_inv {fd4, fd6, listenfd} s"
  using table_inv_init [of "{fd4, fd6, listenfd}" "max (max fd4 fd6) listenfd"]
  by (auto simp: icmpd_init_def FD_SET_def d_inv_def d_table_def fds_def registered_def insert_commute le_max_iff_disj split: if_splits)

lemma icmpd_reach_inv: "icmpd_reach be fd4 fd6 listenfd s \<Longrightarrow> d_inv {fd4, fd6, listenfd} s"
  by (induction rule: icmpd_reach.induct) (auto intro: init_inv pass_inv)

text \<open>
  C14. Whatever clients do, in any state that the daemon reaches a message with a datagram from port \<open>sport\<close> inside is reported to every client that is registered for this
  family and port, and to no client that is registered otherwise. Each report goes to a connection that is open, and to none twice.
\<close>

theorem icmpd_reports:
  assumes "icmpd_reach be fd4 fd6 listenfd s" "readable_icmp ev fam (Inr bs) mem parse s = Inr s'"
    and "parse (fst (received mem bs)) (snd (received mem bs)) = Inr (Some (sport, err))"
  shows "\<exists>to. d_io s' = d_io s @ map (\<lambda>fd. Reported fd err) to \<and> distinct to \<and> set to \<subseteq> d_allset s \<and>
    (\<forall>fd v. registered s fd = Some v \<longrightarrow> (fd \<in> set to \<longleftrightarrow> v = (fam, sport)))"
proof -
  let ?P = "\<lambda>i. 0 \<le> connfd (clients s ! i) \<and> cl_family (clients s ! i) = fam \<and> lport (clients s ! i) = sport"
  let ?is = "filter ?P [0..<nat (d_maxi s + 1)]"
  let ?to = "map (\<lambda>i. connfd (clients s ! i)) ?is"
  have inv: "d_inv {fd4, fd6, listenfd} s"
    using assms(1) by (rule icmpd_reach_inv)
  then have t: "d_table {fd4, fd6, listenfd} s"
    by (simp add: d_inv_def)
  then have len: "i < length (clients s)" if "i < nat (d_maxi s + 1)" for i
    using that by (auto simp: d_table_def table_inv_def fds_def)
  have all: "d_allset s = {fd4, fd6, listenfd} \<union> {c \<in> set (fds s). 0 \<le> c}"
    using t by (simp add: d_table_def table_inv_def set_in_use)
  have "d_io s' = d_io s @ map (\<lambda>fd. Reported fd err) ?to"
  proof -
    have "report ev fam sport err [0..<nat (d_maxi s + 1)] s = Inr s'"
      using assms(2,3) by (cases "received mem bs") (simp add: readable_icmp_def)
    from report_io [OF this] show ?thesis
      by (simp add: comp_def)
  qed
  moreover have "inj_on (\<lambda>i. connfd (clients s ! i)) (set ?is)"
  proof (rule inj_onI)
    fix i j
    assume "i \<in> set ?is" "j \<in> set ?is" "connfd (clients s ! i) = connfd (clients s ! j)"
    then show "i = j"
      using d_inv_unique [OF t len len, of i j] by simp
  qed
  then have "distinct ?to"
    by (simp add: distinct_map)
  moreover have "connfd (clients s ! i) \<in> d_allset s" if "i \<in> set ?is" for i
    using that all nth_mem [OF len, of i] by (simp add: fds_def)
  then have "set ?to \<subseteq> d_allset s"
    by auto
  moreover have "fd \<in> set ?to \<longleftrightarrow> v = (fam, sport)" if reg: "registered s fd = Some v" for fd v
  proof -
    obtain i where i: "i < length (clients s)" "connfd (clients s ! i) = fd" "(cl_family (clients s ! i), lport (clients s ! i)) = v" "0 \<le> fd"
      using inv reg unfolding d_inv_def by blast
    then have le: "i < nat (d_maxi s + 1)"
      using t by (auto simp: d_table_def table_inv_def fds_def)
    show ?thesis
    proof
      assume "fd \<in> set ?to"
      then obtain j where j: "j < nat (d_maxi s + 1)" "?P j" "connfd (clients s ! j) = fd"
        by auto
      then have "j = i"
        using d_inv_unique [OF t len [OF j(1)] i(1)] i(2,4) by simp
      then show "v = (fam, sport)"
        using j(2) i(3) by simp
    next
      assume "v = (fam, sport)"
      then show "fd \<in> set ?to"
        using i le by (auto intro!: image_eqI [of _ _ i])
    qed
  qed
  ultimately show ?thesis
    by (intro exI [of _ ?to]) blast
qed

text \<open>A run: a client connects, registers port 513, and leaves; another one connects.\<close>

definition quiet :: d_event where
  "quiet = \<lparr>d_ready = {}, d_accept = Inl EAGAIN, read_fds = (\<lambda>_. Inr (Some 7)), sock_name = (\<lambda>_. Inr (Sin 513 [0, 0, 0, 0])), bind_ok = (\<lambda>_. True),
     bound_name = (\<lambda>_. Inl EINVAL), packet4 = Inr [], packet6 = Inr [], stack4 = [], stack6 = [], d_writes = (\<lambda>_. True)\<rparr>"

definition port_unreachable :: "byte list" where
  "port_unreachable = [0x45, 0, 0, 56, 0, 0, 0, 0, 64, 1, 0, 0, 10, 0, 0, 1, 10, 0, 0, 2, 3, 3, 0, 0, 0, 0, 0, 0,
     0x45, 0, 0, 28, 0, 0, 0, 0, 64, 17, 0, 0, 10, 0, 0, 2, 10, 0, 0, 1, 1, 2, 3, 4, 0, 8, 0, 0]"

definition one_client :: "cl \<Rightarrow> d_io list \<Rightarrow> icmpd" where
  "one_client c h = \<lparr>clients = c # replicate 1023 \<lparr>connfd = - 1, cl_family = AF_UNSPEC, lport = 0\<rparr>, d_maxi = 0, d_maxfd = 6,
     d_allset = {3, 4, 5} \<union> (if 0 \<le> connfd c then {connfd c} else {}), d_io = h\<rparr>"

lemma one_client_io [simp]: "d_io (one_client c h) = h"
  by (simp add: one_client_def)

lemma icmpd_init_345:
  "icmpd_init 3 4 5 = Inr \<lparr>clients = \<lparr>connfd = - 1, cl_family = AF_UNSPEC, lport = 0\<rparr> # replicate 1023 \<lparr>connfd = - 1, cl_family = AF_UNSPEC, lport = 0\<rparr>,
     d_maxi = - 1, d_maxfd = 5, d_allset = {3, 4, 5}, d_io = []\<rparr>"
  by (auto simp: icmpd_init_def FD_SET_def FD_SETSIZE_def simp flip: replicate_Suc)

lemma select_one: "{fd \<in> S. fd \<le> m \<and> fd \<in> {x}} = (if x \<in> S \<and> x \<le> m then {x} else {})"
  by auto

lemmas daemon_eval = icmpd_pass_def Let_def stage_def quiet_def one_client_def readable_listen_def FD_SET_def FD_SETSIZE_def select_one
  conn_ready_def readable_conn_def sa_family_def sock_get_port_def conn_done_def upt_rec insert_commute

lemma one_client_accept:
  "icmpd_pass False 3 4 5 (quiet\<lparr>d_ready := {5}, d_accept := Inr 6\<rparr>) (one_client \<lparr>connfd = - 1, cl_family = f, lport = p\<rparr> h) =
     Inr (one_client \<lparr>connfd = 6, cl_family = f, lport = p\<rparr> (h @ [DAccepted 6]))"
  by (simp add: daemon_eval)

lemma one_client_register:
  "icmpd_pass False 3 4 5 (quiet\<lparr>d_ready := {6}\<rparr>) (one_client \<lparr>connfd = 6, cl_family = f, lport = p\<rparr> h) =
     Inr (one_client \<lparr>connfd = 6, cl_family = AF_INET, lport = 513\<rparr> (h @ [Registered 6 AF_INET 513]))"
  by (simp add: daemon_eval)

lemma one_client_leave:
  "icmpd_pass False 3 4 5 (quiet\<lparr>d_ready := {6}, read_fds := (\<lambda>_. Inr None)\<rparr>) (one_client \<lparr>connfd = 6, cl_family = f, lport = p\<rparr> h) =
     Inr (one_client \<lparr>connfd = - 1, cl_family = f, lport = p\<rparr> (h @ [DClosed 6]))"
  by (auto simp: daemon_eval)

lemma first_client:
  "icmpd_reach False 3 4 5 (one_client \<lparr>connfd = 6, cl_family = AF_INET, lport = 513\<rparr> [DAccepted 6, Registered 6 AF_INET 513])"
proof -
  let ?s = "\<lparr>clients = \<lparr>connfd = - 1, cl_family = AF_UNSPEC, lport = 0\<rparr> # replicate 1023 \<lparr>connfd = - 1, cl_family = AF_UNSPEC, lport = 0\<rparr>,
     d_maxi = - 1, d_maxfd = 5, d_allset = {3, 4, 5}, d_io = []\<rparr>"
  have "icmpd_pass False 3 4 5 (quiet\<lparr>d_ready := {5}, d_accept := Inr 6\<rparr>) ?s = Inr (one_client \<lparr>connfd = 6, cl_family = AF_UNSPEC, lport = 0\<rparr> [DAccepted 6])"
    by (simp add: daemon_eval)
  from icmpd_reach.pass [OF icmpd_reach.start [OF icmpd_init_345] _ this]
  have "icmpd_reach False 3 4 5 (one_client \<lparr>connfd = 6, cl_family = AF_UNSPEC, lport = 0\<rparr> [DAccepted 6])"
    by (simp add: fresh_accept_def quiet_def)
  from icmpd_reach.pass [OF this _ one_client_register] show ?thesis
    by (simp add: fresh_accept_def quiet_def)
qed

lemma second_client:
  "icmpd_reach False 3 4 5 (one_client \<lparr>connfd = 6, cl_family = AF_INET, lport = 513\<rparr> [DAccepted 6, Registered 6 AF_INET 513, DClosed 6, DAccepted 6])"
proof -
  from icmpd_reach.pass [OF first_client _ one_client_leave]
  have "icmpd_reach False 3 4 5 (one_client \<lparr>connfd = - 1, cl_family = AF_INET, lport = 513\<rparr> [DAccepted 6, Registered 6 AF_INET 513, DClosed 6])"
    by (simp add: fresh_accept_def quiet_def)
  from icmpd_reach.pass [OF this _ one_client_accept] show ?thesis
    by (simp add: fresh_accept_def quiet_def one_client_def)
qed

text \<open>The report that the message makes.\<close>

definition refused :: icmpd_err where
  "refused = \<lparr>icmpd_errno = ECONNREFUSED, icmpd_type = 3, icmpd_code = 3, icmpd_len = 16, icmpd_dest = Sin 0x403 [10, 0, 0, 1]\<rparr>"

lemma port_unreachable_parse:
  "parse_v4 False (fst (received mem port_unreachable)) (snd (received mem port_unreachable)) = Inr (Some (513, refused))"
  by (simp add: parse_v4_def port_unreachable_def received_def MAXLINE_def ip_hlen_def refused_def icmp_errno_def raw16_def)

lemma one_client_reported:
  "readable_icmp quiet AF_INET (Inr port_unreachable) [] (parse_v4 False) (one_client \<lparr>connfd = 6, cl_family = AF_INET, lport = 513\<rparr> h) =
     Inr (one_client \<lparr>connfd = 6, cl_family = AF_INET, lport = 513\<rparr> (h @ [Reported 6 refused]))"
  using port_unreachable_parse [of "[]"]
  by (cases "received [] port_unreachable") (simp add: readable_icmp_def one_client_def quiet_def)

theorem icmpd_reports_witness:
  "registered (one_client \<lparr>connfd = 6, cl_family = AF_INET, lport = 513\<rparr> [DAccepted 6, Registered 6 AF_INET 513]) 6 = Some (AF_INET, 513) \<and>
   (\<exists>to. [Reported 6 refused] = map (\<lambda>fd. Reported fd refused) to \<and> 6 \<in> set to)"
proof -
  let ?c = "\<lparr>connfd = 6, cl_family = AF_INET, lport = 513\<rparr>" and ?h = "[DAccepted 6, Registered 6 AF_INET 513]"
  have reg: "registered (one_client ?c ?h) 6 = Some (AF_INET, 513)"
    by (simp add: registered_def)
  obtain to where to: "d_io (one_client ?c (?h @ [Reported 6 refused])) = d_io (one_client ?c ?h) @ map (\<lambda>fd. Reported fd refused) to"
    "\<forall>fd v. registered (one_client ?c ?h) fd = Some v \<longrightarrow> (fd \<in> set to \<longleftrightarrow> v = (AF_INET, 513))"
    using icmpd_reports [OF first_client one_client_reported port_unreachable_parse] by blast
  have "[Reported 6 refused] = map (\<lambda>fd. Reported fd refused) to"
    using to(1) unfolding one_client_io by simp
  moreover have "6 \<in> set to"
    using to(2) [rule_format, OF reg] by simp
  ultimately show ?thesis
    using reg by (intro conjI exI [of _ to])
qed

text \<open>
  A new client that gets the entry of one that has left receives the reports for the port of that one, although it
  has not registered.
\<close>

lemma icmpd_reports_to_stranger:
  defines "s \<equiv> one_client \<lparr>connfd = 6, cl_family = AF_INET, lport = 513\<rparr> [DAccepted 6, Registered 6 AF_INET 513, DClosed 6, DAccepted 6]"
  shows "icmpd_reach False 3 4 5 s \<and> registered s 6 = None \<and>
    (\<exists>s'. readable_icmp quiet AF_INET (Inr port_unreachable) [] (parse_v4 False) s = Inr s' \<and> d_io s' = d_io s @ [Reported 6 refused])"
  using second_client one_client_reported unfolding s_def by (simp add: registered_def one_client_def)

text \<open>An ICMPv6 message of sixteen bytes passes the checks, and the port is read from what the stack holds behind it.\<close>

lemma short_icmp6_reads_stack:
  "length (snd (received mem [1, 4, 0, 0, 0, 0, 0, 0, 0, 0, 0, 0, 0, 0, 17, 0])) = 4096 \<Longrightarrow>
   \<exists>err. parse_v6 False (fst (received mem [1, 4, 0, 0, 0, 0, 0, 0, 0, 0, 0, 0, 0, 0, 17, 0]))
     (snd (received mem [1, 4, 0, 0, 0, 0, 0, 0, 0, 0, 0, 0, 0, 0, 17, 0])) = Inr (Some (uint (raw16 False mem 48), err))"
  by (auto simp: received_def parse_v6_def raw16_def MAXLINE_def)

end
