(* ===== verification/PreforkServer.thy ===== *)
theory PreforkServer
  imports ReadyLoop
begin

text \<open>
  The server that passes connections to its children, \<^verbatim>\<open>src/unixNetV1/server/serv05.c\<close> with \<^verbatim>\<open>child05.c\<close>. The parent accepts a connection only when a child is available, passes the
  descriptor over the child's stream pipe, and marks the child as busy; the child serves the connection and writes a byte to tell that it is ready
  again. A step of the system is a pass of the parent's loop or one of the two halves of the child's loop. The theory shows, for all
  interleavings, that every connection is served by one child and once, that a child never has two connections, and that the parent
  never finds itself without an available child.
\<close>

subsection \<open>Model\<close>

text \<open>
  What the parent knows of a child (the structure \<^verbatim>\<open>Child\<close>), and the state of the child itself: descriptors in the pipe that it has not
  read yet, the connection it serves, bytes that the parent has not read yet, and the connections it has served.
\<close>

record child =
  child_pipefd :: int
  child_status :: nat
  child_count :: nat
  in_pipe :: "int list"
  serving :: "int option"
  out_bytes :: nat
  served :: "int list"

record prefork =
  cptr :: "child list"
  navail :: int
  masterset :: "int set"
  pf_maxfd :: int
  accepted :: "int list"

record pf_event =
  pf_ready :: "int set"
  pf_accept :: "int res"
  pass_ok :: bool

datatype pf_exit = No_child | Child_died | Pf_error | Pf_range

text \<open>\<^verbatim>\<open>child_make\<close> for the given ends of the stream pipes.\<close>

definition child_make :: "int \<Rightarrow> child" where
  "child_make fd = \<lparr>child_pipefd = fd, child_status = 0, child_count = 0, in_pipe = [], serving = None, out_bytes = 0, served = []\<rparr>"

definition prefork_init :: "int \<Rightarrow> int list \<Rightarrow> pf_exit + prefork" where
  "prefork_init listenfd pipes =
     (if list_all (\<lambda>fd. FD_SET fd {} \<noteq> None) (listenfd # pipes) then
        Inr \<lparr>cptr = map child_make pipes, navail = int (length pipes), masterset = insert listenfd (set pipes),
          pf_maxfd = foldl max listenfd pipes, accepted = []\<rparr>
      else Inl Pf_range)"

fun find_child :: "nat \<Rightarrow> child list \<Rightarrow> nat option" where
  "find_child k [] = None"
| "find_child k (c # cs) = (if child_status c = 0 then Some k else find_child (k + 1) cs)"

definition dispatch :: "pf_event \<Rightarrow> prefork \<Rightarrow> pf_exit + prefork" where
  "dispatch ev s = (case pf_accept ev of Inl e \<Rightarrow> Inl Pf_error | Inr connfd \<Rightarrow>
     (case find_child 0 (cptr s) of None \<Rightarrow> Inl No_child
      | Some i \<Rightarrow>
          let c = cptr s ! i in
          if pass_ok ev then
            Inr (s\<lparr>cptr := (cptr s)[i := c\<lparr>child_status := 1, child_count := child_count c + 1, in_pipe := in_pipe c @ [connfd]\<rparr>],
              navail := navail s - 1, accepted := accepted s @ [connfd]\<rparr>)
          else Inl Pf_error))"

text \<open>A read of the child's pipe that gives no byte is the end of the child.\<close>

definition child_back :: "nat \<Rightarrow> prefork \<Rightarrow> pf_exit + prefork" where
  "child_back i s = (let c = cptr s ! i in
     if out_bytes c = 0 then Inl Child_died
     else Inr (s\<lparr>cptr := (cptr s)[i := c\<lparr>child_status := 0, out_bytes := out_bytes c - 1\<rparr>], navail := navail s + 1\<rparr>))"

definition back_ready :: "int set \<Rightarrow> nat \<Rightarrow> prefork \<Rightarrow> bool" where
  "back_ready rset i s = (child_pipefd (cptr s ! i) \<in> rset)"

definition back_loop :: "int set \<Rightarrow> int \<Rightarrow> prefork \<Rightarrow> pf_exit + prefork" where
  "back_loop rset nsel s = scan (\<lambda>n. n = 0) (back_ready rset) child_back [0..<length (cptr s)] nsel s"

definition pf_select :: "int \<Rightarrow> pf_event \<Rightarrow> prefork \<Rightarrow> int set" where
  "pf_select listenfd ev s =
     (let rset = (if navail s \<le> 0 then masterset s - {listenfd} else masterset s) in {fd \<in> rset. fd \<le> pf_maxfd s \<and> fd \<in> pf_ready ev})"

definition prefork_pass :: "int \<Rightarrow> pf_event \<Rightarrow> prefork \<Rightarrow> pf_exit + prefork" where
  "prefork_pass listenfd ev s =
     (let rset = pf_select listenfd ev s; nsel = int (card rset) in
      if listenfd \<in> rset then
        (case dispatch ev s of Inl e \<Rightarrow> Inl e | Inr s1 \<Rightarrow> if nsel - 1 = 0 then Inr s1 else back_loop rset (nsel - 1) s1)
      else back_loop rset nsel s)"

text \<open>The loop of \<^verbatim>\<open>child_main\<close>: taking a descriptor from the pipe, and after the service closing it and writing a byte.\<close>

definition child_take :: "child \<Rightarrow> child option" where
  "child_take c = (case (serving c, in_pipe c) of (None, fd # rest) \<Rightarrow> Some (c\<lparr>serving := Some fd, in_pipe := rest\<rparr>) | _ \<Rightarrow> None)"

definition child_done :: "child \<Rightarrow> child option" where
  "child_done c = (case serving c of None \<Rightarrow> None
     | Some fd \<Rightarrow> Some (c\<lparr>serving := None, served := served c @ [fd], out_bytes := out_bytes c + 1\<rparr>))"

text \<open>An event is possible when the pipes reported as readable hold a byte; the children do not end.\<close>

definition possible :: "pf_event \<Rightarrow> prefork \<Rightarrow> bool" where
  "possible ev s \<longleftrightarrow> (\<forall>c \<in> set (cptr s). child_pipefd c \<in> pf_ready ev \<longrightarrow> 0 < out_bytes c)"

inductive pf_step :: "int \<Rightarrow> prefork \<Rightarrow> prefork \<Rightarrow> bool" for listenfd where
  parent: "possible ev s \<Longrightarrow> prefork_pass listenfd ev s = Inr s' \<Longrightarrow> pf_step listenfd s s'"
| takes: "i < length (cptr s) \<Longrightarrow> child_take (cptr s ! i) = Some c \<Longrightarrow> pf_step listenfd s (s\<lparr>cptr := (cptr s)[i := c]\<rparr>)"
| finishes: "i < length (cptr s) \<Longrightarrow> child_done (cptr s ! i) = Some c \<Longrightarrow> pf_step listenfd s (s\<lparr>cptr := (cptr s)[i := c]\<rparr>)"

interpretation pre: ready_loop "\<lambda>n. n = 0" "back_ready rset" child_back for rset
  by unfold_locales (auto simp: child_back_def back_ready_def Let_def nth_list_update split: if_splits)

subsection \<open>The invariant\<close>

text \<open>The connections that a child has, and has had.\<close>

definition at_child :: "child \<Rightarrow> int list" where
  "at_child c = (case serving c of None \<Rightarrow> [] | Some fd \<Rightarrow> [fd]) @ in_pipe c"

definition child_ok :: "child \<Rightarrow> bool" where
  "child_ok c \<longleftrightarrow> child_status c \<le> 1 \<and> length (at_child c) + out_bytes c = child_status c \<and>
     child_count c = length (at_child c) + length (served c)"

definition pf_conns :: "prefork \<Rightarrow> int multiset" where
  "pf_conns s = (\<Sum>c \<leftarrow> cptr s. mset (at_child c) + mset (served c))"

definition pf_inv :: "int \<Rightarrow> prefork \<Rightarrow> bool" where
  "pf_inv l s \<longleftrightarrow> distinct (map child_pipefd (cptr s)) \<and> l \<notin> child_pipefd ` set (cptr s) \<and>
     masterset s = insert l (child_pipefd ` set (cptr s)) \<and> (\<forall>fd \<in> masterset s. fd \<le> pf_maxfd s) \<and>
     (\<forall>c \<in> set (cptr s). child_ok c) \<and> navail s = (\<Sum>c \<leftarrow> cptr s. of_bool (child_status c = 0)) \<and>
     mset (accepted s) = pf_conns s"

lemma foldl_max: "foldl max (m :: int) xs \<ge> m \<and> (\<forall>x \<in> set xs. x \<le> foldl max m xs)"
proof (induction xs arbitrary: m)
  case (Cons x xs)
  from Cons.IH [of "max m x"] show ?case
    by auto
qed simp

lemma prefork_init_inv:
  assumes "prefork_init l pipes = Inr s" "distinct (l # pipes)"
  shows "pf_inv l s"
proof -
  have "(\<Sum>c \<leftarrow> map child_make pipes. of_bool (child_status c = 0) :: int) = int (length pipes)"
    "(\<Sum>c \<leftarrow> map child_make pipes. mset (at_child c) + mset (served c)) = {#}"
    by (induction pipes) (auto simp: child_make_def at_child_def)
  then show ?thesis
    using assms foldl_max [of l pipes]
    by (auto simp: prefork_init_def pf_inv_def pf_conns_def child_make_def child_ok_def at_child_def comp_def image_image split: if_splits)
qed

text \<open>Changing one child keeps the rest of the invariant.\<close>

lemma pf_inv_child:
  assumes inv: "pf_inv l s" and i: "i < length (cptr s)" and c: "child_ok c" "child_pipefd c = child_pipefd (cptr s ! i)"
    and n: "navail t = navail s + of_bool (child_status c = 0) - of_bool (child_status (cptr s ! i) = 0)"
    and d: "mset (at_child c) + mset (served c) = mset (at_child (cptr s ! i)) + mset (served (cptr s ! i)) + d" "mset (accepted t) = mset (accepted s) + d"
    and t: "cptr t = (cptr s)[i := c]" "masterset t = masterset s" "pf_maxfd t = pf_maxfd s"
  shows "pf_inv l t"
proof -
  have "map child_pipefd (cptr t) = map child_pipefd (cptr s)"
    using i c(2) by (simp add: t map_update list_update_same_conv)
  moreover from this have "child_pipefd ` set (cptr t) = child_pipefd ` set (cptr s)"
    by (metis set_map)
  moreover have "pf_conns t = pf_conns s + d"
    using sum_list_update_add [OF i, where f = "\<lambda>c. mset (at_child c) + mset (served c)" and y = c and d = d] d(1) by (simp add: pf_conns_def t)
  moreover have "navail t = (\<Sum>c \<leftarrow> cptr t. of_bool (child_status c = 0))"
    using inv n i by (simp add: pf_inv_def t sum_list_map_update)
  moreover have "\<forall>c \<in> set (cptr t). child_ok c"
    using inv c(1) set_update_subset_insert [of "cptr s" i c] by (auto simp: pf_inv_def t)
  ultimately show ?thesis
    using inv d(2) by (simp add: pf_inv_def t)
qed

lemma child_take_inv:
  assumes inv: "pf_inv l s" and i: "i < length (cptr s)" and c: "child_take (cptr s ! i) = Some c"
  shows "pf_inv l (s\<lparr>cptr := (cptr s)[i := c]\<rparr>)"
proof (rule pf_inv_child [OF inv i, where c = c and d = "{#}"])
  have "child_ok (cptr s ! i)"
    using inv i by (auto simp: pf_inv_def)
  then show "child_ok c"
    using c by (auto simp: child_take_def child_ok_def at_child_def split: option.splits list.splits)
qed (use c in \<open>auto simp: child_take_def at_child_def split: option.splits list.splits\<close>)

lemma child_done_inv:
  assumes inv: "pf_inv l s" and i: "i < length (cptr s)" and c: "child_done (cptr s ! i) = Some c"
  shows "pf_inv l (s\<lparr>cptr := (cptr s)[i := c]\<rparr>)"
proof (rule pf_inv_child [OF inv i, where c = c and d = "{#}"])
  have "child_ok (cptr s ! i)"
    using inv i by (auto simp: pf_inv_def)
  then show "child_ok c"
    using c by (auto simp: child_done_def child_ok_def at_child_def split: option.splits)
qed (use c in \<open>auto simp: child_done_def at_child_def split: option.splits\<close>)

lemma child_back_inv:
  assumes inv: "pf_inv l s" and i: "i < length (cptr s)" and b: "0 < out_bytes (cptr s ! i)"
  shows "\<exists>s'. child_back i s = Inr s' \<and> pf_inv l s' \<and> length (cptr s') = length (cptr s) \<and> (\<forall>j. j \<noteq> i \<longrightarrow> cptr s' ! j = cptr s ! j) \<and>
    child_status (cptr s' ! i) = 0 \<and> accepted s' = accepted s"
proof -
  let ?c = "cptr s ! i"
  let ?t = "s\<lparr>cptr := (cptr s)[i := ?c\<lparr>child_status := 0, out_bytes := out_bytes ?c - 1\<rparr>], navail := navail s + 1\<rparr>"
  have ok: "child_ok ?c"
    using inv i by (auto simp: pf_inv_def)
  then have "child_status ?c = 1" "at_child ?c = []" "out_bytes ?c = 1"
    using b by (auto simp: child_ok_def simp flip: length_0_conv)
  then have "pf_inv l ?t"
    using ok by (intro pf_inv_child [OF inv i, where c = "?c\<lparr>child_status := 0, out_bytes := out_bytes ?c - 1\<rparr>" and d = "{#}"])
      (auto simp: child_ok_def at_child_def)
  then show ?thesis
    using b i by (simp add: child_back_def Let_def)
qed

lemma find_child_Some: "find_child k cs = Some i \<Longrightarrow> k \<le> i \<and> i < k + length cs \<and> child_status (cs ! (i - k)) = 0"
  by (induction cs arbitrary: k) (fastforce split: if_splits simp: nth_Cons' Suc_diff_le)+

lemma find_child_None: "find_child k cs = None \<longleftrightarrow> (\<forall>c \<in> set cs. child_status c \<noteq> 0)"
  by (induction cs arbitrary: k) auto

lemma dispatch_inv:
  assumes inv: "pf_inv l s" and av: "0 < navail s" and ev: "pf_accept ev = Inr c" "pass_ok ev"
  shows "\<exists>s' i. dispatch ev s = Inr s' \<and> pf_inv l s' \<and> i < length (cptr s) \<and> length (cptr s') = length (cptr s) \<and>
    (\<forall>j. j \<noteq> i \<longrightarrow> cptr s' ! j = cptr s ! j) \<and> child_status (cptr s ! i) = 0 \<and> in_pipe (cptr s' ! i) = [c] \<and> accepted s' = accepted s @ [c] \<and>
    map child_pipefd (cptr s') = map child_pipefd (cptr s)"
proof -
  have "find_child 0 (cptr s) \<noteq> None"
  proof
    assume "find_child 0 (cptr s) = None"
    then have "(\<Sum>c \<leftarrow> cptr s. of_bool (child_status c = 0) :: int) = (\<Sum>c \<leftarrow> cptr s. 0)"
      by (intro arg_cong [of _ _ sum_list] map_cong) (auto simp: find_child_None)
    then show False
      using av inv by (simp add: pf_inv_def)
  qed
  then obtain i where i: "find_child 0 (cptr s) = Some i" "i < length (cptr s)" "child_status (cptr s ! i) = 0"
    using find_child_Some by fastforce
  let ?c = "cptr s ! i"
  let ?d = "?c\<lparr>child_status := 1, child_count := child_count ?c + 1, in_pipe := in_pipe ?c @ [c]\<rparr>"
  let ?t = "s\<lparr>cptr := (cptr s)[i := ?d], navail := navail s - 1, accepted := accepted s @ [c]\<rparr>"
  have ok: "child_ok ?c"
    using inv i by (auto simp: pf_inv_def)
  then have "at_child ?c = []" "out_bytes ?c = 0" "in_pipe ?c = []"
    using i(3) by (auto simp: child_ok_def at_child_def)
  then have "pf_inv l ?t"
    using ok i(3) by (intro pf_inv_child [OF inv i(2), where c = ?d and d = "{#c#}"])
      (auto simp: child_ok_def at_child_def)
  moreover have "dispatch ev s = Inr ?t"
    using i ev by (simp add: dispatch_def Let_def)
  ultimately show ?thesis
    using i \<open>in_pipe ?c = []\<close> by (intro exI [of _ ?t] exI [of _ i]) (simp add: map_update list_update_same_conv)
qed

lemma serve_back:
  assumes "pf_inv l s" "distinct js" "\<forall>j \<in> set js. j < length (cptr s) \<and> 0 < out_bytes (cptr s ! j)"
  shows "\<exists>s'. serve child_back js s = Inr s' \<and> pf_inv l s' \<and> accepted s' = accepted s"
  using assms
proof (induction js arbitrary: s)
  case (Cons j js)
  obtain s1 where s1: "child_back j s = Inr s1" "pf_inv l s1" "length (cptr s1) = length (cptr s)" "accepted s1 = accepted s"
    and same: "\<forall>k. k \<noteq> j \<longrightarrow> cptr s1 ! k = cptr s ! k"
    using child_back_inv [of l s j] Cons.prems by auto
  have "cptr s1 ! k = cptr s ! k" if "k \<in> set js" for k
    using same that Cons.prems(2) by auto
  then show ?case
    using Cons.IH [OF s1(2)] Cons.prems s1 by simp
qed simp

lemma back_loop_inv:
  assumes inv: "pf_inv l s" and n: "int (card (R \<inter> child_pipefd ` set (cptr s))) \<le> n"
    and b: "\<forall>c \<in> set (cptr s). child_pipefd c \<in> R \<longrightarrow> 0 < out_bytes c"
  shows "\<exists>s'. back_loop R n s = Inr s' \<and> pf_inv l s' \<and> accepted s' = accepted s"
proof -
  let ?js = "filter (\<lambda>i. back_ready R i s) [0..<length (cptr s)]"
  have "map (\<lambda>i. child_pipefd (cptr s ! i)) ?js = filter (\<lambda>fd. fd \<in> R) (map child_pipefd (cptr s))"
  proof -
    have "map child_pipefd (cptr s) = map (\<lambda>i. child_pipefd (cptr s ! i)) [0..<length (cptr s)]"
      by (intro nth_equalityI) simp_all
    then show ?thesis
      by (simp add: filter_map comp_def back_ready_def)
  qed
  from arg_cong [OF this, of length] have "length ?js = length (filter (\<lambda>fd. fd \<in> R) (map child_pipefd (cptr s)))"
    by simp
  also have "\<dots> = card (set (filter (\<lambda>fd. fd \<in> R) (map child_pipefd (cptr s))))"
    using inv by (intro distinct_card [symmetric]) (simp add: pf_inv_def)
  also have "set (filter (\<lambda>fd. fd \<in> R) (map child_pipefd (cptr s))) = R \<inter> child_pipefd ` set (cptr s)"
    by auto
  finally have "int (length ?js) \<le> n"
    using n by linarith
  then have loop: "back_loop R n s = serve child_back ?js s"
    unfolding back_loop_def by (intro pre.scan_serves) simp_all
  have "\<forall>j \<in> set ?js. j < length (cptr s) \<and> 0 < out_bytes (cptr s ! j)"
    using b by (auto simp: back_ready_def)
  then show ?thesis
    unfolding loop by (intro serve_back [OF inv]) simp_all
qed

lemma prefork_pass_inv:
  assumes inv: "pf_inv l s" and ev: "possible ev s" "pf_accept ev = Inr c" "pass_ok ev"
  shows "\<exists>s'. prefork_pass l ev s = Inr s' \<and> pf_inv l s' \<and>
    accepted s' = accepted s @ (if l \<in> pf_ready ev \<and> 0 < navail s then [c] else [])"
proof -
  let ?R = "pf_select l ev s"
  have l: "l \<in> ?R \<longleftrightarrow> l \<in> pf_ready ev \<and> 0 < navail s" "?R \<subseteq> insert l (child_pipefd ` set (cptr s))" "?R \<subseteq> pf_ready ev" "l \<notin> child_pipefd ` set (cptr s)"
    using inv by (auto simp: pf_select_def pf_inv_def Let_def)
  have fin: "finite ?R"
    using finite_subset [OF l(2)] by simp
  have R: "?R \<inter> child_pipefd ` set (cptr s) = ?R - {l}"
    using l(2,4) by auto
  show ?thesis
  proof (cases "l \<in> ?R")
    case False
    have b: "\<forall>c \<in> set (cptr s). child_pipefd c \<in> ?R \<longrightarrow> 0 < out_bytes c"
      using l(3) ev(1) by (auto simp: possible_def)
    have n: "int (card (?R \<inter> child_pipefd ` set (cptr s))) \<le> int (card ?R)"
      unfolding R using False by simp
    have acc: "(if l \<in> pf_ready ev \<and> 0 < navail s then [c] else []) = []"
      using False l(1) by simp
    show ?thesis
      unfolding acc prefork_pass_def Let_def using False back_loop_inv [OF inv n b] by simp
  next
    case True
    have av: "0 < navail s"
      using True l(1) by blast
    obtain s1 i where s1: "dispatch ev s = Inr s1" "pf_inv l s1" "i < length (cptr s)" "length (cptr s1) = length (cptr s)"
      "\<forall>j. j \<noteq> i \<longrightarrow> cptr s1 ! j = cptr s ! j" "child_status (cptr s ! i) = 0" "accepted s1 = accepted s @ [c]"
      "map child_pipefd (cptr s1) = map child_pipefd (cptr s)"
      using dispatch_inv [OF inv av ev(2,3)] by blast
    have pipes: "child_pipefd ` set (cptr s1) = child_pipefd ` set (cptr s)"
      using arg_cong [OF s1(8), of set] by simp
    have "0 < out_bytes c" if "c \<in> set (cptr s1)" "child_pipefd c \<in> ?R" for c
    proof -
      obtain j where j: "j < length (cptr s)" "c = cptr s1 ! j"
        using \<open>c \<in> set (cptr s1)\<close> s1(4) by (auto simp: in_set_conv_nth)
      then have "child_pipefd (cptr s ! j) = child_pipefd c"
        using arg_cong [OF s1(8), of "\<lambda>xs. xs ! j"] s1(4) by simp
      then have "0 < out_bytes (cptr s ! j)"
        using ev(1) j(1) that(2) l(3) by (auto simp: possible_def)
      moreover have "child_ok (cptr s ! i)"
        using inv s1(3) by (auto simp: pf_inv_def)
      ultimately have "j \<noteq> i" "0 < out_bytes (cptr s ! j)"
        using s1(6) by (auto simp: child_ok_def)
      then show ?thesis
        using s1(5) j by simp
    qed
    then have b: "\<forall>c \<in> set (cptr s1). child_pipefd c \<in> ?R \<longrightarrow> 0 < out_bytes c"
      by blast
    have n: "int (card (?R \<inter> child_pipefd ` set (cptr s1))) \<le> int (card ?R) - 1"
      unfolding pipes R using card_Suc_Diff1 [OF fin True] by linarith
    obtain s' where s': "back_loop ?R (int (card ?R) - 1) s1 = Inr s'" "pf_inv l s'" "accepted s' = accepted s1"
      using back_loop_inv [OF s1(2) n b] by blast
    have acc: "(if l \<in> pf_ready ev \<and> 0 < navail s then [c] else []) = [c]"
      using True l(1) by simp
    have "prefork_pass l ev s = (if int (card ?R) - 1 = 0 then Inr s1 else Inr s')"
      unfolding prefork_pass_def Let_def using True s1(1) s'(1) by simp
    then show ?thesis
      unfolding acc using s1(2,7) s'(2,3) by (cases "int (card ?R) - 1 = 0") auto
  qed
qed

lemma pf_step_inv:
  assumes "pf_step l s s'" "pf_inv l s"
  shows "pf_inv l s'"
  using assms
proof (induction rule: pf_step.induct)
  case (parent ev s s')
  show ?case
  proof (cases "\<exists>c. pf_accept ev = Inr c \<and> pass_ok ev")
    case True
    then show ?thesis
      using prefork_pass_inv [OF parent(3,1)] parent(2) by auto
  next
    case False
    then have "l \<notin> pf_select l ev s"
      using parent(2) by (auto simp: prefork_pass_def dispatch_def Let_def split: sum.splits option.splits if_splits)
    moreover have "pf_select l (ev\<lparr>pf_accept := Inr 0, pass_ok := True\<rparr>) s = pf_select l ev s"
      by (simp add: pf_select_def)
    ultimately have "prefork_pass l ev s = prefork_pass l (ev\<lparr>pf_accept := Inr 0, pass_ok := True\<rparr>) s"
      by (simp add: prefork_pass_def Let_def)
    moreover have "possible (ev\<lparr>pf_accept := Inr 0, pass_ok := True\<rparr>) s"
      using parent(1) by (simp add: possible_def)
    ultimately show ?thesis
      using prefork_pass_inv [OF parent(3), of "ev\<lparr>pf_accept := Inr 0, pass_ok := True\<rparr>" 0] parent(2) by auto
  qed
qed (auto intro: child_take_inv child_done_inv)

lemma pf_steps_inv: "(pf_step l)\<^sup>*\<^sup>* s s' \<Longrightarrow> pf_inv l s \<Longrightarrow> pf_inv l s'"
  by (induction rule: rtranclp_induct) (auto intro: pf_step_inv)

text \<open>
  C8. In every state that the parent and its children reach, in any interleaving, the connections accepted are those that the children have or have served, each with one child; a
  child has at most one connection, none when it is available, and its counter is right; \<^verbatim>\<open>navail\<close> is the number of
  available children; and a pass of the parent succeeds, accepts a connection that is waiting exactly when a child is available, and never ends with
  \<^verbatim>\<open>no available children\<close>.
\<close>

theorem prefork_dispatch:
  assumes "prefork_init l pipes = Inr s0" "distinct (l # pipes)" "(pf_step l)\<^sup>*\<^sup>* s0 s"
  shows "mset (accepted s) = (\<Sum>c \<leftarrow> cptr s. mset (at_child c) + mset (served c)) \<and>
    (\<forall>c \<in> set (cptr s). length (at_child c) \<le> child_status c \<and> child_status c \<le> 1 \<and> child_count c = length (at_child c) + length (served c)) \<and>
    navail s = int (length (filter (\<lambda>c. child_status c = 0) (cptr s))) \<and>
    (\<forall>ev c. possible ev s \<and> pf_accept ev = Inr c \<and> pass_ok ev \<longrightarrow>
       (\<exists>s'. prefork_pass l ev s = Inr s' \<and> accepted s' = accepted s @ (if l \<in> pf_ready ev \<and> 0 < navail s then [c] else [])))"
proof -
  have inv: "pf_inv l s"
    using pf_steps_inv [OF assms(3)] prefork_init_inv [OF assms(1,2)] by blast
  have "(\<Sum>c \<leftarrow> cs. of_bool (child_status c = 0) :: int) = int (length (filter (\<lambda>c. child_status c = 0) cs))" for cs
    by (induction cs) auto
  then have "navail s = int (length (filter (\<lambda>c. child_status c = 0) (cptr s)))"
    using inv by (simp add: pf_inv_def)
  moreover have "length (at_child c) \<le> child_status c \<and> child_status c \<le> 1 \<and> child_count c = length (at_child c) + length (served c)"
    if "child_ok c" for c
    using that by (auto simp: child_ok_def)
  then have "\<forall>c \<in> set (cptr s). length (at_child c) \<le> child_status c \<and> child_status c \<le> 1 \<and> child_count c = length (at_child c) + length (served c)"
    using inv unfolding pf_inv_def by blast
  moreover have "\<forall>ev c. possible ev s \<and> pf_accept ev = Inr c \<and> pass_ok ev \<longrightarrow>
      (\<exists>s'. prefork_pass l ev s = Inr s' \<and> accepted s' = accepted s @ (if l \<in> pf_ready ev \<and> 0 < navail s then [c] else []))"
  proof (intro allI impI)
    fix ev c
    assume "possible ev s \<and> pf_accept ev = Inr c \<and> pass_ok ev"
    then show "\<exists>s'. prefork_pass l ev s = Inr s' \<and> accepted s' = accepted s @ (if l \<in> pf_ready ev \<and> 0 < navail s then [c] else [])"
      using prefork_pass_inv [OF inv, of ev c] by blast
  qed
  moreover have "mset (accepted s) = (\<Sum>c \<leftarrow> cptr s. mset (at_child c) + mset (served c))"
    using inv by (simp add: pf_inv_def pf_conns_def)
  ultimately show ?thesis
    by (intro conjI)
qed

text \<open>One child takes a connection and serves it.\<close>

definition first_client :: pf_event where
  "first_client = \<lparr>pf_ready = {3}, pf_accept = Inr 5, pass_ok = True\<rparr>"

definition busy_child :: child where
  "busy_child = (child_make 4)\<lparr>child_status := 1, child_count := 1, serving := Some 5\<rparr>"

theorem prefork_dispatch_witness:
  "\<exists>s0 s. prefork_init 3 [4] = Inr s0 \<and> (pf_step 3)\<^sup>*\<^sup>* s0 s \<and> cptr s = [busy_child] \<and> navail s = 0 \<and> accepted s = [5]"
proof -
  let ?s0 = "\<lparr>cptr = [child_make 4], navail = 1, masterset = {3, 4}, pf_maxfd = 4, accepted = []\<rparr>"
  let ?s1 = "\<lparr>cptr = [(child_make 4)\<lparr>child_status := 1, child_count := 1, in_pipe := [5]\<rparr>], navail = 0, masterset = {3, 4}, pf_maxfd = 4, accepted = [5]\<rparr>"
  have init: "prefork_init 3 [4] = Inr ?s0"
    by (simp add: prefork_init_def FD_SET_def FD_SETSIZE_def)
  have "pf_select 3 first_client ?s0 = {3}"
    by (auto simp: pf_select_def first_client_def)
  then have "prefork_pass 3 first_client ?s0 = Inr ?s1"
    by (simp add: prefork_pass_def dispatch_def first_client_def child_make_def)
  then have "pf_step 3 ?s0 ?s1"
    by (rule pf_step.parent [rotated]) (simp add: possible_def first_client_def child_make_def)
  moreover have "pf_step 3 ?s1 (?s1\<lparr>cptr := [busy_child]\<rparr>)"
    using pf_step.takes [of 0 ?s1 busy_child 3] by (simp add: child_take_def child_make_def busy_child_def)
  ultimately have run: "(pf_step 3)\<^sup>*\<^sup>* ?s0 (?s1\<lparr>cptr := [busy_child]\<rparr>)"
    by (meson converse_rtranclp_into_rtranclp r_into_rtranclp)
  have "mset (accepted (?s1\<lparr>cptr := [busy_child]\<rparr>)) = {#5#}"
    using prefork_dispatch [OF init _ run, THEN conjunct1] by (simp add: busy_child_def child_make_def at_child_def)
  then show ?thesis
    using init run by (intro exI [of _ ?s0] exI [of _ "?s1\<lparr>cptr := [busy_child]\<rparr>"]) simp
qed

end
