(* ===== verification/ThreadPool.thy ===== *)
theory ThreadPool
  imports Monitor
begin

text \<open>
  The prethreaded server in which the main thread accepts, \<^verbatim>\<open>src/unixNetV1/server/serv08.c\<close> with \<^verbatim>\<open>pthread08.c\<close> and \<^verbatim>\<open>pthread08.h\<close>: the main thread puts
  descriptors of connections into a ring of \<^verbatim>\<open>MAXNCLI\<close> entries, and the threads of the pool take them out. Both hold a mutex; an empty ring is
  waited for on a condition variable, and a full ring ends the process. The theory has the two critical regions as pieces of \<open>Monitor\<close>. It shows, for all interleavings, that the ring
  is a first-in first-out queue, that every connection is taken once, that no thread sleeps while a connection waits, and when the process ends.
\<close>

subsection \<open>Model\<close>

definition MAXNCLI :: nat where
  "MAXNCLI = 32"

text \<open>
  The globals of the program; \<open>gone\<close> says that \<^verbatim>\<open>err_quit\<close> has ended the process. The last two components are histories, of the connections put and taken.
\<close>

record pool =
  clifd :: "int list"
  iget :: nat
  iput :: nat
  gone :: bool
  all_put :: "int list"
  all_got :: "int list"

datatype pool_op = PutOp int | GetOp

datatype pool_res = Stored | Overflow | Got int | Gone

definition pool_start :: "int list \<Rightarrow> pool" where
  "pool_start mem = \<lparr>clifd = mem, iget = 0, iput = 0, gone = False, all_put = [], all_got = []\<rparr>"

text \<open>\<^verbatim>\<open>if (++i == MAXNCLI) i = 0\<close>.\<close>

definition bump :: "nat \<Rightarrow> nat" where
  "bump i = (if i + 1 = MAXNCLI then 0 else i + 1)"

text \<open>The critical region of the main thread.\<close>

definition pool_put :: "int \<Rightarrow> pool \<Rightarrow> pool \<times> unit wake \<times> (unit, pool_res) outcome" where
  "pool_put connfd s =
     (let s = s\<lparr>clifd := (clifd s)[iput s := connfd], all_put := all_put s @ [connfd]\<rparr>;
          s = s\<lparr>iput := bump (iput s)\<rparr> in
      if iput s = iget s then (s\<lparr>gone := True\<rparr>, NoWake, Return Overflow)
      else (s, Signal (), Return Stored))"

text \<open>The critical region of a thread of the pool, from its start or from a return of \<^verbatim>\<open>pthread_cond_wait\<close>.\<close>

definition pool_get :: "pool \<Rightarrow> pool \<times> unit wake \<times> (unit, pool_res) outcome" where
  "pool_get s =
     (if iget s = iput s then (s, NoWake, Block ())
      else let connfd = clifd s ! iget s in
        (s\<lparr>iget := bump (iget s), all_got := all_got s @ [connfd]\<rparr>, NoWake, Return (Got connfd)))"

text \<open>After the end of the process nothing happens any more.\<close>

definition pool_enter :: "(pool, unit, pool_op, pool_res) piece" where
  "pool_enter op s = (if gone s then (s, NoWake, Return Gone) else case op of PutOp fd \<Rightarrow> pool_put fd s | GetOp \<Rightarrow> pool_get s)"

definition pool_resume :: "(pool, unit, pool_op, pool_res) piece" where
  "pool_resume op s = (if gone s then (s, NoWake, Return Gone) else pool_get s)"

lemmas pool_defs = pool_enter_def pool_resume_def pool_put_def pool_get_def

subsection \<open>The ring as a queue\<close>

text \<open>The number of entries in use, and the entries from \<^verbatim>\<open>iget\<close> on. At the end of the process all entries are in use.\<close>

definition ring_len :: "pool \<Rightarrow> nat" where
  "ring_len s = (if gone s then MAXNCLI else (iput s + MAXNCLI - iget s) mod MAXNCLI)"

definition waiting :: "pool \<Rightarrow> int list" where
  "waiting s = map (\<lambda>k. clifd s ! ((iget s + k) mod MAXNCLI)) [0..<ring_len s]"

definition pool_inv :: "pool \<Rightarrow> bool" where
  "pool_inv s \<longleftrightarrow> length (clifd s) = MAXNCLI \<and> iget s < MAXNCLI \<and> iput s < MAXNCLI \<and> (gone s \<longrightarrow> iget s = iput s) \<and>
     all_put s = all_got s @ waiting s"

lemma bump_mod: "i < MAXNCLI \<Longrightarrow> bump i = (i + 1) mod MAXNCLI"
  by (auto simp: bump_def MAXNCLI_def)

lemma bump_less: "i < MAXNCLI \<Longrightarrow> bump i < MAXNCLI"
  by (auto simp: bump_def MAXNCLI_def)

lemma mod_wrap: "i < 2 * MAXNCLI \<Longrightarrow> i mod MAXNCLI = (if i < MAXNCLI then i else i - MAXNCLI)"
  by (cases "i < MAXNCLI") (simp_all add: le_mod_geq)

lemma ring_len_cases:
  assumes "iget s < MAXNCLI" "iput s < MAXNCLI" "\<not> gone s"
  shows "ring_len s = (if iget s \<le> iput s then iput s - iget s else iput s + MAXNCLI - iget s)"
  using assms mod_wrap [of "iput s + MAXNCLI - iget s"] by (auto simp: ring_len_def)

lemma ring_len_bounds:
  assumes "iget s < MAXNCLI" "iput s < MAXNCLI" "\<not> gone s"
  shows "ring_len s < MAXNCLI" "(iget s + ring_len s) mod MAXNCLI = iput s" "ring_len s = 0 \<longleftrightarrow> iget s = iput s"
  using assms by (auto simp: ring_len_cases mod_wrap)

text \<open>Taking out and putting in.\<close>

lemma pool_get_inv:
  assumes inv: "pool_inv s" "\<not> gone s" and ne: "iget s \<noteq> iput s"
  defines "s' \<equiv> s\<lparr>iget := bump (iget s), all_got := all_got s @ [clifd s ! iget s]\<rparr>"
  shows "waiting s = clifd s ! iget s # waiting s'" "pool_inv s'" "ring_len s = Suc (ring_len s')"
proof -
  have b: "iget s < MAXNCLI" "iput s < MAXNCLI" "bump (iget s) < MAXNCLI"
    using inv bump_less by (auto simp: pool_inv_def)
  have "ring_len s' = (if bump (iget s) \<le> iput s then iput s - bump (iget s) else iput s + MAXNCLI - bump (iget s))"
    using ring_len_cases [of s'] b inv(2) by (simp add: s'_def)
  then show len: "ring_len s = Suc (ring_len s')"
    using ring_len_cases [OF b(1,2) inv(2)] b ne by (auto simp: bump_def split: if_splits)
  have "(bump (iget s) + k) mod MAXNCLI = (iget s + Suc k) mod MAXNCLI" for k
    using b(1) by (simp add: bump_mod mod_add_left_eq)
  then show w: "waiting s = clifd s ! iget s # waiting s'"
    using b(1) by (simp add: waiting_def len upt_conv_Cons comp_def s'_def flip: map_Suc_upt del: upt_Suc)
  show "pool_inv s'"
    using inv w b(3) by (simp add: pool_inv_def s'_def)
qed

lemma pool_put_inv:
  fixes fd :: int
  assumes inv: "pool_inv s" "\<not> gone s"
  defines "s' \<equiv> s\<lparr>clifd := (clifd s)[iput s := fd], all_put := all_put s @ [fd], iput := bump (iput s), gone := (bump (iput s) = iget s)\<rparr>"
  shows "waiting s' = waiting s @ [fd]" "pool_inv s'" "ring_len s' = Suc (ring_len s)"
proof -
  have b: "iget s < MAXNCLI" "iput s < MAXNCLI" "bump (iput s) < MAXNCLI" "length (clifd s) = MAXNCLI"
    using inv bump_less by (auto simp: pool_inv_def)
  note r = ring_len_bounds [OF b(1,2) inv(2)]
  show len: "ring_len s' = Suc (ring_len s)"
  proof (cases "bump (iput s) = iget s")
    case True
    then show ?thesis
      using ring_len_cases [OF b(1,2) inv(2)] b by (auto simp: ring_len_def s'_def bump_def split: if_splits)
  next
    case False
    then have "ring_len s' = (if iget s \<le> bump (iput s) then bump (iput s) - iget s else bump (iput s) + MAXNCLI - iget s)"
      using ring_len_cases [of s'] b by (simp add: s'_def)
    then show ?thesis
      using ring_len_cases [OF b(1,2) inv(2)] b False by (auto simp: bump_def split: if_splits)
  qed
  have "iput s \<noteq> (iget s + k) mod MAXNCLI" if "k < ring_len s" for k
    using that r(1) ring_len_cases [OF b(1,2) inv(2)] b by (auto simp: mod_wrap split: if_splits)
  then have "map (\<lambda>k. clifd s' ! ((iget s + k) mod MAXNCLI)) [0..<ring_len s] = waiting s"
    unfolding waiting_def by (intro map_cong) (auto simp: s'_def)
  then show w: "waiting s' = waiting s @ [fd]"
    using r(2) b unfolding waiting_def len by (simp add: s'_def)
  show "pool_inv s'"
    using inv w b(3) by (simp add: pool_inv_def s'_def)
qed

lemma pool_start_inv: "length mem = MAXNCLI \<Longrightarrow> pool_inv (pool_start mem)"
  by (simp add: pool_inv_def pool_start_def waiting_def ring_len_def MAXNCLI_def)

lemma pool_put_piece:
  "pool_put fd s = (s\<lparr>clifd := (clifd s)[iput s := fd], all_put := all_put s @ [fd], iput := bump (iput s), gone := (gone s \<or> bump (iput s) = iget s)\<rparr>,
     if bump (iput s) = iget s then NoWake else Signal (), Return (if bump (iput s) = iget s then Overflow else Stored))"
  by (simp add: pool_put_def Let_def)

text \<open>The contracts: the invariant, the balance of connections, and a signal for each.\<close>

definition res_in :: "pool_op \<times> pool_res \<Rightarrow> int multiset" where
  "res_in d = (case d of (PutOp fd, Stored) \<Rightarrow> {#fd#} | (PutOp fd, Overflow) \<Rightarrow> {#fd#} | _ \<Rightarrow> {#})"

definition res_out :: "pool_op \<times> pool_res \<Rightarrow> int multiset" where
  "res_out d = (case d of (GetOp, Got fd) \<Rightarrow> {#fd#} | _ \<Rightarrow> {#})"

interpretation pool: monitor_ledger pool_enter pool_resume pool_inv "\<lambda>s op. op = GetOp" "(=)" "\<lambda>s. mset (waiting s)" res_in res_out
proof unfold_locales
  fix s s' :: pool and op w out
  show "pool_inv s' \<and> (\<forall>c. out = Block c \<longrightarrow> op = GetOp)" if "pool_inv s" "pool_enter op s = (s', w, out)"
    using that pool_get_inv(2) [of s] pool_put_inv(2) [of s]
    by (cases op) (auto simp: pool_enter_def pool_get_def pool_put_piece Let_def split: if_splits)
  show "pool_inv s' \<and> (\<forall>c. out = Block c \<longrightarrow> op = GetOp)" if "pool_inv s" "op = GetOp" "pool_resume op s = (s', w, out)"
    using that pool_get_inv(2) [of s] by (auto simp: pool_resume_def pool_get_def Let_def split: if_splits)
  show "case out of Block c \<Rightarrow> mset (waiting s') = mset (waiting s)
      | Return r \<Rightarrow> mset (waiting s') + res_out (op, r) = mset (waiting s) + res_in (op, r)"
    if "pool_inv s" "pool_enter op s = (s', w, out)"
    using that pool_get_inv(1) [of s] pool_put_inv(1) [of s]
    by (cases op) (auto simp: pool_enter_def pool_get_def pool_put_piece Let_def res_in_def res_out_def split: if_splits)
  show "case out of Block c \<Rightarrow> mset (waiting s') = mset (waiting s)
      | Return r \<Rightarrow> mset (waiting s') + res_out (op, r) = mset (waiting s) + res_in (op, r)"
    if "pool_inv s" "op = GetOp" "pool_resume op s = (s', w, out)"
    using that pool_get_inv(1) [of s] by (auto simp: pool_resume_def pool_get_def Let_def res_in_def res_out_def split: if_splits)
qed auto

interpretation pool_signal: signal_each pool_enter pool_resume pool_inv "\<lambda>s op. op = GetOp" "()" "\<lambda>s. if gone s then 0 else ring_len s"
proof unfold_locales
  fix s s' :: pool and op w out c r
  have empty: "ring_len s = 0 \<longleftrightarrow> iget s = iput s" if "pool_inv s" "\<not> gone s"
    using that ring_len_bounds(3) [of s] by (simp add: pool_inv_def)
  show "c = () \<and> (if gone s' then 0 else ring_len s') = 0" if "pool_inv s" "pool_enter op s = (s', w, Block c)"
    using that empty by (cases op) (auto simp: pool_enter_def pool_get_def pool_put_piece Let_def split: if_splits)
  show "c = () \<and> (if gone s' then 0 else ring_len s') = 0" if "pool_inv s" "op = GetOp" "pool_resume op s = (s', w, Block c)"
    using that empty by (auto simp: pool_resume_def pool_get_def Let_def split: if_splits)
  show "(if gone s' then 0 else ring_len s') \<le> (if gone s then 0 else ring_len s) \<or>
      (if gone s' then 0 else ring_len s') \<le> (if gone s then 0 else ring_len s) + 1 \<and> w = Signal ()"
    if "pool_inv s" "pool_enter op s = (s', w, out)"
    using that pool_get_inv(3) [of s] pool_put_inv(3) [of s]
    by (cases op) (auto simp: pool_enter_def pool_get_def pool_put_piece Let_def split: if_splits)
  show "(if gone s' then 0 else ring_len s') \<le> (if gone s then 0 else ring_len s) - 1"
    if "pool_inv s" "op = GetOp" "pool_resume op s = (s', w, Return r)"
    using that pool_get_inv(3) [of s] by (auto simp: pool_resume_def pool_get_def Let_def split: if_splits)
qed

text \<open>
  C9. In every interleaving of the main thread and the pool, spurious wake-ups included, the connections taken are the first ones accepted, in their order, and the rest waits in the
  ring; every accepted connection is either with exactly one thread or waits; the process ends only with \<^verbatim>\<open>MAXNCLI\<close> connections not taken; and when nothing can
  run, a thread of the pool is blocked only if no connection waits.
\<close>

theorem pool_serves_all:
  assumes "mon_reach sp pool_enter pool_resume (pool_start mem) progs (s, ts)" "length mem = MAXNCLI"
  shows "all_put s = all_got s @ waiting s \<and> length (waiting s) \<le> MAXNCLI \<and> (gone s \<longleftrightarrow> length (waiting s) = MAXNCLI) \<and>
    mset (waiting s) + ledger res_out ts = ledger res_in ts \<and>
    (\<forall>t c. quiescent ts \<and> \<not> gone s \<and> t \<in> set ts \<and> t_stat t = Blocked c \<longrightarrow> waiting s = [])"
proof -
  have inv: "pool_inv s"
    using pool.reach_inv [OF assms(1) pool_start_inv [OF assms(2)]] .
  have len: "length (waiting s) = ring_len s"
    by (simp add: waiting_def)
  have "length (waiting s) \<le> MAXNCLI \<and> (gone s \<longleftrightarrow> length (waiting s) = MAXNCLI)"
  proof (cases "gone s")
    case False
    then show ?thesis
      using ring_len_bounds(1) [of s] inv unfolding len by (simp add: pool_inv_def)
  qed (simp add: len ring_len_def)
  moreover have "mset (waiting s) + ledger res_out ts = ledger res_in ts"
    using pool.reach_balance [OF assms(1) pool_start_inv [OF assms(2)]] by (simp add: waiting_def ring_len_def pool_start_def)
  moreover have "waiting s = []" if "quiescent ts \<and> \<not> gone s \<and> t \<in> set ts \<and> t_stat t = Blocked c" for t c
    using pool_signal.no_item_waits [OF assms(1) pool_start_inv [OF assms(2)], of t c] that len by simp
  ultimately show ?thesis
    using inv by (auto simp: pool_inv_def)
qed

text \<open>A thread waits, a connection comes, and the thread takes it.\<close>

definition one_served :: "(unit, pool_op, pool_res) thread list" where
  "one_served = [\<lparr>t_stat = Running, t_done = [(PutOp 7, Stored)], t_todo = []\<rparr>, \<lparr>t_stat = Running, t_done = [(GetOp, Got 7)], t_todo = []\<rparr>]"

definition one_served_pool :: pool where
  "one_served_pool = \<lparr>clifd = 7 # replicate 31 0, iget = 1, iput = 1, gone = False, all_put = [7], all_got = [7]\<rparr>"

lemma one_served_reach:
  "mon_reach sp pool_enter pool_resume (pool_start (0 # replicate 31 0)) [[PutOp 7], [GetOp]] (one_served_pool, one_served)"
proof (rule exec_schedule_start)
  show "exec_schedule pool_enter pool_resume [(1, 0), (0, 1), (1, 0)]
      (pool_start (0 # replicate 31 0), map fresh_thread [[PutOp 7], [GetOp]]) = Some (one_served_pool, one_served)"
    by (simp add: pool_start_def pool_defs fresh_thread_def exec_piece_def wake_if_def bump_def MAXNCLI_def one_served_pool_def one_served_def)
qed

theorem pool_serves_all_witness:
  "mon_reach False pool_enter pool_resume (pool_start (0 # replicate 31 0)) [[PutOp 7], [GetOp]] (one_served_pool, one_served) \<and>
   all_put one_served_pool = all_got one_served_pool @ waiting one_served_pool \<and> mset (waiting one_served_pool) + ledger res_out one_served = {#7#}"
proof -
  have "ledger res_in one_served = {#7#}"
    by (simp add: ledger_def one_served_def res_in_def)
  then show ?thesis
    using pool_serves_all [OF one_served_reach] one_served_reach by (simp add: MAXNCLI_def)
qed

end
