(* ===== verification/WebClient.thy ===== *)
theory WebClient
  imports ReadyLoop StreamIo Text
begin

text \<open>
  The client that fetches files over several nonblocking connections, \<^verbatim>\<open>src/unixNetV1/nonblock/web.c\<close> with \<^verbatim>\<open>web.h\<close>, \<^verbatim>\<open>start_connect.c\<close> and \<^verbatim>\<open>write_get_cmd.c\<close>: at most
  \<^verbatim>\<open>maxnconn\<close> connections are open at a time, \<^verbatim>\<open>select\<close> tells which of them are established or have data, and every file is read up to its end. A pass of the loop
  is a function of what the system reports in it. The theory shows the meaning of the three counters and of the descriptor sets, that the search for the
  next file never fails, and a bound on the number of passes. It also shows that a connection that failed is used as if it were established.
\<close>

subsection \<open>Model\<close>

text \<open>The values of \<^verbatim>\<open>f_flags\<close>; the program assigns them and never combines them.\<close>

datatype f_flag = F_NONE | F_CONNECTING | F_READING | F_DONE

record web_file =
  f_name :: string
  f_host :: string
  f_fd :: int
  f_flags :: f_flag

text \<open>What is printed or sent, for the file at an index.\<close>

datatype web_log = Started nat | Failed nat | Established nat | Sent nat string | Data nat nat | Eof nat

record web =
  web_files :: "web_file list"
  nconn :: int
  nlefttoconn :: int
  nlefttoread :: int
  w_maxfd :: int
  w_rset :: "int set"
  w_wset :: "int set"
  w_log :: "web_log list"

text \<open>
  What the system reports in a pass. An error of \<^verbatim>\<open>Host_serv\<close>, \<^verbatim>\<open>Socket\<close> or \<^verbatim>\<open>Fcntl\<close> is an error of \<open>w_socket\<close>, for the file at an index; \<open>w_select\<close> says that
  \<^verbatim>\<open>select\<close> does not fail.
\<close>

record web_event =
  w_select :: bool
  w_readable :: "int set"
  w_writable :: "int set"
  w_socket :: "nat \<Rightarrow> int res"
  w_connect :: "nat \<Rightarrow> unit res"
  w_so_error :: "int \<Rightarrow> bool"
  w_written :: "int \<Rightarrow> bool"
  w_read :: "int \<Rightarrow> byte list res"

text \<open>How the program ends, or that it waits in \<^verbatim>\<open>select\<close>, which has no timeout, and does not return.\<close>

datatype web_exit = Nothing_found | Overread | Web_range | Web_error | Web_waits

definition MAXFILES :: nat where
  "MAXFILES = 20"

text \<open>The start of \<^verbatim>\<open>main\<close>, after the home page was read.\<close>

definition web_init :: "string \<Rightarrow> string list \<Rightarrow> web" where
  "web_init host names = (let nfiles = min (length names) MAXFILES in
     \<lparr>web_files = map (\<lambda>n. \<lparr>f_name = n, f_host = host, f_fd = 0, f_flags = F_NONE\<rparr>) (take nfiles names), nconn = 0, nlefttoconn = int nfiles, nlefttoread = int nfiles,
      w_maxfd = - 1, w_rset = {}, w_wset = {}, w_log = []\<rparr>)"

definition GET_CMD :: "string \<Rightarrow> string" where
  "GET_CMD name = ''GET '' @ name @ '' HTTP/1.0'' @ [CHR 0x0D, CHR 0x0A, CHR 0x0D, CHR 0x0A]"

definition upd_file :: "nat \<Rightarrow> (web_file \<Rightarrow> web_file) \<Rightarrow> web \<Rightarrow> web" where
  "upd_file i g s = s\<lparr>web_files := (web_files s)[i := g (web_files s ! i)]\<rparr>"

text \<open>
  \<^verbatim>\<open>snprintf\<close> returns the length of the whole text, also when it is cut; that many bytes of the buffer are written. A count above the size
  of the buffer is a read outside it.
\<close>

definition get_line :: "string \<Rightarrow> string" where
  "get_line name = take (length (GET_CMD name)) (take (MAXLINE - 1) (GET_CMD name) @ [CHR 0x00])"

definition write_get_cmd :: "web_event \<Rightarrow> nat \<Rightarrow> web \<Rightarrow> web_exit + web" where
  "write_get_cmd ev i s =
     (let f = web_files s ! i in
      if length (GET_CMD (f_name f)) > MAXLINE then Inl Overread
      else if \<not> w_written ev (f_fd f) then Inl Web_error
      else (case FD_SET (f_fd f) (w_rset s) of None \<Rightarrow> Inl Web_range
        | Some R \<Rightarrow> Inr ((upd_file i (\<lambda>f. f\<lparr>f_flags := F_READING\<rparr>) s)\<lparr>w_rset := R, w_maxfd := max (w_maxfd s) (f_fd f),
            w_log := w_log s @ [Sent i (get_line (f_name f))]\<rparr>)))"

definition start_connect :: "web_event \<Rightarrow> nat \<Rightarrow> web \<Rightarrow> web_exit + web" where
  "start_connect ev i s = (case w_socket ev i of Inl e \<Rightarrow> Inl Web_error
     | Inr fd \<Rightarrow>
         (let s = (upd_file i (\<lambda>f. f\<lparr>f_fd := fd\<rparr>) s)\<lparr>w_log := w_log s @ [Started i]\<rparr> in
          case w_connect ev i of
            Inl e \<Rightarrow>
              if e \<noteq> EINPROGRESS then Inl Web_error
              else (case (FD_SET fd (w_rset s), FD_SET fd (w_wset s)) of
                  (Some R, Some W) \<Rightarrow> Inr ((upd_file i (\<lambda>f. f\<lparr>f_flags := F_CONNECTING\<rparr>) s)\<lparr>w_rset := R, w_wset := W, w_maxfd := max (w_maxfd s) fd\<rparr>)
                | _ \<Rightarrow> Inl Web_range)
          | Inr u \<Rightarrow> write_get_cmd ev i s))"

fun find_file :: "nat \<Rightarrow> web_file list \<Rightarrow> nat option" where
  "find_file k [] = None"
| "find_file k (f # fs) = (if f_flags f = F_NONE then Some k else find_file (k + 1) fs)"

lemma start_connect_counts:
  assumes "start_connect ev i s = Inr s'"
  shows "nconn s' = nconn s" "nlefttoconn s' = nlefttoconn s" "nlefttoread s' = nlefttoread s"
  using assms by (auto simp: start_connect_def write_get_cmd_def upd_file_def Let_def split: sum.splits option.splits if_splits)

text \<open>The inner loop.\<close>

function start_all :: "int \<Rightarrow> web_event \<Rightarrow> web \<Rightarrow> web_exit + web" where
  "start_all maxnconn ev s =
     (if nconn s < maxnconn \<and> 0 < nlefttoconn s then
        (case find_file 0 (web_files s) of None \<Rightarrow> Inl Nothing_found
         | Some i \<Rightarrow> (case start_connect ev i s of Inl e \<Rightarrow> Inl e
             | Inr s1 \<Rightarrow> start_all maxnconn ev (s1\<lparr>nconn := nconn s1 + 1, nlefttoconn := nlefttoconn s1 - 1\<rparr>)))
      else Inr s)"
  by pat_completeness auto
termination start_all
  by (relation "measure (\<lambda>(m, ev, s). nat (nlefttoconn s))") (auto dest: start_connect_counts(2))

declare start_all.simps [simp del]

text \<open>One file after \<^verbatim>\<open>select\<close>. The error of a failed connection is printed, and the program goes on.\<close>

definition web_conn :: "web_event \<Rightarrow> int set \<Rightarrow> int set \<Rightarrow> nat \<Rightarrow> web \<Rightarrow> web_exit + web" where
  "web_conn ev rs ws i s =
     (let f = web_files s ! i; fd = f_fd f in
      if f_flags f = F_CONNECTING \<and> (fd \<in> rs \<or> fd \<in> ws) then
        let log = (if w_so_error ev fd then [Failed i] else []) @ [Established i] in
        write_get_cmd ev i (s\<lparr>w_wset := w_wset s - {fd}, w_log := w_log s @ log\<rparr>)
      else if f_flags f = F_READING \<and> fd \<in> rs then
        (case w_read ev fd of Inl e \<Rightarrow> Inl Web_error
         | Inr bs \<Rightarrow>
             let n = length (take MAXLINE bs) in
             if n = 0 then Inr ((upd_file i (\<lambda>f. f\<lparr>f_flags := F_DONE\<rparr>) s)\<lparr>w_rset := w_rset s - {fd}, nconn := nconn s - 1,
               nlefttoread := nlefttoread s - 1, w_log := w_log s @ [Eof i]\<rparr>)
             else Inr (s\<lparr>w_log := w_log s @ [Data i n]\<rparr>))
      else Inr s)"

definition web_pass :: "int \<Rightarrow> web_event \<Rightarrow> web \<Rightarrow> web_exit + web" where
  "web_pass maxnconn ev s = (case start_all maxnconn ev s of Inl e \<Rightarrow> Inl e
     | Inr s1 \<Rightarrow>
         let rs = {fd \<in> w_rset s1. fd \<le> w_maxfd s1 \<and> fd \<in> w_readable ev}; ws = {fd \<in> w_wset s1. fd \<le> w_maxfd s1 \<and> fd \<in> w_writable ev} in
         if \<not> w_select ev then Inl Web_error
         else if rs = {} \<and> ws = {} then Inl Web_waits
         else serve (web_conn ev rs ws) [0..<length (web_files s1)] s1)"

text \<open>
  The outer loop: the states after \<open>k\<close> passes. The system gives a new socket a descriptor that is not in use, and gives no two of them the same.
\<close>

definition sockets_fresh :: "web_event \<Rightarrow> web \<Rightarrow> bool" where
  "sockets_fresh ev s \<longleftrightarrow> (\<forall>i fd. w_socket ev i = Inr fd \<longrightarrow> fd \<notin> w_rset s \<and> (\<forall>j. j \<noteq> i \<longrightarrow> w_socket ev j \<noteq> Inr fd))"

inductive web_reach :: "int \<Rightarrow> string \<Rightarrow> string list \<Rightarrow> nat \<Rightarrow> web \<Rightarrow> bool" for maxnconn host names where
  init: "web_reach maxnconn host names 0 (web_init host names)"
| pass: "web_reach maxnconn host names k s \<Longrightarrow> 0 < nlefttoread s \<Longrightarrow> sockets_fresh ev s \<Longrightarrow> web_pass maxnconn ev s = Inr s' \<Longrightarrow>
    web_reach maxnconn host names (Suc k) s'"

subsection \<open>Files by their flags\<close>

definition n_flag :: "f_flag \<Rightarrow> web_file list \<Rightarrow> int" where
  "n_flag v fs = n_of (\<lambda>f. f_flags f = v) fs"

definition fd_of :: "f_flag set \<Rightarrow> web_file list \<Rightarrow> int set" where
  "fd_of V fs = {f_fd (fs ! j) |j. j < length fs \<and> f_flags (fs ! j) \<in> V}"

definition others :: "f_flag set \<Rightarrow> nat \<Rightarrow> web_file list \<Rightarrow> int set" where
  "others V i fs = {f_fd (fs ! j) |j. j < length fs \<and> j \<noteq> i \<and> f_flags (fs ! j) \<in> V}"

abbreviation OPEN :: "f_flag set" where
  "OPEN \<equiv> {F_CONNECTING, F_READING}"

definition apart :: "web_file list \<Rightarrow> bool" where
  "apart fs \<longleftrightarrow> (\<forall>i < length fs. f_flags (fs ! i) \<in> OPEN \<longrightarrow> f_fd (fs ! i) \<notin> others OPEN i fs)"

lemma n_flag_update:
  "i < length fs \<Longrightarrow> n_flag v (fs[i := f]) = n_flag v fs - of_bool (f_flags (fs ! i) = v) + of_bool (f_flags f = v)"
  by (simp add: n_flag_def n_of_update)

lemma n_flag_ge: "0 \<le> n_flag v fs"
  by (simp add: n_flag_def)

lemma n_flag_pos: "0 < n_flag v fs \<longleftrightarrow> (\<exists>f \<in> set fs. f_flags f = v)"
  by (simp add: n_flag_def n_of_pos)

lemma n_flag_lt: "n_flag v fs \<le> int (length fs) \<and> (n_flag v fs < int (length fs) \<longleftrightarrow> (\<exists>f \<in> set fs. f_flags f \<noteq> v))"
  unfolding n_flag_def by (rule n_of_lt)

lemma n_flag_total: "n_flag F_NONE fs + n_flag F_CONNECTING fs + n_flag F_READING fs + n_flag F_DONE fs = int (length fs)"
proof (induction fs)
  case (Cons f fs)
  then show ?case
    by (cases "f_flags f") (simp_all add: n_flag_def)
qed (simp add: n_flag_def)

lemma fd_of_others:
  "i < length fs \<Longrightarrow> fd_of V fs = others V i fs \<union> (if f_flags (fs ! i) \<in> V then {f_fd (fs ! i)} else {})"
  by (auto simp: fd_of_def others_def)

lemma others_update [simp]: "others V i (fs[i := f]) = others V i fs"
  by (auto simp: others_def) (metis nth_list_update_neq)

lemma fd_of_update:
  "i < length fs \<Longrightarrow> fd_of V (fs[i := f]) = others V i fs \<union> (if f_flags f \<in> V then {f_fd f} else {})"
  by (simp add: fd_of_others [of i "fs[i := f]"])

lemma others_mono: "V \<subseteq> W \<Longrightarrow> others V i fs \<subseteq> others W i fs"
  by (auto simp: others_def)

lemma apart_update:
  assumes "apart fs" "i < length fs" "f_flags f \<in> OPEN \<longrightarrow> f_fd f \<notin> others OPEN i fs"
  shows "apart (fs[i := f])"
  unfolding apart_def
proof (intro allI impI)
  fix j
  assume j: "j < length (fs[i := f])" "f_flags (fs[i := f] ! j) \<in> OPEN"
  show "f_fd (fs[i := f] ! j) \<notin> others OPEN j (fs[i := f])"
  proof (cases "j = i")
    case True
    then show ?thesis
      using assms j by auto
  next
    case False
    have "f_fd (fs ! j) \<notin> others OPEN j fs" "f_fd (fs ! j) \<in> others OPEN i fs"
      using assms(1) j False by (auto simp: apart_def others_def)
    moreover have "others OPEN j (fs[i := f]) \<subseteq> others OPEN j fs \<union> (if f_flags f \<in> OPEN then {f_fd f} else {})"
      using assms(2) by (auto simp: others_def nth_list_update split: if_splits)
    ultimately show ?thesis
      using assms(3) False by (auto split: if_splits)
  qed
qed

lemma find_file_None: "find_file k fs = None \<longleftrightarrow> (\<forall>f \<in> set fs. f_flags f \<noteq> F_NONE)"
  by (induction fs arbitrary: k) auto

lemma find_file_Some: "find_file k fs = Some i \<Longrightarrow> k \<le> i \<and> i < k + length fs \<and> f_flags (fs ! (i - k)) = F_NONE"
  by (induction fs arbitrary: k) (fastforce split: if_splits simp: nth_Cons' Suc_diff_le)+

subsection \<open>The invariant\<close>

text \<open>The entries of the log for a file, by its flag.\<close>

fun about :: "web_log \<Rightarrow> nat" where
  "about (Started i) = i"
| "about (Failed i) = i"
| "about (Established i) = i"
| "about (Sent i l) = i"
| "about (Data i n) = i"
| "about (Eof i) = i"

definition read_trace :: "nat \<Rightarrow> string \<Rightarrow> web_log list \<Rightarrow> bool" where
  "read_trace i name l \<longleftrightarrow> (\<exists>pre ns. l = Started i # pre @ Sent i (get_line name) # map (Data i) ns \<and>
     pre \<in> {[], [Established i], [Failed i, Established i]} \<and> (\<forall>n \<in> set ns. 0 < n))"

definition file_trace :: "nat \<Rightarrow> web_file \<Rightarrow> web_log list \<Rightarrow> bool" where
  "file_trace i f l = (case f_flags f of F_NONE \<Rightarrow> l = [] | F_CONNECTING \<Rightarrow> l = [Started i] | F_READING \<Rightarrow> read_trace i (f_name f) l
     | F_DONE \<Rightarrow> (\<exists>l'. read_trace i (f_name f) l' \<and> l = l' @ [Eof i]))"

definition log_of :: "nat \<Rightarrow> web_log list \<Rightarrow> web_log list" where
  "log_of i l = filter (\<lambda>e. about e = i) l"

lemma log_of_append [simp]: "log_of i (l @ l') = log_of i l @ log_of i l'"
  by (simp add: log_of_def)

definition traces :: "web_file list \<Rightarrow> web_log list \<Rightarrow> bool" where
  "traces fs l \<longleftrightarrow> (\<forall>i < length fs. file_trace i (fs ! i) (log_of i l))"

lemma traces_update:
  assumes "traces fs l" "\<forall>e \<in> set l'. about e = i" "file_trace i (fs ! i) (log_of i l) \<Longrightarrow> file_trace i f (log_of i l @ l')"
  shows "traces (fs[i := f]) (l @ l')"
proof -
  have "log_of i l' = l'" "\<And>j. j \<noteq> i \<Longrightarrow> log_of j l' = []"
    using assms(2) by (auto simp: log_of_def filter_empty_conv)
  then have "file_trace j (fs[i := f] ! j) (log_of j (l @ l'))" if "j < length fs" for j
    using assms(1,3) that by (cases "j = i") (simp_all add: traces_def)
  then show ?thesis
    by (simp add: traces_def)
qed

fun is_data :: "web_log \<Rightarrow> bool" where
  "is_data (Data i n) = True"
| "is_data _ = False"

definition n_data :: "web_log list \<Rightarrow> int" where
  "n_data l = int (length (filter is_data l))"

lemma n_data_simps [simp]: "n_data [] = 0" "n_data (l @ l') = n_data l + n_data l'" "n_data (e # l) = of_bool (is_data e) + n_data l"
  by (simp_all add: n_data_def)

text \<open>What the passes so far have achieved.\<close>

definition achieved :: "web \<Rightarrow> int" where
  "achieved s = n_flag F_READING (web_files s) + 2 * n_flag F_DONE (web_files s) + n_data (w_log s)"

definition web_inv :: "int \<Rightarrow> web \<Rightarrow> bool" where
  "web_inv m s \<longleftrightarrow> nlefttoconn s = n_flag F_NONE (web_files s) \<and>
     nconn s = n_flag F_CONNECTING (web_files s) + n_flag F_READING (web_files s) \<and>
     nlefttoread s = nlefttoconn s + nconn s \<and> nconn s \<le> max 0 m \<and>
     w_rset s = fd_of OPEN (web_files s) \<and> w_wset s = fd_of {F_CONNECTING} (web_files s) \<and> (\<forall>fd \<in> w_rset s. fd \<le> w_maxfd s) \<and>
     apart (web_files s) \<and> traces (web_files s) (w_log s)"

lemma read_trace_start:
  "pre \<in> {[], [Established i], [Failed i, Established i]} \<Longrightarrow> read_trace i name (Started i # pre @ [Sent i (get_line name)])"
  unfolding read_trace_def by (intro exI [of _ pre] exI [of _ "[]"]) simp

lemma read_trace_data:
  assumes "read_trace i name l" "0 < n"
  shows "read_trace i name (l @ [Data i n])"
proof -
  obtain pre ns where "l = Started i # pre @ Sent i (get_line name) # map (Data i) ns" "pre \<in> {[], [Established i], [Failed i, Established i]}"
    "\<forall>n \<in> set ns. 0 < n"
    using assms(1) by (auto simp: read_trace_def)
  then show ?thesis
    using assms(2) unfolding read_trace_def by (intro exI [of _ pre] exI [of _ "ns @ [n]"]) simp
qed

lemma web_init_inv: "web_inv m (web_init host names)"
proof -
  let ?fs = "web_files (web_init host names)"
  have none: "f_flags f = F_NONE" if "f \<in> set ?fs" for f
    using that by (auto simp: web_init_def Let_def)
  have "n_flag v ?fs = 0" if "v \<noteq> F_NONE" for v
    using that none n_flag_pos [of v ?fs] n_flag_ge [of v ?fs] by fastforce
  then have "n_flag F_NONE ?fs = int (length ?fs)" "n_flag F_CONNECTING ?fs = 0" "n_flag F_READING ?fs = 0"
    using n_flag_total [of ?fs] by simp_all
  moreover have "fd_of V ?fs = {}" if "F_NONE \<notin> V" for V
    using that none by (fastforce simp: fd_of_def)
  moreover have "apart ?fs"
    using none by (fastforce simp: apart_def)
  moreover have "traces ?fs []"
    using none by (simp add: traces_def file_trace_def log_of_def)
  ultimately show ?thesis
    by (simp add: web_inv_def) (simp add: web_init_def Let_def)
qed

lemma write_get_cmd_Inr:
  assumes "write_get_cmd ev i s = Inr s'"
  shows "s' = s\<lparr>web_files := (web_files s)[i := (web_files s ! i)\<lparr>f_flags := F_READING\<rparr>], w_rset := insert (f_fd (web_files s ! i)) (w_rset s),
    w_maxfd := max (w_maxfd s) (f_fd (web_files s ! i)), w_log := w_log s @ [Sent i (get_line (f_name (web_files s ! i)))]\<rparr>"
  using assms by (auto simp: write_get_cmd_def upd_file_def FD_SET_def Let_def split: if_splits option.splits)

lemma write_get_cmd_Inl: "write_get_cmd ev i s = Inl e \<Longrightarrow> e \<in> {Overread, Web_error, Web_range}"
  by (auto simp: write_get_cmd_def Let_def split: if_splits option.splits)

text \<open>What \<^verbatim>\<open>start_connect\<close> and the two counters do together.\<close>

lemma start_connect_Inr:
  assumes "start_connect ev i s = Inr s1" "i < length (web_files s)"
  obtains fd v l where "w_socket ev i = Inr fd"
    "s1 = s\<lparr>web_files := (web_files s)[i := (web_files s ! i)\<lparr>f_fd := fd, f_flags := v\<rparr>], w_rset := insert fd (w_rset s),
      w_wset := (if v = F_CONNECTING then insert fd (w_wset s) else w_wset s), w_maxfd := max (w_maxfd s) fd, w_log := w_log s @ l\<rparr>"
    "v = F_CONNECTING \<and> l = [Started i] \<or> v = F_READING \<and> l = [Started i, Sent i (get_line (f_name (web_files s ! i)))]"
proof (cases "w_socket ev i")
  case (Inr fd)
  show ?thesis
  proof (cases "w_connect ev i")
    case (Inl e)
    then have "s1 = s\<lparr>web_files := (web_files s)[i := (web_files s ! i)\<lparr>f_fd := fd, f_flags := F_CONNECTING\<rparr>], w_rset := insert fd (w_rset s),
        w_wset := insert fd (w_wset s), w_maxfd := max (w_maxfd s) fd, w_log := w_log s @ [Started i]\<rparr>"
      using assms Inr by (auto simp: start_connect_def upd_file_def Let_def FD_SET_def split: if_splits)
    then show ?thesis
      using that [where fd = fd and v = F_CONNECTING and l = "[Started i]"] Inr by simp
  next
    case (Inr u)
    then have "write_get_cmd ev i ((upd_file i (\<lambda>f. f\<lparr>f_fd := fd\<rparr>) s)\<lparr>w_log := w_log s @ [Started i]\<rparr>) = Inr s1"
      using assms \<open>w_socket ev i = Inr fd\<close> by (simp add: start_connect_def Let_def)
    from write_get_cmd_Inr [OF this] show ?thesis
      using that [where fd = fd and v = F_READING and l = "[Started i, Sent i (get_line (f_name (web_files s ! i)))]"] assms(2) \<open>w_socket ev i = Inr fd\<close>
      by (simp add: upd_file_def)
  qed
qed (use assms in \<open>simp add: start_connect_def\<close>)

lemma start_connect_Inl: "start_connect ev i s = Inl e \<Longrightarrow> e \<in> {Overread, Web_error, Web_range}"
  by (auto simp: start_connect_def Let_def split: sum.splits if_splits option.splits dest: write_get_cmd_Inl)

lemma start_one:
  assumes "start_connect ev i s = Inr s1" "web_inv m s" "nconn s < m" "i < length (web_files s)" "f_flags (web_files s ! i) = F_NONE"
    and "\<And>fd. w_socket ev i = Inr fd \<Longrightarrow> fd \<notin> w_rset s"
  shows "web_inv m (s1\<lparr>nconn := nconn s1 + 1, nlefttoconn := nlefttoconn s1 - 1\<rparr>)"
    and "achieved s \<le> achieved s1"
    and "\<exists>fd. w_socket ev i = Inr fd \<and> w_rset s1 = insert fd (w_rset s)"
    and "map f_name (web_files s1) = map f_name (web_files s)"
    and "\<exists>f. web_files s1 = (web_files s)[i := f] \<and> f_flags f \<noteq> F_NONE"
proof -
  obtain fd v l where fd: "w_socket ev i = Inr fd"
    and s1: "s1 = s\<lparr>web_files := (web_files s)[i := (web_files s ! i)\<lparr>f_fd := fd, f_flags := v\<rparr>], w_rset := insert fd (w_rset s),
      w_wset := (if v = F_CONNECTING then insert fd (w_wset s) else w_wset s), w_maxfd := max (w_maxfd s) fd, w_log := w_log s @ l\<rparr>"
    and v: "v = F_CONNECTING \<and> l = [Started i] \<or> v = F_READING \<and> l = [Started i, Sent i (get_line (f_name (web_files s ! i)))]"
    using start_connect_Inr [OF assms(1,4)] .
  let ?f = "(web_files s ! i)\<lparr>f_fd := fd, f_flags := v\<rparr>"
  have new: "fd \<notin> others OPEN i (web_files s)"
    using assms(6) [OF fd] assms(2) by (simp add: web_inv_def fd_of_others [OF assms(4)])
  have "apart ((web_files s)[i := ?f])"
    using assms(2) new by (intro apart_update assms(4)) (simp_all add: web_inv_def)
  moreover have "traces ((web_files s)[i := ?f]) (w_log s @ l)"
    using assms(2,5) v read_trace_start [of "[]" i] by (intro traces_update) (auto simp: web_inv_def file_trace_def)
  ultimately show "web_inv m (s1\<lparr>nconn := nconn s1 + 1, nlefttoconn := nlefttoconn s1 - 1\<rparr>)"
    using assms(2,3,5) v unfolding s1
    by (auto simp: web_inv_def n_flag_update [OF assms(4)] fd_of_update [OF assms(4)] fd_of_others [OF assms(4)] le_max_iff_disj)
  show "achieved s \<le> achieved s1"
    using v assms(5) unfolding s1 by (auto simp: achieved_def n_flag_update [OF assms(4)])
  show "\<exists>fd. w_socket ev i = Inr fd \<and> w_rset s1 = insert fd (w_rset s)"
    using fd by (simp add: s1)
  show "map f_name (web_files s1) = map f_name (web_files s)"
    by (simp add: s1 map_update list_update_same_conv assms(4))
  show "\<exists>f. web_files s1 = (web_files s)[i := f] \<and> f_flags f \<noteq> F_NONE"
    using v by (intro exI [of _ ?f]) (auto simp: s1)
qed

text \<open>The inner loop: it ends with as many connections as are allowed, or with no file left to start.\<close>

definition unused :: "web_event \<Rightarrow> web \<Rightarrow> bool" where
  "unused ev s \<longleftrightarrow> (\<forall>i < length (web_files s). f_flags (web_files s ! i) = F_NONE \<longrightarrow> (\<forall>fd. w_socket ev i = Inr fd \<longrightarrow> fd \<notin> w_rset s))"

lemma start_all_ok:
  assumes "web_inv m s" "unused ev s" "\<forall>i j fd. w_socket ev i = Inr fd \<and> w_socket ev j = Inr fd \<longrightarrow> i = j"
  shows "(\<forall>e. start_all m ev s = Inl e \<longrightarrow> e \<in> {Overread, Web_error, Web_range}) \<and>
    (\<forall>s1. start_all m ev s = Inr s1 \<longrightarrow> web_inv m s1 \<and> achieved s \<le> achieved s1 \<and> \<not> (nconn s1 < m \<and> 0 < nlefttoconn s1) \<and>
       nlefttoread s1 = nlefttoread s \<and> map f_name (web_files s1) = map f_name (web_files s))"
  using assms
proof (induction m ev s rule: start_all.induct)
  case (1 m ev s)
  show ?case
  proof (cases "nconn s < m \<and> 0 < nlefttoconn s")
    case False
    then show ?thesis
      using "1.prems"(1) by (auto simp: start_all.simps [of m ev s])
  next
    case True
    have "find_file 0 (web_files s) \<noteq> None"
      using True "1.prems"(1) n_flag_pos [of F_NONE "web_files s"] by (auto simp: web_inv_def find_file_None)
    then obtain i where i: "find_file 0 (web_files s) = Some i"
      by auto
    then have il: "i < length (web_files s)" "f_flags (web_files s ! i) = F_NONE"
      using find_file_Some [OF i] by auto
    show ?thesis
    proof (cases "start_connect ev i s")
      case (Inl e)
      then show ?thesis
        using True i start_connect_Inl [OF Inl] by (auto simp: start_all.simps [of m ev s])
    next
      case (Inr s1)
      have fresh: "fd \<notin> w_rset s" if "w_socket ev i = Inr fd" for fd
        using "1.prems"(2) il that by (simp add: unused_def)
      note one = start_one [OF Inr "1.prems"(1) conjunct1 [OF True] il fresh]
      let ?s = "s1\<lparr>nconn := nconn s1 + 1, nlefttoconn := nlefttoconn s1 - 1\<rparr>"
      obtain fd f where new: "w_socket ev i = Inr fd" "w_rset s1 = insert fd (w_rset s)" "web_files s1 = (web_files s)[i := f]" "f_flags f \<noteq> F_NONE"
        using one(3,5) by blast
      have "unused ev ?s"
        unfolding unused_def
      proof (intro allI impI)
        fix j gd
        assume j: "j < length (web_files ?s)" "f_flags (web_files ?s ! j) = F_NONE" "w_socket ev j = Inr gd"
        then have "j \<noteq> i"
          using new il by auto
        then have "gd \<noteq> fd" "gd \<notin> w_rset s"
          using j new "1.prems"(2,3) by (auto simp: unused_def)
        then show "gd \<notin> w_rset ?s"
          by (simp add: new)
      qed
      note IH = "1.IH" [OF True i Inr one(1) this "1.prems"(3)]
      have eq: "start_all m ev s = start_all m ev ?s"
        using True i Inr by (simp add: start_all.simps [of m ev s])
      have "achieved ?s = achieved s1" "nlefttoread ?s = nlefttoread s" "web_files ?s = web_files s1"
        using start_connect_counts(3) [OF Inr] by (simp_all add: achieved_def)
      then show ?thesis
        using IH one(2,4) unfolding eq by auto
    qed
  qed
qed

subsection \<open>A pass\<close>

definition hot :: "int set \<Rightarrow> int set \<Rightarrow> nat \<Rightarrow> web \<Rightarrow> bool" where
  "hot rs ws i s \<longleftrightarrow> (let f = web_files s ! i in
     f_flags f = F_CONNECTING \<and> (f_fd f \<in> rs \<or> f_fd f \<in> ws) \<or> f_flags f = F_READING \<and> f_fd f \<in> rs)"

lemma web_conn_established:
  assumes "web_conn ev rs ws i s = Inr s'" "web_inv m s" "i < length (web_files s)" "f_flags (web_files s ! i) = F_CONNECTING"
    and "f_fd (web_files s ! i) \<in> rs \<or> f_fd (web_files s ! i) \<in> ws"
  shows "web_inv m s' \<and> achieved s < achieved s' \<and> (\<exists>f. web_files s' = (web_files s)[i := f] \<and> f_name f = f_name (web_files s ! i))"
proof -
  let ?f = "web_files s ! i" and ?g = "(web_files s ! i)\<lparr>f_flags := F_READING\<rparr>"
  define pre where "pre = (if w_so_error ev (f_fd ?f) then [Failed i] else []) @ [Established i]"
  have "write_get_cmd ev i (s\<lparr>w_wset := w_wset s - {f_fd ?f}, w_log := w_log s @ pre\<rparr>) = Inr s'"
    using assms(1,4,5) by (simp add: web_conn_def Let_def pre_def)
  from write_get_cmd_Inr [OF this]
  have s': "s' = s\<lparr>web_files := (web_files s)[i := ?g], w_rset := insert (f_fd ?f) (w_rset s), w_wset := w_wset s - {f_fd ?f},
      w_maxfd := max (w_maxfd s) (f_fd ?f), w_log := w_log s @ pre @ [Sent i (get_line (f_name ?f))]\<rparr>"
    by simp
  have out: "f_fd ?f \<notin> others OPEN i (web_files s)"
    using assms(2-4) by (simp add: web_inv_def apart_def)
  then have out': "f_fd ?f \<notin> others {F_CONNECTING} i (web_files s)"
    using others_mono [of "{F_CONNECTING}" OPEN i "web_files s"] by auto
  have "apart ((web_files s)[i := ?g])"
    using assms(2) out by (intro apart_update assms(3)) (simp_all add: web_inv_def)
  moreover have "traces ((web_files s)[i := ?g]) (w_log s @ pre @ [Sent i (get_line (f_name ?f))])"
    using assms(2,4) read_trace_start [of pre i "f_name ?f"] by (intro traces_update) (auto simp: web_inv_def file_trace_def pre_def)
  ultimately have "web_inv m s'"
    using assms(2,4) out out' unfolding s'
    by (auto simp: web_inv_def n_flag_update [OF assms(3)] fd_of_update [OF assms(3)] fd_of_others [OF assms(3)] le_max_iff_disj)
  then show ?thesis
    using assms(4) by (auto simp: s' achieved_def n_flag_update [OF assms(3)] pre_def)
qed

lemma web_conn_read:
  assumes "web_conn ev rs ws i s = Inr s'" "web_inv m s" "i < length (web_files s)" "f_flags (web_files s ! i) = F_READING" "f_fd (web_files s ! i) \<in> rs"
  shows "web_inv m s' \<and> achieved s < achieved s' \<and> (\<exists>f. web_files s' = (web_files s)[i := f] \<and> f_name f = f_name (web_files s ! i))"
proof -
  let ?f = "web_files s ! i" and ?g = "(web_files s ! i)\<lparr>f_flags := F_DONE\<rparr>"
  obtain bs where bs: "w_read ev (f_fd ?f) = Inr bs"
    using assms(1,4,5) by (auto simp: web_conn_def Let_def split: sum.splits)
  define n where "n = min (length bs) MAXLINE"
  show ?thesis
  proof (cases "n = 0")
    case True
    then have s': "s' = s\<lparr>web_files := (web_files s)[i := ?g], w_rset := w_rset s - {f_fd ?f}, nconn := nconn s - 1,
        nlefttoread := nlefttoread s - 1, w_log := w_log s @ [Eof i]\<rparr>"
      using assms(1,4,5) bs by (simp add: web_conn_def Let_def upd_file_def flip: n_def)
    have out: "f_fd ?f \<notin> others OPEN i (web_files s)"
      using assms(2-4) by (simp add: web_inv_def apart_def)
    have "apart ((web_files s)[i := ?g])"
      using assms(2) by (intro apart_update assms(3)) (simp_all add: web_inv_def)
    moreover have "traces ((web_files s)[i := ?g]) (w_log s @ [Eof i])"
      using assms(2,4) by (intro traces_update) (auto simp: web_inv_def file_trace_def)
    ultimately have "web_inv m s'"
      using assms(2,4) out unfolding s'
      by (auto simp: web_inv_def n_flag_update [OF assms(3)] fd_of_update [OF assms(3)] fd_of_others [OF assms(3)])
    then show ?thesis
      using assms(4) by (auto simp: s' achieved_def n_flag_update [OF assms(3)])
  next
    case False
    then have s': "s' = s\<lparr>w_log := w_log s @ [Data i n]\<rparr>"
      using assms(1,4,5) bs by (simp add: web_conn_def Let_def flip: n_def)
    have "traces ((web_files s)[i := ?f]) (w_log s @ [Data i n])"
      using assms(2,4) False by (intro traces_update) (auto simp: web_inv_def file_trace_def read_trace_data)
    then have "web_inv m s'"
      using assms(2) unfolding s' by (simp add: web_inv_def)
    then show ?thesis
      by (auto simp: s' achieved_def intro!: exI [of _ ?f])
  qed
qed

lemma web_conn_step:
  assumes "web_conn ev rs ws i s = Inr s'" "web_inv m s" "i < length (web_files s)"
  shows "web_inv m s' \<and> achieved s \<le> achieved s' \<and> (hot rs ws i s \<longrightarrow> achieved s < achieved s') \<and>
    (\<exists>f. web_files s' = (web_files s)[i := f] \<and> f_name f = f_name (web_files s ! i))"
proof (cases "hot rs ws i s")
  case True
  then show ?thesis
    using web_conn_established [OF assms] web_conn_read [OF assms] by (fastforce simp: hot_def Let_def)
next
  case False
  then have "s' = s"
    using assms(1) by (auto simp: web_conn_def hot_def Let_def)
  then show ?thesis
    using False assms(2) by (auto intro!: exI [of _ "web_files s ! i"])
qed

lemma some_hot:
  assumes "web_inv m s" "rs \<subseteq> w_rset s" "ws \<subseteq> w_wset s" "rs \<noteq> {} \<or> ws \<noteq> {}"
  obtains i where "i < length (web_files s)" "hot rs ws i s"
proof (cases "ws = {}")
  case True
  then obtain fd where "fd \<in> rs" "fd \<in> fd_of OPEN (web_files s)"
    using assms by (auto simp: web_inv_def)
  then show ?thesis
    using that by (auto simp: fd_of_def hot_def Let_def)
next
  case False
  then obtain fd where "fd \<in> ws" "fd \<in> fd_of {F_CONNECTING} (web_files s)"
    using assms by (auto simp: web_inv_def)
  then show ?thesis
    using that by (auto simp: fd_of_def hot_def Let_def)
qed

lemma serve_conns:
  assumes "serve (web_conn ev rs ws) [0..<length (web_files s)] s = Inr s'" "web_inv m s" "rs \<subseteq> w_rset s" "ws \<subseteq> w_wset s" "rs \<noteq> {} \<or> ws \<noteq> {}"
  shows "web_inv m s' \<and> map f_name (web_files s') = map f_name (web_files s) \<and> achieved s < achieved s'"
proof -
  let ?Q = "\<lambda>t. web_inv m t \<and> map f_name (web_files t) = map f_name (web_files s)"
  have step: "?Q t' \<and> achieved t \<le> achieved t' \<and> (hot rs ws i t \<longrightarrow> achieved t < achieved t') \<and> (\<exists>f. web_files t' = (web_files t)[i := f])"
    if "i \<in> set [0..<length (web_files s)]" "?Q t" "web_conn ev rs ws i t = Inr t'" for i t t'
  proof -
    have "i < length (web_files t)"
      using that(1,2) map_eq_imp_length_eq [of f_name "web_files t" f_name "web_files s"] by simp
    note cs = web_conn_step [OF that(3) conjunct1 [OF that(2)] this] and il = this
    then obtain f where f: "web_files t' = (web_files t)[i := f]" "f_name f = f_name (web_files t ! i)"
      by blast
    then have "map f_name (web_files t') = map f_name (web_files t)"
      using il by (simp add: map_update list_update_same_conv)
    then show ?thesis
      using cs that(2) f(1) by auto
  qed
  obtain j where j: "j < length (web_files s)" "hot rs ws j s"
    using some_hot [OF assms(2-5)] .
  have "achieved s < achieved s'"
  proof (rule serve_progress [OF assms(1), of ?Q j "hot rs ws"])
    show "hot rs ws j t'" if "i \<in> set [0..<length (web_files s)]" "?Q t" "web_conn ev rs ws i t = Inr t'" "i \<noteq> j" "hot rs ws j t" for i t t'
      using step [OF that(1-3)] that(4,5) by (auto simp: hot_def)
    show "achieved t < achieved t'" if "?Q t" "web_conn ev rs ws j t = Inr t'" "hot rs ws j t" for t t'
      using step [of j t t'] that j(1) by simp
    show "?Q t' \<and> achieved t \<le> achieved t'" if "i \<in> set [0..<length (web_files s)]" "?Q t" "web_conn ev rs ws i t = Inr t'" for i t t'
      using step [OF that] by simp
  qed (use j assms(2) in simp_all)
  moreover have "?Q s'"
    using serve_inv [OF assms(1), of ?Q] step assms(2) by blast
  ultimately show ?thesis
    by simp
qed

lemma fresh_unused:
  assumes "sockets_fresh ev s"
  shows "unused ev s" and "\<forall>i j fd. w_socket ev i = Inr fd \<and> w_socket ev j = Inr fd \<longrightarrow> i = j"
  using assms by (auto simp: sockets_fresh_def unused_def)

lemma web_conn_Inl: "web_conn ev rs ws i s = Inl e \<Longrightarrow> e \<in> {Overread, Web_error, Web_range}"
  by (auto simp: web_conn_def Let_def split: if_splits sum.splits dest: write_get_cmd_Inl)

lemma web_pass_ok:
  assumes "web_inv m s" "sockets_fresh ev s"
  shows "web_pass m ev s = Inr s' \<Longrightarrow> web_inv m s' \<and> map f_name (web_files s') = map f_name (web_files s) \<and> achieved s < achieved s'"
    and "web_pass m ev s \<noteq> Inl Nothing_found"
proof -
  note start = start_all_ok [OF assms(1) fresh_unused [OF assms(2)]]
  show "web_inv m s' \<and> map f_name (web_files s') = map f_name (web_files s) \<and> achieved s < achieved s'" if pass: "web_pass m ev s = Inr s'"
  proof -
    obtain s1 where s1: "start_all m ev s = Inr s1"
      using pass by (auto simp: web_pass_def split: sum.splits)
    define rs ws where "rs = {fd \<in> w_rset s1. fd \<le> w_maxfd s1 \<and> fd \<in> w_readable ev}" and "ws = {fd \<in> w_wset s1. fd \<le> w_maxfd s1 \<and> fd \<in> w_writable ev}"
    have "serve (web_conn ev rs ws) [0..<length (web_files s1)] s1 = Inr s'" "rs \<noteq> {} \<or> ws \<noteq> {}"
      using pass unfolding web_pass_def s1 Let_def sum.case rs_def [symmetric] ws_def [symmetric] by (simp_all split: if_splits)
    moreover have "rs \<subseteq> w_rset s1" "ws \<subseteq> w_wset s1"
      by (auto simp: rs_def ws_def)
    ultimately show ?thesis
      using serve_conns [of ev rs ws s1 s' m] start s1 by auto
  qed
  show "web_pass m ev s \<noteq> Inl Nothing_found"
    using start by (auto simp: web_pass_def Let_def split: sum.splits if_splits dest!: serve_Inl web_conn_Inl)
qed

lemma web_reach_inv:
  assumes "web_reach m host names k s"
  shows "web_inv m s \<and> map f_name (web_files s) = take MAXFILES names \<and> int k \<le> achieved s"
  using assms
proof induction
  case init
  have "map f_name (web_files (web_init host names)) = take MAXFILES names"
    by (simp add: web_init_def Let_def comp_def min.commute flip: take_take)
  moreover have "0 \<le> achieved (web_init host names)"
    by (simp add: achieved_def n_flag_ge n_data_def)
  ultimately show ?case
    by (simp add: web_init_inv)
next
  case (pass k s ev s')
  then show ?case
    using web_pass_ok(1) [of m s ev s'] by auto
qed

text \<open>
  C12. After any number of passes the counters count the files by their flags, at most \<^verbatim>\<open>maxnconn\<close> connections are open, and what was done for each file is what its flag
  says: nothing, a connection begun, the request for its own name sent and data read, or all this up to the end of the file. The loop ends exactly when every file
  was read up to its end, the number of passes is at most twice the number of files plus the number of reads that gave data, the next file to start is always found,
  and \<^verbatim>\<open>select\<close> is called with as many connections open as the limit and the files left allow.
\<close>

theorem web_fetches:
  assumes "web_reach m host names k s"
  shows "nlefttoconn s = n_flag F_NONE (web_files s) \<and> nconn s = n_flag F_CONNECTING (web_files s) + n_flag F_READING (web_files s) \<and>
    nlefttoread s = nlefttoconn s + nconn s \<and> nconn s \<le> max 0 m \<and> map f_name (web_files s) = take MAXFILES names \<and>
    (\<forall>i < length (web_files s). file_trace i (web_files s ! i) (log_of i (w_log s))) \<and>
    (0 < nlefttoread s \<longleftrightarrow> (\<exists>f \<in> set (web_files s). f_flags f \<noteq> F_DONE)) \<and>
    int k \<le> 2 * int (length (web_files s)) + n_data (w_log s) \<and>
    (\<forall>ev. sockets_fresh ev s \<longrightarrow> web_pass m ev s \<noteq> Inl Nothing_found \<and>
       (\<forall>s1. start_all m ev s = Inr s1 \<and> 0 \<le> m \<longrightarrow> nconn s1 = min m (nlefttoread s1)))"
proof -
  let ?fs = "web_files s"
  have inv: "web_inv m s" "map f_name ?fs = take MAXFILES names" "int k \<le> achieved s"
    using web_reach_inv [OF assms] by auto
  have total: "nlefttoread s = int (length ?fs) - n_flag F_DONE ?fs"
    using inv(1) n_flag_total [of ?fs] by (simp add: web_inv_def)
  have ge: "0 \<le> n_flag v ?fs" for v
    by (rule n_flag_ge)
  have "int k \<le> 2 * int (length ?fs) + n_data (w_log s)"
    using inv(3) n_flag_total [of ?fs] ge [of F_NONE] ge [of F_CONNECTING] ge [of F_READING] by (simp add: achieved_def)
  moreover have "nconn s1 = min m (nlefttoread s1)" if "sockets_fresh ev s" "start_all m ev s = Inr s1" "0 \<le> m" for ev s1
  proof -
    have "web_inv m s1" "\<not> (nconn s1 < m \<and> 0 < nlefttoconn s1)"
      using start_all_ok [OF inv(1) fresh_unused [OF that(1)]] that(2) by auto
    then show ?thesis
      using that(3) n_flag_ge [of F_NONE "web_files s1"] by (auto simp: web_inv_def)
  qed
  moreover have "0 < nlefttoread s \<longleftrightarrow> (\<exists>f \<in> set ?fs. f_flags f \<noteq> F_DONE)"
    unfolding total using n_flag_lt [of F_DONE ?fs] by simp
  ultimately show ?thesis
    using inv(1,2) web_pass_ok(2) [OF inv(1)] by (auto simp: web_inv_def traces_def)
qed

text \<open>One file: the connection is established in the first pass and closed by the server in the second.\<close>

definition one_event :: "int \<Rightarrow> int set \<Rightarrow> int set \<Rightarrow> web_event" where
  "one_event fd R W = \<lparr>w_select = True, w_readable = R, w_writable = W, w_socket = (\<lambda>i. if i = 0 then Inr fd else Inl EACCES), w_connect = (\<lambda>_. Inl EINPROGRESS),
     w_so_error = (\<lambda>_. False), w_written = (\<lambda>_. True), w_read = (\<lambda>_. Inr [])\<rparr>"

definition one_state :: "f_flag \<Rightarrow> int \<Rightarrow> int set \<Rightarrow> web_log list \<Rightarrow> web" where
  "one_state v n R l = \<lparr>web_files = [\<lparr>f_name = ''a'', f_host = ''h'', f_fd = 5, f_flags = v\<rparr>], nconn = n, nlefttoconn = 0, nlefttoread = n, w_maxfd = 5,
     w_rset = R, w_wset = {}, w_log = [Started 0, Established 0, Sent 0 (get_line ''a'')] @ l\<rparr>"

lemma get_a: "length (GET_CMD ''a'') \<le> MAXLINE"
  by (simp add: GET_CMD_def MAXLINE_def)

lemma one_pass1: "web_pass 1 (one_event 5 {} {5}) (web_init ''h'' [''a'']) = Inr (one_state F_READING 1 {5} [])"
  using get_a
  by (simp add: web_pass_def start_all.simps web_init_def MAXFILES_def start_connect_def one_event_def upd_file_def FD_SET_def FD_SETSIZE_def
      web_conn_def write_get_cmd_def one_state_def not_less [symmetric])

lemma one_pass2: "web_pass 1 (one_event 6 {5} {}) (one_state F_READING 1 {5} []) = Inr (one_state F_DONE 0 {} [Eof 0])"
  by (simp add: web_pass_def start_all.simps one_event_def upd_file_def web_conn_def one_state_def)

lemma one_reach: "web_reach 1 ''h'' [''a''] 2 (one_state F_DONE 0 {} [Eof 0])"
proof -
  have "sockets_fresh (one_event 5 {} {5}) (web_init ''h'' [''a''])" "0 < nlefttoread (web_init ''h'' [''a''])"
    by (auto simp: sockets_fresh_def one_event_def web_init_def MAXFILES_def split: if_splits)
  then have "web_reach 1 ''h'' [''a''] (Suc 0) (one_state F_READING 1 {5} [])"
    using web_reach.pass [OF web_reach.init _ _ one_pass1] by blast
  moreover have "sockets_fresh (one_event 6 {5} {}) (one_state F_READING 1 {5} [])" "0 < nlefttoread (one_state F_READING 1 {5} [])"
    by (auto simp: sockets_fresh_def one_event_def one_state_def split: if_splits)
  ultimately show ?thesis
    using web_reach.pass [OF _ _ _ one_pass2] by (simp add: numeral_2_eq_2)
qed

theorem web_fetches_witness:
  "web_reach 1 ''h'' [''a''] 2 (one_state F_DONE 0 {} [Eof 0]) \<and>
   file_trace 0 (web_files (one_state F_DONE 0 {} [Eof 0]) ! 0) (log_of 0 (w_log (one_state F_DONE 0 {} [Eof 0]))) \<and>
   (2::int) \<le> 2 * 1 + n_data (w_log (one_state F_DONE 0 {} [Eof 0]))"
proof -
  have "length (web_files (one_state F_DONE 0 {} [Eof 0])) = 1"
    by (simp add: one_state_def)
  then show ?thesis
    using web_fetches [OF one_reach] one_reach by simp
qed

text \<open>A connection that has failed is announced as established, and the request is written to it.\<close>

lemma failed_connection_used:
  assumes "f_flags (web_files s ! i) = F_CONNECTING" "f_fd (web_files s ! i) \<in> ws" "w_so_error ev (f_fd (web_files s ! i))"
    and "web_conn ev rs ws i s = Inr s'"
  shows "w_log s' = w_log s @ [Failed i, Established i, Sent i (get_line (f_name (web_files s ! i)))]"
  using assms by (auto simp: web_conn_def Let_def dest: write_get_cmd_Inr)

text \<open>With no connection allowed the program waits for ever.\<close>

lemma no_connection_allowed:
  assumes "m \<le> 0" "w_select ev"
  shows "web_pass m ev (web_init host names) = Inl Web_waits"
  using assms by (simp add: web_pass_def start_all.simps web_init_def Let_def)

end
