(* ===== verification/WebThreads.thy ===== *)
theory WebThreads
  imports Prelude
begin

text \<open>
  The client that fetches each file in a thread of its own, \<^verbatim>\<open>src/unixNetV1/threads/web03.c\<close>: the main thread starts up to \<^verbatim>\<open>maxnconn\<close> threads, waits on a
  condition variable until one has ended, and joins those that are marked as done. The theory interleaves the steps of the main thread and of the others; every step
  touches the shared variables at most once, or runs with the mutex held. It shows what the counters mean, and that the program can only come to rest when every file was
  fetched, or in one way that is a deadlock: a thread marks itself as done before it asks for the mutex, and the main thread joins it with the mutex held.
\<close>

subsection \<open>Model\<close>

datatype g_flag = G_NONE | G_CONNECTING | G_READING | G_DONE | G_JOINED

text \<open>Where \<^verbatim>\<open>do_get_read\<close> is for a file; \<open>GTerm i\<close> is the end of the thread, with a pointer to entry \<open>i\<close> as its result.\<close>

datatype get_pc = GNew | GConnect | GRead | GLock | GTerm nat

text \<open>An entry of \<^verbatim>\<open>file\<close> with its thread; name, host and descriptor do not matter here.\<close>

record job =
  g_flags :: g_flag
  g_pc :: get_pc

datatype main_pc = MTop | MLock | MTest | MWait | MWoken | MScan nat | MJoin nat | MUnlock | MExit | MQuit

record web3 =
  jobs :: "job list"
  g_nconn :: int
  g_lefttoconn :: int
  g_lefttoread :: int
  ndone :: int
  ndone_mutex :: bool
  main_at :: main_pc

definition web3_init :: "nat \<Rightarrow> web3" where
  "web3_init argfiles = (let nfiles = min argfiles 20 in
     \<lparr>jobs = replicate nfiles \<lparr>g_flags = G_NONE, g_pc = GNew\<rparr>, g_nconn = 0, g_lefttoconn = int nfiles, g_lefttoread = int nfiles, ndone = 0,
      ndone_mutex = False, main_at = MTop\<rparr>)"

fun find_job :: "nat \<Rightarrow> job list \<Rightarrow> nat option" where
  "find_job k [] = None"
| "find_job k (j # js) = (if g_flags j = G_NONE then Some k else find_job (k + 1) js)"

text \<open>A step of the main thread; \<^const>\<open>None\<close> says that it has to wait, or has ended.\<close>

definition main_step :: "int \<Rightarrow> web3 \<Rightarrow> web3 option" where
  "main_step maxnconn s = (case main_at s of
     MTop \<Rightarrow> Some
       (if 0 < g_lefttoread s then
          if g_nconn s < maxnconn \<and> 0 < g_lefttoconn s then
            (case find_job 0 (jobs s) of None \<Rightarrow> s\<lparr>main_at := MQuit\<rparr>
             | Some i \<Rightarrow> s\<lparr>jobs := (jobs s)[i := \<lparr>g_flags = G_CONNECTING, g_pc = GConnect\<rparr>], g_nconn := g_nconn s + 1, g_lefttoconn := g_lefttoconn s - 1\<rparr>)
          else s\<lparr>main_at := MLock\<rparr>
        else s\<lparr>main_at := MExit\<rparr>)
   | MLock \<Rightarrow> if ndone_mutex s then None else Some (s\<lparr>ndone_mutex := True, main_at := MTest\<rparr>)
   | MTest \<Rightarrow> Some (if ndone s = 0 then s\<lparr>ndone_mutex := False, main_at := MWait\<rparr> else s\<lparr>main_at := MScan 0\<rparr>)
   | MWait \<Rightarrow> None
   | MWoken \<Rightarrow> if ndone_mutex s then None else Some (s\<lparr>ndone_mutex := True, main_at := MTest\<rparr>)
   | MScan i \<Rightarrow> Some
       (if i < length (jobs s) then
          if g_flags (jobs s ! i) = G_DONE then s\<lparr>main_at := MJoin i\<rparr> else s\<lparr>main_at := MScan (i + 1)\<rparr>
        else s\<lparr>main_at := MUnlock\<rparr>)
   | MJoin i \<Rightarrow>
       (case g_pc (jobs s ! i) of
          GTerm r \<Rightarrow> Some
            (if r \<noteq> i then s\<lparr>main_at := MQuit\<rparr>
             else s\<lparr>jobs := (jobs s)[i := (jobs s ! i)\<lparr>g_flags := G_JOINED\<rparr>], ndone := ndone s - 1, g_nconn := g_nconn s - 1,
               g_lefttoread := g_lefttoread s - 1, main_at := MScan (i + 1)\<rparr>)
        | _ \<Rightarrow> None)
   | MUnlock \<Rightarrow> Some (s\<lparr>ndone_mutex := False, main_at := MTop\<rparr>)
   | MExit \<Rightarrow> None
   | MQuit \<Rightarrow> None)"

text \<open>
  A step of the thread for entry \<open>i\<close>: connect and write the command, read up to the end of the file and mark the entry, then the region with the mutex held, as
  one step, since no other thread can look into it.
\<close>

definition set_job :: "nat \<Rightarrow> g_flag \<Rightarrow> get_pc \<Rightarrow> web3 \<Rightarrow> web3" where
  "set_job i v p s = s\<lparr>jobs := (jobs s)[i := \<lparr>g_flags = v, g_pc = p\<rparr>]\<rparr>"

definition get_step :: "nat \<Rightarrow> web3 \<Rightarrow> web3 option" where
  "get_step i s = (case g_pc (jobs s ! i) of
     GNew \<Rightarrow> None
   | GConnect \<Rightarrow> Some (set_job i G_READING GRead s)
   | GRead \<Rightarrow> Some (set_job i G_DONE GLock s)
   | GLock \<Rightarrow> if ndone_mutex s then None
       else Some ((set_job i (g_flags (jobs s ! i)) (GTerm i) s)\<lparr>ndone := ndone s + 1, main_at := (if main_at s = MWait then MWoken else main_at s)\<rparr>)
   | GTerm r \<Rightarrow> None)"

text \<open>The interleavings, with wake-ups without a signal.\<close>

inductive web3_step :: "int \<Rightarrow> web3 \<Rightarrow> web3 \<Rightarrow> bool" for m where
  main: "main_at s \<notin> {MExit, MQuit} \<Longrightarrow> main_step m s = Some s' \<Longrightarrow> web3_step m s s'"
| get: "main_at s \<notin> {MExit, MQuit} \<Longrightarrow> i < length (jobs s) \<Longrightarrow> get_step i s = Some s' \<Longrightarrow> web3_step m s s'"
| spurious: "main_at s = MWait \<Longrightarrow> web3_step m s (s\<lparr>main_at := MWoken\<rparr>)"

subsection \<open>The invariant\<close>

abbreviation running :: "job \<Rightarrow> bool" where
  "running j \<equiv> g_flags j \<in> {G_CONNECTING, G_READING, G_DONE}"

definition job_ok :: "nat \<Rightarrow> job \<Rightarrow> bool" where
  "job_ok i j = (case g_flags j of G_NONE \<Rightarrow> g_pc j = GNew | G_CONNECTING \<Rightarrow> g_pc j = GConnect | G_READING \<Rightarrow> g_pc j = GRead
     | G_DONE \<Rightarrow> g_pc j \<in> {GLock, GTerm i} | G_JOINED \<Rightarrow> g_pc j = GTerm i)"

definition main_ok :: "int \<Rightarrow> web3 \<Rightarrow> bool" where
  "main_ok m s = (case main_at s of MTop \<Rightarrow> True | MScan i \<Rightarrow> True | MUnlock \<Rightarrow> True
     | MJoin i \<Rightarrow> i < length (jobs s) \<and> g_flags (jobs s ! i) = G_DONE
     | MExit \<Rightarrow> g_lefttoread s = 0 | MQuit \<Rightarrow> False
     | _ \<Rightarrow> 0 < g_lefttoread s \<and> \<not> (g_nconn s < m \<and> 0 < g_lefttoconn s) \<and> (main_at s = MWait \<longrightarrow> ndone s = 0))"

fun holds :: "main_pc \<Rightarrow> bool" where
  "holds MTest = True"
| "holds (MScan i) = True"
| "holds (MJoin i) = True"
| "holds MUnlock = True"
| "holds _ = False"

definition web3_inv :: "int \<Rightarrow> web3 \<Rightarrow> bool" where
  "web3_inv m s \<longleftrightarrow> (\<forall>i < length (jobs s). job_ok i (jobs s ! i)) \<and> g_lefttoconn s = n_of (\<lambda>j. g_flags j = G_NONE) (jobs s) \<and>
     g_nconn s = n_of running (jobs s) \<and> g_lefttoread s = g_lefttoconn s + g_nconn s \<and> g_nconn s \<le> max 0 m \<and>
     ndone s = n_of (\<lambda>j. g_flags j = G_DONE \<and> g_pc j \<noteq> GLock) (jobs s) \<and> (ndone_mutex s \<longleftrightarrow> holds (main_at s)) \<and> main_ok m s"

lemma web3_init_inv: "web3_inv m (web3_init n)"
  by (auto simp: web3_inv_def web3_init_def Let_def job_ok_def main_ok_def)

lemma find_job_None: "find_job k js = None \<longleftrightarrow> (\<forall>j \<in> set js. g_flags j \<noteq> G_NONE)"
  by (induction js arbitrary: k) auto

lemma find_job_Some: "find_job k js = Some i \<Longrightarrow> k \<le> i \<and> i < k + length js \<and> g_flags (js ! (i - k)) = G_NONE"
  by (induction js arbitrary: k) (fastforce split: if_splits simp: nth_Cons' Suc_diff_le)+

lemma jobs_ok_update:
  "\<forall>k < length js. job_ok k (js ! k) \<Longrightarrow> job_ok i j \<Longrightarrow> \<forall>k < length (js[i := j]). job_ok k (js[i := j] ! k)"
  by (metis length_list_update nth_list_update_eq nth_list_update_neq)

lemma main_ok_set:
  assumes "main_ok m s" "g_flags (jobs s ! i) = G_DONE \<longrightarrow> g_flags j = G_DONE"
  shows "main_ok m (s\<lparr>jobs := (jobs s)[i := j]\<rparr>)"
proof (cases "main_at s")
  case (MJoin k)
  then show ?thesis
    using assms by (cases "k = i") (auto simp: main_ok_def)
qed (use assms in \<open>auto simp: main_ok_def\<close>)

lemma main_ok_signal:
  "main_ok m s \<Longrightarrow> p = (if main_at s = MWait then MWoken else main_at s) \<Longrightarrow> main_ok m (s\<lparr>ndone := n, main_at := p\<rparr>)"
  by (cases "main_at s") (auto simp: main_ok_def)

lemma holds_signal [simp]: "holds (if p = MWait then MWoken else p) = holds p"
  by auto

lemma lefttoread_ge: "web3_inv m s \<Longrightarrow> 0 \<le> g_lefttoread s"
  unfolding web3_inv_def using n_of_ge [of running "jobs s"] n_of_ge [of "\<lambda>j. g_flags j = G_NONE" "jobs s"] by linarith

lemma main_top_inv:
  assumes "web3_inv m s" "main_at s = MTop" "main_step m s = Some s'"
  shows "web3_inv m s'"
proof (cases "0 < g_lefttoread s \<and> g_nconn s < m \<and> 0 < g_lefttoconn s")
  case True
  then obtain i where i: "find_job 0 (jobs s) = Some i"
    using assms(1) n_of_pos [of "\<lambda>j. g_flags j = G_NONE" "jobs s"] by (fastforce simp: web3_inv_def find_job_None)
  then have il: "i < length (jobs s)" "g_flags (jobs s ! i) = G_NONE"
    using find_job_Some [OF i] by auto
  have s': "s' = s\<lparr>jobs := (jobs s)[i := \<lparr>g_flags = G_CONNECTING, g_pc = GConnect\<rparr>], g_nconn := g_nconn s + 1, g_lefttoconn := g_lefttoconn s - 1\<rparr>"
    using assms(2,3) True i by (simp add: main_step_def)
  show ?thesis
    using assms(1,2) il True jobs_ok_update [of "jobs s" i "\<lparr>g_flags = G_CONNECTING, g_pc = GConnect\<rparr>"]
      job_ok_def [of i "\<lparr>g_flags = G_CONNECTING, g_pc = GConnect\<rparr>"]
    unfolding s' by (simp add: web3_inv_def n_of_update main_ok_def le_max_iff_disj)
next
  case False
  show ?thesis
  proof (cases "0 < g_lefttoread s")
    case True
    then have "s' = s\<lparr>main_at := MLock\<rparr>"
      using assms(2,3) False by (auto simp: main_step_def split: if_splits)
    then show ?thesis
      using assms(1,2) False True by (auto simp: web3_inv_def main_ok_def)
  next
    case left: False
    then have "s' = s\<lparr>main_at := MExit\<rparr>" "g_lefttoread s = 0"
      using assms(2,3) lefttoread_ge [OF assms(1)] by (simp_all add: main_step_def)
    then show ?thesis
      using assms(1,2) by (simp add: web3_inv_def main_ok_def)
  qed
qed

lemma main_join_inv:
  assumes "web3_inv m s" "main_at s = MJoin i" "main_step m s = Some s'"
  shows "web3_inv m s'"
proof -
  have il: "i < length (jobs s)" "g_flags (jobs s ! i) = G_DONE"
    using assms(1,2) by (auto simp: web3_inv_def main_ok_def)
  then have "g_pc (jobs s ! i) \<in> {GLock, GTerm i}"
    using assms(1) by (auto simp: web3_inv_def job_ok_def dest: spec [of _ i])
  then have pc: "g_pc (jobs s ! i) = GTerm i"
    using assms(2,3) by (auto simp: main_step_def)
  then have s': "s' = s\<lparr>jobs := (jobs s)[i := (jobs s ! i)\<lparr>g_flags := G_JOINED\<rparr>], ndone := ndone s - 1, g_nconn := g_nconn s - 1,
      g_lefttoread := g_lefttoread s - 1, main_at := MScan (i + 1)\<rparr>"
    using assms(2,3) by (simp add: main_step_def)
  show ?thesis
    using assms(1,2) il pc jobs_ok_update [of "jobs s" i "(jobs s ! i)\<lparr>g_flags := G_JOINED\<rparr>"]
      job_ok_def [of i "(jobs s ! i)\<lparr>g_flags := G_JOINED\<rparr>"]
    unfolding s' by (simp add: web3_inv_def n_of_update main_ok_def)
qed

lemma main_step_inv:
  assumes "web3_inv m s" "main_step m s = Some s'"
  shows "web3_inv m s'"
proof (cases "main_at s")
  case MTop
  then show ?thesis
    using main_top_inv assms by blast
next
  case (MJoin i)
  then show ?thesis
    using main_join_inv assms by blast
qed (use assms in \<open>auto simp: main_step_def web3_inv_def main_ok_def split: if_splits\<close>)

lemma get_step_inv:
  assumes "web3_inv m s" "get_step i s = Some s'" "i < length (jobs s)"
  shows "web3_inv m s'"
proof -
  have ok: "\<forall>k < length (jobs s). job_ok k (jobs s ! k)" "job_ok i (jobs s ! i)"
    using assms(1,3) by (auto simp: web3_inv_def)
  show ?thesis
  proof (cases "g_pc (jobs s ! i)")
    case GConnect
    then have f: "g_flags (jobs s ! i) = G_CONNECTING"
      using ok(2) by (auto simp: job_ok_def split: g_flag.splits)
    let ?j = "\<lparr>g_flags = G_READING, g_pc = GRead\<rparr>"
    have s': "s' = s\<lparr>jobs := (jobs s)[i := ?j]\<rparr>"
      using assms(2) GConnect by (simp add: get_step_def set_job_def)
    have "\<forall>k < length ((jobs s)[i := ?j]). job_ok k ((jobs s)[i := ?j] ! k)"
      by (rule jobs_ok_update [OF ok(1)]) (simp add: job_ok_def)
    then show ?thesis
      using assms(1,3) GConnect f main_ok_set [of m s i ?j] unfolding s' by (simp add: web3_inv_def n_of_update)
  next
    case GRead
    then have f: "g_flags (jobs s ! i) = G_READING"
      using ok(2) by (auto simp: job_ok_def split: g_flag.splits)
    let ?j = "\<lparr>g_flags = G_DONE, g_pc = GLock\<rparr>"
    have s': "s' = s\<lparr>jobs := (jobs s)[i := ?j]\<rparr>"
      using assms(2) GRead by (simp add: get_step_def set_job_def)
    have "\<forall>k < length ((jobs s)[i := ?j]). job_ok k ((jobs s)[i := ?j] ! k)"
      by (rule jobs_ok_update [OF ok(1)]) (simp add: job_ok_def)
    then show ?thesis
      using assms(1,3) GRead f main_ok_set [of m s i ?j] unfolding s' by (simp add: web3_inv_def n_of_update)
  next
    case GLock
    then have f: "g_flags (jobs s ! i) = G_DONE"
      using ok(2) by (auto simp: job_ok_def split: g_flag.splits)
    let ?j = "\<lparr>g_flags = G_DONE, g_pc = GTerm i\<rparr>"
    let ?s = "s\<lparr>jobs := (jobs s)[i := ?j]\<rparr>"
    have s': "s' = ?s\<lparr>ndone := ndone s + 1, main_at := (if main_at s = MWait then MWoken else main_at s)\<rparr>"
      using assms(2) GLock f by (simp add: get_step_def set_job_def split: if_splits)
    have "\<forall>k < length ((jobs s)[i := ?j]). job_ok k ((jobs s)[i := ?j] ! k)"
      by (rule jobs_ok_update [OF ok(1)]) (simp add: job_ok_def)
    moreover have "main_ok m s'"
      unfolding s' using assms(1) by (intro main_ok_signal main_ok_set) (simp_all add: web3_inv_def)
    ultimately show ?thesis
      using assms(1,3) GLock f unfolding s' by (simp add: web3_inv_def n_of_update)
  qed (use assms in \<open>simp_all add: get_step_def\<close>)
qed

lemma web3_reach_inv: "(web3_step m)\<^sup>*\<^sup>* (web3_init n) s \<Longrightarrow> web3_inv m s"
proof (induction rule: rtranclp_induct)
  case base
  show ?case
    by (rule web3_init_inv)
next
  case (step s s')
  from step(2,3) show ?case
  proof cases
    case spurious
    then show ?thesis
      using step(3) by (auto simp: web3_inv_def main_ok_def)
  qed (auto dest: main_step_inv get_step_inv)
qed

subsection \<open>Where the program comes to rest\<close>

definition at_rest :: "int \<Rightarrow> web3 \<Rightarrow> bool" where
  "at_rest m s \<longleftrightarrow> main_at s \<in> {MExit, MQuit} \<or> main_step m s = None \<and> (\<forall>i < length (jobs s). get_step i s = None)"

text \<open>The main thread joins a thread that waits for the mutex the main thread holds.\<close>

definition join_deadlock :: "web3 \<Rightarrow> bool" where
  "join_deadlock s \<longleftrightarrow> (\<exists>i < length (jobs s). main_at s = MJoin i \<and> g_pc (jobs s ! i) = GLock \<and> ndone_mutex s)"

lemma waiting_not_at_rest:
  assumes "web3_inv m s" "0 < m" "main_at s = MWait"
  obtains i where "i < length (jobs s)" "get_step i s \<noteq> None"
proof -
  have "0 < g_lefttoread s" "\<not> (g_nconn s < m \<and> 0 < g_lefttoconn s)" "ndone s = 0" "\<not> ndone_mutex s"
    using assms(1,3) by (auto simp: web3_inv_def main_ok_def)
  moreover have "g_lefttoread s = g_lefttoconn s + g_nconn s"
    using assms(1) by (simp add: web3_inv_def)
  ultimately have "0 < n_of running (jobs s)" and nd: "\<not> 0 < n_of (\<lambda>j. g_flags j = G_DONE \<and> g_pc j \<noteq> GLock) (jobs s)"
    using assms(1,2) by (auto simp: web3_inv_def)
  then obtain j where "j \<in> set (jobs s)" "running j"
    unfolding n_of_pos by auto
  then obtain i where i: "i < length (jobs s)" "running (jobs s ! i)"
    by (auto simp: in_set_conv_nth)
  moreover have "job_ok i (jobs s ! i)"
    using assms(1) i(1) by (simp add: web3_inv_def)
  moreover have "g_flags (jobs s ! i) = G_DONE \<longrightarrow> g_pc (jobs s ! i) = GLock"
    using nd i(1) unfolding n_of_pos by auto
  ultimately have "get_step i s \<noteq> None"
    using \<open>\<not> ndone_mutex s\<close> by (auto simp: get_step_def job_ok_def)
  then show ?thesis
    using that i(1) by blast
qed

lemma at_rest_cases:
  assumes "web3_inv m s" "0 < m" "at_rest m s"
  shows "main_at s = MExit \<or> join_deadlock s"
proof (cases "main_at s")
  case MWait
  then show ?thesis
    using waiting_not_at_rest [OF assms(1,2)] assms(3) by (auto simp: at_rest_def)
next
  case (MJoin i)
  then have "i < length (jobs s)" "g_flags (jobs s ! i) = G_DONE" "ndone_mutex s" "job_ok i (jobs s ! i)"
    using assms(1) by (auto simp: web3_inv_def main_ok_def)
  then show ?thesis
    using assms(3) MJoin by (auto simp: at_rest_def join_deadlock_def main_step_def job_ok_def)
qed (use assms in \<open>auto simp: at_rest_def main_step_def web3_inv_def main_ok_def split: if_splits\<close>)

text \<open>
  C10. In every interleaving the counters count the files by the state of their threads, \<^verbatim>\<open>ndone\<close> counts the threads that have ended and are not yet joined, at most
  \<^verbatim>\<open>maxnconn\<close> threads run, and neither call of \<^verbatim>\<open>err_quit\<close> in the loop is reached. With at least one connection allowed the program comes to rest only at its end, when every file
  was fetched and every thread joined, or with the main thread joining a thread that waits for the mutex.
\<close>

theorem web3_comes_to_rest:
  assumes "(web3_step m)\<^sup>*\<^sup>* (web3_init n) s"
  shows "g_lefttoconn s = n_of (\<lambda>j. g_flags j = G_NONE) (jobs s) \<and> g_nconn s = n_of running (jobs s) \<and> g_lefttoread s = g_lefttoconn s + g_nconn s \<and>
    g_nconn s \<le> max 0 m \<and> ndone s = n_of (\<lambda>j. g_flags j = G_DONE \<and> g_pc j \<noteq> GLock) (jobs s) \<and> main_at s \<noteq> MQuit \<and>
    (0 < m \<and> at_rest m s \<longrightarrow> main_at s = MExit \<and> (\<forall>j \<in> set (jobs s). g_flags j = G_JOINED) \<or> join_deadlock s)"
proof -
  have inv: "web3_inv m s"
    using web3_reach_inv [OF assms] .
  have "\<forall>j \<in> set (jobs s). g_flags j = G_JOINED" if "main_at s = MExit"
  proof
    fix j
    assume j: "j \<in> set (jobs s)"
    have "n_of running (jobs s) + n_of (\<lambda>j. g_flags j = G_NONE) (jobs s) = 0"
      using inv that by (simp add: web3_inv_def main_ok_def)
    then have "\<not> 0 < n_of running (jobs s)" "\<not> 0 < n_of (\<lambda>j. g_flags j = G_NONE) (jobs s)"
      using n_of_ge [of running "jobs s"] n_of_ge [of "\<lambda>j. g_flags j = G_NONE" "jobs s"] by linarith+
    then show "g_flags j = G_JOINED"
      using j unfolding n_of_pos by (cases "g_flags j") auto
  qed
  then show ?thesis
    using inv at_rest_cases [OF inv] by (auto simp: web3_inv_def main_ok_def)
qed

text \<open>Executions as sequences of steps: the main thread, or the thread of an entry.\<close>

fun web3_exec :: "int \<Rightarrow> nat option list \<Rightarrow> web3 \<Rightarrow> web3 option" where
  "web3_exec m [] s = Some s"
| "web3_exec m (w # ws) s =
     (if main_at s \<in> {MExit, MQuit} then None
      else case (case w of None \<Rightarrow> main_step m s | Some i \<Rightarrow> if i < length (jobs s) then get_step i s else None) of
        None \<Rightarrow> None | Some s' \<Rightarrow> web3_exec m ws s')"

lemma web3_exec_reach: "web3_exec m ws s = Some s' \<Longrightarrow> (web3_step m)\<^sup>*\<^sup>* s s'"
proof (induction ws arbitrary: s)
  case (Cons w ws)
  then obtain x where x: "(case w of None \<Rightarrow> main_step m s | Some i \<Rightarrow> if i < length (jobs s) then get_step i s else None) = Some x"
    "web3_exec m ws x = Some s'" "main_at s \<notin> {MExit, MQuit}"
    by (auto split: if_splits option.splits)
  then have "web3_step m s x"
    by (cases w) (auto split: if_splits intro: web3_step.intros)
  then show ?case
    using Cons.IH [OF x(2)] by (simp add: converse_rtranclp_into_rtranclp)
qed simp

text \<open>One file, fetched and joined.\<close>

definition one_joined :: web3 where
  "one_joined = \<lparr>jobs = [\<lparr>g_flags = G_JOINED, g_pc = GTerm 0\<rparr>], g_nconn = 0, g_lefttoconn = 0, g_lefttoread = 0, ndone = 0, ndone_mutex = False, main_at = MExit\<rparr>"

lemma one_joined_reach: "(web3_step 1)\<^sup>*\<^sup>* (web3_init 1) one_joined"
proof (rule web3_exec_reach)
  show "web3_exec 1 [None, None, None, None, Some 0, Some 0, Some 0, None, None, None, None, None, None, None] (web3_init 1) = Some one_joined"
    by (simp add: web3_init_def main_step_def get_step_def set_job_def one_joined_def)
qed

theorem web3_comes_to_rest_witness:
  "(web3_step 1)\<^sup>*\<^sup>* (web3_init 1) one_joined \<and> at_rest 1 one_joined \<and> g_flags (jobs one_joined ! 0) = G_JOINED"
proof -
  have "at_rest 1 one_joined" "\<not> join_deadlock one_joined" "jobs one_joined ! 0 \<in> set (jobs one_joined)"
    by (simp_all add: at_rest_def join_deadlock_def one_joined_def)
  then show ?thesis
    using web3_comes_to_rest [OF one_joined_reach] one_joined_reach by simp
qed

subsection \<open>The deadlock\<close>

lemma join_deadlock_stays:
  assumes "main_at s = MJoin i" "g_pc (jobs s ! i) = GLock" "ndone_mutex s" "i < length (jobs s)" "(web3_step m)\<^sup>*\<^sup>* s s'"
  shows "main_at s' = MJoin i \<and> g_pc (jobs s' ! i) = GLock \<and> ndone_mutex s' \<and> i < length (jobs s') \<and> g_lefttoread s' = g_lefttoread s"
  using assms(5)
proof (induction rule: rtranclp_induct)
  case (step x y)
  from step(2,3) show ?case
  proof cases
    case (get j)
    then show ?thesis
      using step(3) by (cases "j = i") (auto simp: get_step_def set_job_def split: get_pc.splits if_splits)
  qed (use step(3) in \<open>auto simp: main_step_def\<close>)
qed (use assms in simp)

text \<open>
  C11. The deadlock is reachable with two files and two connections: the first thread has ended, the main thread holds the mutex and looks for threads that are
  done, and the second thread marks itself before it asks for the mutex. From then on the main thread stays in \<^verbatim>\<open>pthread_join\<close> whatever happens, with a file that is not accounted for.
\<close>

theorem web3_deadlock:
  "\<exists>s. (web3_step 2)\<^sup>*\<^sup>* (web3_init 2) s \<and> join_deadlock s \<and>
    {s'. (web3_step 2)\<^sup>*\<^sup>* s s'} \<subseteq> {s'. main_at s' = MJoin 1 \<and> 0 < g_lefttoread s'}"
proof -
  let ?s = "\<lparr>jobs = [\<lparr>g_flags = G_JOINED, g_pc = GTerm 0\<rparr>, \<lparr>g_flags = G_DONE, g_pc = GLock\<rparr>], g_nconn = 1, g_lefttoconn = 0, g_lefttoread = 1,
    ndone = 0, ndone_mutex = True, main_at = MJoin 1\<rparr>"
  have "web3_exec 2 [None, None, Some 0, Some 0, Some 0, Some 1, None, None, None, None, None, Some 1, None] (web3_init 2) = Some ?s"
    by (simp add: web3_init_def main_step_def get_step_def set_job_def numeral_2_eq_2)
  then have "(web3_step 2)\<^sup>*\<^sup>* (web3_init 2) ?s"
    by (rule web3_exec_reach)
  moreover have "join_deadlock ?s"
    by (auto simp: join_deadlock_def intro!: exI [of _ 1])
  moreover have "main_at s' = MJoin 1 \<and> 0 < g_lefttoread s'" if "(web3_step 2)\<^sup>*\<^sup>* ?s s'" for s'
    using join_deadlock_stays [OF _ _ _ _ that, of 1] by simp
  ultimately show ?thesis
    by blast
qed

end
