(* ===== verification/SockLoop.thy ===== *)
theory SockLoop
  imports StreamIo
begin

text \<open>
  The program \<^verbatim>\<open>sock\<close> as a TCP client or server, \<^verbatim>\<open>src/unixNetV1/sock\<close>: the conversion of line ends (\<^verbatim>\<open>crlf.c\<close>), writing in chunks (\<^verbatim>\<open>write.c\<close>), its own version of
  \<^verbatim>\<open>writen\<close> (\<^verbatim>\<open>writen.c\<close>), and the loop that copies standard input to the socket and the socket to standard output (\<^verbatim>\<open>looptcp.c\<close>). The theory shows what the conversions compute and
  when they refuse, that the chunks always cover the buffer, and that the loop copies every byte once, converted as a whole, although it is converted piece by piece. It also shows
  that this \<^verbatim>\<open>writen\<close> does not notice an error of \<^verbatim>\<open>write\<close>.
\<close>

subsection \<open>Model\<close>

definition NL :: byte where
  "NL = 10"

definition CR :: byte where
  "CR = 13"

text \<open>The loop of \<^verbatim>\<open>crlf_add\<close>; the result is what was written to \<^verbatim>\<open>dst\<close>, and \<^const>\<open>None\<close> the end of the program in \<^verbatim>\<open>err_quit\<close>.\<close>

fun crlf_add_loop :: "int \<Rightarrow> int \<Rightarrow> byte list \<Rightarrow> byte list option" where
  "crlf_add_loop dstsize lenout [] = Some []"
| "crlf_add_loop dstsize lenout (c # src) =
     (if c = NL then
        if lenout + 1 \<ge> dstsize then None else map_option (\<lambda>out. CR # c # out) (crlf_add_loop dstsize (lenout + 1) src)
      else map_option (\<lambda>out. c # out) (crlf_add_loop dstsize lenout src))"

definition crlf_add :: "int \<Rightarrow> byte list \<Rightarrow> byte list option" where
  "crlf_add dstsize src = (if int (length src) > dstsize then None else crlf_add_loop dstsize (int (length src)) src)"

fun crlf_strip_loop :: "int \<Rightarrow> int \<Rightarrow> byte list \<Rightarrow> byte list option" where
  "crlf_strip_loop dstsize lenout [] = Some []"
| "crlf_strip_loop dstsize lenout (c # src) =
     (if c \<noteq> CR then
        if lenout + 1 \<ge> dstsize then None else map_option (\<lambda>out. c # out) (crlf_strip_loop dstsize (lenout + 1) src)
      else crlf_strip_loop dstsize lenout src)"

definition crlf_strip :: "int \<Rightarrow> byte list \<Rightarrow> byte list option" where
  "crlf_strip dstsize src = crlf_strip_loop dstsize 0 src"

text \<open>
  \<^verbatim>\<open>dowrite\<close>. The size of \<^verbatim>\<open>iov\<close> is a parameter, since \<^verbatim>\<open>UIO_MAXIOV\<close> may come from the system; \<open>k\<close> entries are left to fill. \<^verbatim>\<open>writev\<close> writes the bytes of the entries in
  their order. The option is \<^const>\<open>None\<close> at \<^verbatim>\<open>err_quit\<close>.
\<close>

definition chunksize :: "nat \<Rightarrow> nat \<Rightarrow> nat" where
  "chunksize maxiov nbytes = (let c = nbytes div maxiov in if c = 0 then 1 else if nbytes mod maxiov \<noteq> 0 then c + 1 else c)"

fun iov_fill :: "nat \<Rightarrow> nat \<Rightarrow> byte list \<Rightarrow> byte list list option" where
  "iov_fill 0 chunk bs = None"
| "iov_fill (Suc k) chunk bs =
     (let n = (if length bs \<ge> chunk then chunk else length bs) in
      if length bs - n = 0 then Some [take n bs] else map_option (\<lambda>iov. take n bs # iov) (iov_fill k chunk (drop n bs)))"

fun write_iov :: "int \<Rightarrow> byte list list \<Rightarrow> dsc \<Rightarrow> int \<times> dsc" where
  "write_iov ntotal [] d = (ntotal, d)"
| "write_iov ntotal (b # iov) d = (case sys_write b d of
     (Inl e, d') \<Rightarrow> (- 1, d')
   | (Inr nwritten, d') \<Rightarrow> if nwritten \<noteq> length b then (- 1, d') else write_iov (ntotal + int nwritten) iov d')"

definition write_result :: "nat res \<times> dsc \<Rightarrow> int \<times> dsc" where
  "write_result r = (case r of (Inl e, d) \<Rightarrow> (- 1, d) | (Inr n, d) \<Rightarrow> (int n, d))"

definition dowrite :: "nat \<Rightarrow> bool \<Rightarrow> bool \<Rightarrow> byte list \<Rightarrow> dsc \<Rightarrow> (int \<times> dsc) option" where
  "dowrite maxiov chunkwrite usewritev bs d =
     (if \<not> chunkwrite \<and> \<not> usewritev then Some (write_result (sys_write bs d))
      else case iov_fill maxiov (chunksize maxiov (length bs)) bs of None \<Rightarrow> None
        | Some iov \<Rightarrow> Some (if usewritev then write_result (sys_write (concat iov) d) else write_iov 0 iov d))"

text \<open>
  \<^verbatim>\<open>writen\<close>: \<^verbatim>\<open>nwritten\<close> is unsigned, so that an error of \<^verbatim>\<open>write\<close> is the largest number and not below zero; \<^verbatim>\<open>nleft\<close> grows by one and \<^verbatim>\<open>ptr\<close> goes back by
  one byte. \<open>off\<close> is how far \<^verbatim>\<open>ptr\<close> is from the start of the buffer; in front of it, the value is \<^const>\<open>None\<close>.
\<close>

function sock_writen_loop :: "nat \<Rightarrow> byte list \<Rightarrow> dsc \<Rightarrow> (int \<times> dsc) option" where
  "sock_writen_loop off bs d =
     (if off \<ge> length bs then Some (int (length bs), d)
      else case sys_write (drop off bs) d of
        (Inl e, d') \<Rightarrow> if off = 0 then None else sock_writen_loop (off - 1) bs d'
      | (Inr nwritten, d') \<Rightarrow> if nwritten = 0 then Some (0, d') else sock_writen_loop (off + nwritten) bs d')"
  by pat_completeness auto
termination sock_writen_loop
  by (relation "inv_image (less_than <*lex*> less_than) (\<lambda>(off, bs, d). (length (d_plan d), length bs - off))")
     (auto dest: sys_write_plan [OF sym] sys_write_plan_le [OF sym] simp: le_less)

declare sock_writen_loop.simps [simp del]

definition sock_writen :: "byte list \<Rightarrow> dsc \<Rightarrow> (int \<times> dsc) option" where
  "sock_writen bs d = sock_writen_loop 0 bs d"

text \<open>The options that \<^verbatim>\<open>loop_tcp\<close> looks at, and its state: standard input, the socket and standard output.\<close>

record sock_opts =
  o_maxiov :: nat
  o_chunkwrite :: bool
  o_usewritev :: bool
  o_crlf :: bool
  o_halfclose :: bool
  o_msgpeek :: bool
  o_readlen :: nat
  o_writelen :: nat

record sock_state =
  s_stdin :: dsc
  s_sock :: dsc
  s_stdout :: dsc
  s_stdineof :: bool
  s_shutdown :: bool

text \<open>A pass goes on, leaves the loop, or ends the program with an error.\<close>

datatype sock_flow = SGo sock_state | SBreak sock_state | SFail

definition sock_recv :: "bool \<Rightarrow> nat \<Rightarrow> dsc \<Rightarrow> byte list res \<times> dsc" where
  "sock_recv peek cap d = (case sys_read cap d of (r, d') \<Rightarrow> (r, if peek then d'\<lparr>d_in := d_in d\<rparr> else d'))"

definition sock_send :: "sock_opts \<Rightarrow> byte list \<Rightarrow> sock_state \<Rightarrow> sock_flow" where
  "sock_send cf bs s = (case (if o_crlf cf then crlf_add (int (o_writelen cf)) bs else Some bs) of None \<Rightarrow> SFail
     | Some w \<Rightarrow> (case dowrite (o_maxiov cf) (o_chunkwrite cf) (o_usewritev cf) w (s_sock s) of None \<Rightarrow> SFail
         | Some (n, d) \<Rightarrow> if n \<noteq> int (length w) then SFail else SGo (s\<lparr>s_sock := d\<rparr>)))"

text \<open>\<open>SBreak\<close> is also the \<^verbatim>\<open>continue\<close> after a half close: the flag says which of the two.\<close>

definition sock_stdin :: "sock_opts \<Rightarrow> sock_state \<Rightarrow> bool \<times> sock_flow" where
  "sock_stdin cf s = (case sys_read (o_readlen cf) (s_stdin s) of
     (Inl e, d) \<Rightarrow> (False, SFail)
   | (Inr bs, d) \<Rightarrow>
       if bs = [] then
         if o_halfclose cf then (True, SGo (s\<lparr>s_stdin := d, s_shutdown := True, s_stdineof := True\<rparr>)) else (False, SBreak (s\<lparr>s_stdin := d\<rparr>))
       else (False, sock_send cf bs (s\<lparr>s_stdin := d\<rparr>)))"

text \<open>From \<^verbatim>\<open>oncemore\<close> on; with \<^verbatim>\<open>MSG_PEEK\<close> the data is received a second time.\<close>

definition sock_show :: "sock_opts \<Rightarrow> bool \<Rightarrow> sock_state \<Rightarrow> sock_flow" where
  "sock_show cf peek s = (case sock_recv peek (o_readlen cf) (s_sock s) of
     (Inl e, d) \<Rightarrow> SFail
   | (Inr bs, d) \<Rightarrow>
       if bs = [] then SBreak (s\<lparr>s_sock := d\<rparr>)
       else (case (if o_crlf cf then crlf_strip (int (o_writelen cf)) bs else Some bs) of None \<Rightarrow> SFail
         | Some w \<Rightarrow> (case sock_writen w (s_stdout s) of None \<Rightarrow> SFail
             | Some (n, out) \<Rightarrow> if n \<noteq> int (length w) then SFail else SGo (s\<lparr>s_sock := d, s_stdout := out\<rparr>))))"

definition sock_input :: "sock_opts \<Rightarrow> sock_state \<Rightarrow> sock_flow" where
  "sock_input cf s = (if o_msgpeek cf then (case sock_show cf True s of SGo s' \<Rightarrow> sock_show cf False s' | f \<Rightarrow> f) else sock_show cf False s)"

text \<open>A pass, for what \<^verbatim>\<open>select\<close> reports for standard input and for the socket; standard input is only asked about before its end.\<close>

definition loop_tcp_pass :: "sock_opts \<Rightarrow> bool \<times> bool \<Rightarrow> sock_state \<Rightarrow> sock_flow" where
  "loop_tcp_pass cf ready s = (case (if fst ready \<and> \<not> s_stdineof s then sock_stdin cf s else (False, SGo s)) of
     (True, f) \<Rightarrow> f
   | (False, SGo s') \<Rightarrow> if snd ready then sock_input cf s' else SGo s'
   | (False, f) \<Rightarrow> f)"

fun loop_tcp :: "sock_opts \<Rightarrow> (bool \<times> bool) list \<Rightarrow> sock_state \<Rightarrow> sock_flow" where
  "loop_tcp cf [] s = SGo s"
| "loop_tcp cf (r # rs) s = (case loop_tcp_pass cf r s of SGo s' \<Rightarrow> loop_tcp cf rs s' | f \<Rightarrow> f)"

subsection \<open>Conversion of line ends\<close>

definition expand :: "byte list \<Rightarrow> byte list" where
  "expand bs = concat (map (\<lambda>c. if c = NL then [CR, NL] else [c]) bs)"

definition strip :: "byte list \<Rightarrow> byte list" where
  "strip bs = filter (\<lambda>c. c \<noteq> CR) bs"

lemma expand_append [simp]: "expand (xs @ ys) = expand xs @ expand ys"
  by (simp add: expand_def)

lemma strip_append [simp]: "strip (xs @ ys) = strip xs @ strip ys"
  by (simp add: strip_def)

lemma strip_expand: "CR \<notin> set bs \<Longrightarrow> strip (expand bs) = bs"
  by (induction bs) (auto simp: strip_def expand_def NL_def CR_def)

lemma length_expand: "length (expand bs) = length bs + count_list bs NL"
  by (induction bs) (auto simp: expand_def)

lemma crlf_add_loop_eq:
  "crlf_add_loop dstsize lenout src = (if NL \<in> set src \<and> lenout + int (count_list src NL) \<ge> dstsize then None else Some (expand src))"
proof (induction src arbitrary: lenout)
  case (Cons c src)
  have "NL \<notin> set src \<Longrightarrow> count_list src NL = 0"
    by (simp add: count_notin)
  then show ?case
    using Cons.IH [of lenout] Cons.IH [of "lenout + 1"] by (auto simp: expand_def)
qed (simp add: expand_def)

text \<open>The conversion refuses a destination that it would fill exactly, when there is a newline.\<close>

lemma crlf_add_eq:
  "crlf_add dstsize src =
    (if int (length src) > dstsize \<or> NL \<in> set src \<and> int (length (expand src)) \<ge> dstsize then None else Some (expand src))"
  by (simp add: crlf_add_def crlf_add_loop_eq length_expand)

lemma crlf_strip_eq:
  "crlf_strip dstsize src = (if strip src \<noteq> [] \<and> int (length (strip src)) \<ge> dstsize then None else Some (strip src))"
proof -
  have "crlf_strip_loop dstsize n src = (if strip src \<noteq> [] \<and> n + int (length (strip src)) \<ge> dstsize then None else Some (strip src))" for n
    by (induction src arbitrary: n) (auto simp: strip_def)
  then show ?thesis
    by (simp add: crlf_strip_def)
qed

subsection \<open>Writing\<close>

lemma chunksize_covers: "0 < maxiov \<Longrightarrow> 0 < chunksize maxiov n \<and> n \<le> maxiov * chunksize maxiov n"
proof -
  assume m: "0 < maxiov"
  have "maxiov * (n div maxiov) + n mod maxiov = n" "n mod maxiov < maxiov"
    using m by simp_all
  then have "n \<le> maxiov * (n div maxiov) + maxiov" "n mod maxiov = 0 \<Longrightarrow> n = maxiov * (n div maxiov)"
    by linarith+
  then show ?thesis
    by (auto simp: chunksize_def Let_def distrib_left)
qed

lemma iov_fill_covers: "0 < chunk \<Longrightarrow> 0 < k \<Longrightarrow> length bs \<le> k * chunk \<Longrightarrow> \<exists>iov. iov_fill k chunk bs = Some iov \<and> concat iov = bs \<and> length iov \<le> k"
proof (induction k chunk bs rule: iov_fill.induct)
  case (2 k chunk bs)
  let ?n = "if length bs \<ge> chunk then chunk else length bs"
  show ?case
  proof (cases "length bs - ?n = 0")
    case True
    then show ?thesis
      by (auto simp: Let_def)
  next
    case False
    then have "chunk < length bs"
      by (auto split: if_splits)
    moreover from this have "0 < k" "length (drop chunk bs) \<le> k * chunk"
      using "2.prems"(3) by (auto intro: Suc_leI gr0I)
    ultimately obtain iov where "iov_fill k chunk (drop chunk bs) = Some iov" "concat iov = drop chunk bs" "length iov \<le> k"
      using "2.IH" [of chunk] "2.prems"(1) by auto
    then show ?thesis
      using \<open>chunk < length bs\<close> by (auto simp: Let_def)
  qed
qed simp

lemma sys_write_out:
  "sys_write bs d = (r, d') \<Longrightarrow> d_in d' = d_in d \<and> (\<exists>k. d_out d' = d_out d @ take k bs \<and> (\<forall>n. r = Inr n \<longrightarrow> n = length (take k bs)))"
  by (auto simp: sys_write_def split: list.splits sum.splits intro: exI [of _ 0] exI [of _ "length bs"])

lemma write_iov_out:
  "write_iov t iov d = (r, d') \<Longrightarrow> d_in d' = d_in d \<and>
    (\<exists>k. d_out d' = d_out d @ take k (concat iov) \<and> (r \<noteq> - 1 \<longrightarrow> r = t + int (length (concat iov)) \<and> length (concat iov) \<le> k))"
proof (induction iov arbitrary: t d)
  case (Cons b iov)
  obtain q x where w: "sys_write b d = (q, x)"
    by fastforce
  obtain k where x: "d_in x = d_in d" "d_out x = d_out d @ take k b" "\<And>n. q = Inr n \<Longrightarrow> n = length (take k b)"
    using sys_write_out [OF w] by auto
  show ?case
  proof (cases "q = Inr (length b)")
    case True
    then have "length b \<le> k"
      using x(3) by auto
    have "write_iov (t + int (length b)) iov x = (r, d')"
      using Cons.prems w True by simp
    from Cons.IH [OF this] obtain j where j: "d_in d' = d_in x" "d_out d' = d_out x @ take j (concat iov)"
      "r \<noteq> - 1 \<longrightarrow> r = t + int (length b) + int (length (concat iov)) \<and> length (concat iov) \<le> j"
      by auto
    then show ?thesis
      using x \<open>length b \<le> k\<close> by (auto intro!: exI [of _ "length b + j"])
  next
    case False
    then have "r = - 1" "d' = x"
      using Cons.prems w by (auto split: sum.splits if_splits)
    then show ?thesis
      using x by (auto intro!: exI [of _ "min k (length b)"] simp: min_def)
  qed
qed auto

text \<open>\<^verbatim>\<open>dowrite\<close> never ends the program, and a result that is the number of bytes means that they were all written.\<close>

lemma dowrite_out:
  assumes "0 < maxiov"
  shows "\<exists>r d'. dowrite maxiov cw uv bs d = Some (r, d') \<and> d_in d' = d_in d \<and>
    (\<exists>k. d_out d' = d_out d @ take k bs \<and> (r = int (length bs) \<longrightarrow> length bs \<le> k))"
proof -
  obtain iov where iov: "iov_fill maxiov (chunksize maxiov (length bs)) bs = Some iov" "concat iov = bs"
    using iov_fill_covers [of "chunksize maxiov (length bs)" maxiov bs] chunksize_covers [OF assms, of "length bs"] assms by auto
  obtain q x where w: "sys_write bs d = (q, x)"
    by fastforce
  obtain k where x: "d_in x = d_in d" "d_out x = d_out d @ take k bs" "\<And>n. q = Inr n \<Longrightarrow> n = length (take k bs)"
    using sys_write_out [OF w] by auto
  have whole: "\<exists>r. write_result (sys_write bs d) = (r, x) \<and> (r = int (length bs) \<longrightarrow> length bs \<le> k)"
    using x(3) by (cases q) (auto simp: write_result_def w)
  obtain t y where y: "write_iov 0 iov d = (t, y)"
    by fastforce
  show ?thesis
  proof (cases "cw \<and> \<not> uv")
    case True
    then have "dowrite maxiov cw uv bs d = Some (t, y)"
      using iov y by (simp add: dowrite_def)
    moreover have "t = int (length bs) \<Longrightarrow> t \<noteq> - 1"
      by simp
    ultimately show ?thesis
      using write_iov_out [OF y] iov(2) by auto
  next
    case False
    then have "dowrite maxiov cw uv bs d = Some (write_result (sys_write bs d))"
      using iov by (auto simp: dowrite_def)
    then show ?thesis
      using whole x(1,2) by auto
  qed
qed

definition no_error :: "dsc \<Rightarrow> bool" where
  "no_error d \<longleftrightarrow> (\<forall>p \<in> set (d_plan d). \<exists>k. p = Inr k)"

lemma no_error_write:
  assumes "no_error d" "sys_write bs d = (r, d')"
  shows "no_error d' \<and> d_in d' = d_in d \<and> (\<exists>n. r = Inr n \<and> d_out d' = d_out d @ take n bs)"
  using assms by (auto simp: no_error_def sys_write_def min_def split: list.splits sum.splits)

lemma sock_writen_loop_out:
  "no_error d \<Longrightarrow> sock_writen_loop off bs d = Some (n, d') \<Longrightarrow> off \<le> length bs \<Longrightarrow> d_out d = out @ take off bs \<Longrightarrow> n = int (length bs) \<Longrightarrow>
    d_out d' = out @ bs \<and> no_error d'"
proof (induction off bs d rule: sock_writen_loop.induct)
  case (1 off bs d)
  show ?case
  proof (cases "off \<ge> length bs")
    case True
    then show ?thesis
      using "1.prems" by (simp add: sock_writen_loop.simps [of off bs d])
  next
    case False
    obtain q x where w: "sys_write (drop off bs) d = (q, x)"
      by fastforce
    obtain k where k: "q = Inr k" "no_error x" "d_out x = d_out d @ take k (drop off bs)"
      using no_error_write [OF "1.prems"(1) w] by auto
    have kl: "k \<le> length bs - off"
      using sys_write_out [OF w] k(1) by auto
    have "k \<noteq> 0"
      using "1.prems"(2,5) False w k(1) by (auto simp: sock_writen_loop.simps [of off bs d] split: if_splits)
    then have "sock_writen_loop (off + k) bs x = Some (n, d')"
      using "1.prems"(2) False w k(1) by (simp add: sock_writen_loop.simps [of off bs d])
    then show ?thesis
      using "1.IH"(2) [OF False w [symmetric] k(1) \<open>k \<noteq> 0\<close> k(2)] k(3) kl "1.prems"(4,5) False by (simp add: take_add)
  qed
qed

lemma sock_writen_out: "no_error d \<Longrightarrow> sock_writen bs d = Some (int (length bs), d') \<Longrightarrow> d_out d' = d_out d @ bs \<and> no_error d'"
  unfolding sock_writen_def by (rule sock_writen_loop_out [of d 0 bs]) auto

subsection \<open>The loop\<close>

definition conv_out :: "sock_opts \<Rightarrow> byte list \<Rightarrow> byte list" where
  "conv_out cf bs = (if o_crlf cf then expand bs else bs)"

definition conv_in :: "sock_opts \<Rightarrow> byte list \<Rightarrow> byte list" where
  "conv_in cf bs = (if o_crlf cf then strip bs else bs)"

lemma conv_append [simp]: "conv_out cf (xs @ ys) = conv_out cf xs @ conv_out cf ys" "conv_in cf (xs @ ys) = conv_in cf xs @ conv_in cf ys"
  "conv_out cf [] = []" "conv_in cf [] = []"
  by (simp_all add: conv_out_def conv_in_def) (simp_all add: expand_def strip_def)

text \<open>What was read from either side is what was written to the other, converted.\<close>

definition copied :: "sock_opts \<Rightarrow> sock_state \<Rightarrow> sock_state \<Rightarrow> bool" where
  "copied cf s0 s \<longleftrightarrow> (\<exists>inp rcv. d_in (s_stdin s0) = inp @ d_in (s_stdin s) \<and> d_in (s_sock s0) = rcv @ d_in (s_sock s) \<and>
     d_out (s_sock s) = d_out (s_sock s0) @ conv_out cf inp \<and> d_out (s_stdout s) = d_out (s_stdout s0) @ conv_in cf rcv)"

lemma copied_refl: "copied cf s s"
  by (simp add: copied_def)

lemma copied_trans:
  assumes "copied cf r s" "copied cf s t"
  shows "copied cf r t"
proof -
  obtain i1 r1 where "d_in (s_stdin r) = i1 @ d_in (s_stdin s)" "d_in (s_sock r) = r1 @ d_in (s_sock s)"
     "d_out (s_sock s) = d_out (s_sock r) @ conv_out cf i1" "d_out (s_stdout s) = d_out (s_stdout r) @ conv_in cf r1"
    using assms(1) by (auto simp: copied_def)
  moreover obtain i2 r2 where "d_in (s_stdin s) = i2 @ d_in (s_stdin t)" "d_in (s_sock s) = r2 @ d_in (s_sock t)"
     "d_out (s_sock t) = d_out (s_sock s) @ conv_out cf i2" "d_out (s_stdout t) = d_out (s_stdout s) @ conv_in cf r2"
    using assms(2) by (auto simp: copied_def)
  ultimately show ?thesis
    unfolding copied_def by (intro exI [of _ "i1 @ i2"] exI [of _ "r1 @ r2"]) simp
qed

lemma sys_read_in:
  "sys_read cap d = (Inr bs, d') \<Longrightarrow> d_in d = bs @ d_in d' \<and> d_out d' = d_out d \<and> (0 < cap \<and> bs = [] \<longrightarrow> d_in d = [])"
  by (auto simp: sys_read_def Let_def split: list.splits sum.splits)

lemma sock_send_copies:
  assumes "0 < o_maxiov cf" "sock_send cf bs s = f"
  shows "f = SFail \<or> (\<exists>d. f = SGo (s\<lparr>s_sock := d\<rparr>) \<and> d_in d = d_in (s_sock s) \<and> d_out d = d_out (s_sock s) @ conv_out cf bs)"
proof (cases "if o_crlf cf then crlf_add (int (o_writelen cf)) bs else Some bs")
  case None
  then show ?thesis
    using assms(2) by (simp add: sock_send_def)
next
  case (Some w)
  then have w: "w = conv_out cf bs"
    by (auto simp: conv_out_def crlf_add_eq split: if_splits)
  obtain r d k where "dowrite (o_maxiov cf) (o_chunkwrite cf) (o_usewritev cf) w (s_sock s) = Some (r, d)" "d_in d = d_in (s_sock s)"
    "d_out d = d_out (s_sock s) @ take k w" "r = int (length w) \<longrightarrow> length w \<le> k"
    using dowrite_out [OF assms(1)] by blast
  then show ?thesis
    using assms(2) Some by (auto simp: sock_send_def w)
qed

lemma sock_stdin_copies:
  assumes "0 < o_maxiov cf" "0 < o_readlen cf" "sock_stdin cf s = (b, f)"
  shows "(\<forall>s'. f = SGo s' \<longrightarrow> copied cf s s' \<and> s_stdout s' = s_stdout s) \<and>
    (\<forall>s'. f = SBreak s' \<longrightarrow> copied cf s s' \<and> s_stdout s' = s_stdout s \<and> d_in (s_stdin s') = [] \<and> \<not> o_halfclose cf)"
proof (cases "sys_read (o_readlen cf) (s_stdin s)")
  case (Pair r d)
  show ?thesis
  proof (cases r)
    case (Inr bs)
    note rd = sys_read_in [OF Pair [unfolded Inr]]
    show ?thesis
    proof (cases "bs = []")
      case True
      then show ?thesis
        using assms(2,3) Pair Inr rd by (auto simp: sock_stdin_def copied_def split: if_splits)
    next
      case False
      then have "sock_send cf bs (s\<lparr>s_stdin := d\<rparr>) = f"
        using assms(3) Pair Inr by (simp add: sock_stdin_def)
      then show ?thesis
        using sock_send_copies [OF assms(1)] rd by (fastforce simp: copied_def)
    qed
  qed (use assms(3) Pair in \<open>simp add: sock_stdin_def\<close>)
qed

lemma sock_show_copies:
  assumes "0 < o_readlen cf" "no_error (s_stdout s)" "sock_show cf False s = f"
  shows "(\<forall>s'. f = SGo s' \<longrightarrow> copied cf s s' \<and> no_error (s_stdout s')) \<and>
    (\<forall>s'. f = SBreak s' \<longrightarrow> copied cf s s' \<and> no_error (s_stdout s') \<and> d_in (s_sock s') = [])"
proof (cases "sys_read (o_readlen cf) (s_sock s)")
  case (Pair r d)
  show ?thesis
  proof (cases r)
    case (Inr bs)
    note rd = sys_read_in [OF Pair [unfolded Inr]]
    have rc: "sock_recv False (o_readlen cf) (s_sock s) = (Inr bs, d)"
      using Pair Inr by (simp add: sock_recv_def)
    show ?thesis
    proof (cases "bs = []")
      case True
      then show ?thesis
        using assms rc rd by (auto simp: sock_show_def copied_def)
    next
      case False
      show ?thesis
      proof (cases "if o_crlf cf then crlf_strip (int (o_writelen cf)) bs else Some bs")
        case None
        then show ?thesis
          using assms(3) rc False by (auto simp: sock_show_def)
      next
        case (Some w)
        then have w: "w = conv_in cf bs"
          by (auto simp: conv_in_def crlf_strip_eq split: if_splits)
        have "f = SFail \<or> (\<exists>out. sock_writen w (s_stdout s) = Some (int (length w), out) \<and> f = SGo (s\<lparr>s_sock := d, s_stdout := out\<rparr>))"
          using assms(3) rc False Some by (auto simp: sock_show_def split: option.splits if_splits)
        then show ?thesis
          using sock_writen_out [OF assms(2)] rd w by (fastforce simp: copied_def)
      qed
    qed
  qed (use assms(3) Pair in \<open>simp add: sock_show_def sock_recv_def\<close>)
qed

abbreviation loop_end :: "sock_opts \<Rightarrow> sock_state \<Rightarrow> bool" where
  "loop_end cf s \<equiv> d_in (s_sock s) = [] \<or> d_in (s_stdin s) = [] \<and> \<not> o_halfclose cf"

lemma loop_tcp_pass_copies:
  assumes "0 < o_maxiov cf" "0 < o_readlen cf" "\<not> o_msgpeek cf" "no_error (s_stdout s)" "loop_tcp_pass cf r s = f"
  shows "(\<forall>s'. f = SGo s' \<longrightarrow> copied cf s s' \<and> no_error (s_stdout s')) \<and>
    (\<forall>s'. f = SBreak s' \<longrightarrow> copied cf s s' \<and> no_error (s_stdout s') \<and> loop_end cf s')"
proof -
  obtain b g where g: "(if fst r \<and> \<not> s_stdineof s then sock_stdin cf s else (False, SGo s)) = (b, g)"
    by fastforce
  have G: "(\<forall>s'. g = SGo s' \<longrightarrow> copied cf s s' \<and> no_error (s_stdout s')) \<and>
      (\<forall>s'. g = SBreak s' \<longrightarrow> copied cf s s' \<and> no_error (s_stdout s') \<and> loop_end cf s')"
    using sock_stdin_copies [OF assms(1,2), of s b g] g assms(4) by (auto simp: copied_refl split: if_splits)
  show ?thesis
  proof (cases "\<not> b \<and> snd r \<and> (\<exists>s'. g = SGo s')")
    case True
    then obtain s' where s': "g = SGo s'" "sock_show cf False s' = f"
      using assms(3,5) g by (auto simp: loop_tcp_pass_def sock_input_def)
    then show ?thesis
      using sock_show_copies [OF assms(2) _ s'(2)] G copied_trans [of cf s s'] by blast
  next
    case False
    then have "f = g"
      using assms(5) g by (cases b; cases g) (auto simp: loop_tcp_pass_def)
    then show ?thesis
      using G by simp
  qed
qed

lemma loop_tcp_copied:
  assumes "0 < o_maxiov cf" "0 < o_readlen cf" "\<not> o_msgpeek cf" "no_error (s_stdout s)"
  shows "(\<forall>s'. loop_tcp cf rs s = SGo s' \<longrightarrow> copied cf s s') \<and> (\<forall>s'. loop_tcp cf rs s = SBreak s' \<longrightarrow> copied cf s s' \<and> loop_end cf s')"
  using assms(4)
proof (induction rs arbitrary: s)
  case (Cons r rs)
  note P = loop_tcp_pass_copies [OF assms(1-3) Cons.prems, of r]
  show ?case
  proof (cases "loop_tcp_pass cf r s")
    case (SGo t)
    then show ?thesis
      using P Cons.IH [of t] copied_trans [of cf s t] by auto
  qed (use P in auto)
qed (simp add: copied_refl)


definition echo_opts :: sock_opts where
  "echo_opts = \<lparr>o_maxiov = 16, o_chunkwrite = True, o_usewritev = False, o_crlf = True, o_halfclose = True, o_msgpeek = False, o_readlen = 4, o_writelen = 8\<rparr>"

definition echo_start :: sock_state where
  "echo_start = \<lparr>s_stdin = \<lparr>d_in = [65, 10], d_out = [], d_plan = []\<rparr>, s_sock = \<lparr>d_in = [66, 13, 10], d_out = [], d_plan = []\<rparr>,
     s_stdout = \<lparr>d_in = [], d_out = [], d_plan = [Inr 1]\<rparr>, s_stdineof = False, s_shutdown = False\<rparr>"

definition echo_end :: sock_state where
  "echo_end = \<lparr>s_stdin = \<lparr>d_in = [], d_out = [], d_plan = []\<rparr>, s_sock = \<lparr>d_in = [], d_out = [65, 13, 10], d_plan = []\<rparr>,
     s_stdout = \<lparr>d_in = [], d_out = [66, 10], d_plan = []\<rparr>, s_stdineof = True, s_shutdown = True\<rparr>"

lemma echo_loop: "loop_tcp echo_opts [(True, True), (True, False), (False, True)] echo_start = SBreak echo_end"
  by code_simp


text \<open>
  \<^verbatim>\<open>writen\<close> goes back by one byte when \<^verbatim>\<open>write\<close> fails: after one byte of two and an interrupted call it has written three bytes, and reports success; when the first call
  fails, it reads in front of the buffer.
\<close>

lemma sock_writen_repeats:
  "sock_writen [1, 2] \<lparr>d_in = [], d_out = [], d_plan = [Inr 1, Inl EINTR]\<rparr> = Some (2, \<lparr>d_in = [], d_out = [1, 1, 2], d_plan = []\<rparr>)"
  "sock_writen [1, 2] \<lparr>d_in = [], d_out = [], d_plan = [Inl EINTR]\<rparr> = None"
  by code_simp+

text \<open>With the default sizes, a full buffer ends the program in either conversion.\<close>

lemma crlf_default_sizes:
  "crlf_add 1024 (replicate 1023 65 @ [NL]) = None" "crlf_strip 1024 (replicate 1024 65) = None"
  by (simp_all add: crlf_add_eq crlf_strip_eq length_expand strip_def CR_def)

end
