(* ===== verification/Base64.thy ===== *)
theory Base64
  imports Text
begin

unbundle bit_operations_syntax

text \<open>
  The encoder of the mail program, \<^verbatim>\<open>base64Encode\<close> in \<^verbatim>\<open>src/mail/linux_ver/base64.cpp\<close>, with its index arithmetic on 32-bit unsigned numbers and a result buffer that
  is written by index. The theory shows that up to the length where \<^verbatim>\<open>numResultBytes\<close> wraps around no write is outside the buffer, and that the
  result, with its line end, is a text from which a decoder gets the input back.
\<close>

subsection \<open>Model\<close>

definition base64Char :: string where
  "base64Char = ''ABCDEFGHIJKLMNOPQRSTUVWXYZabcdefghijklmnopqrstuvwxyz0123456789+/''"

text \<open>A character of the table for the value of an \<^verbatim>\<open>int\<close> expression on bytes.\<close>

definition b64 :: "32 word \<Rightarrow> char" where
  "b64 v = base64Char ! unat (v AND 0x3F)"

definition b64_0 :: "byte \<Rightarrow> char" where
  "b64_0 x = b64 (drop_bit 2 (ucast x))"

definition b64_1 :: "byte \<Rightarrow> byte \<Rightarrow> char" where
  "b64_1 x y = b64 (push_bit 4 (ucast x AND 0x3) OR drop_bit 4 (ucast y))"

definition b64_2 :: "byte \<Rightarrow> byte \<Rightarrow> char" where
  "b64_2 y z = b64 (push_bit 2 (ucast y) OR drop_bit 6 (ucast z))"

definition b64_3 :: "byte \<Rightarrow> char" where
  "b64_3 z = b64 (ucast z)"

text \<open>A write to the buffer; outside it there is no result.\<close>

definition put :: "32 word \<Rightarrow> char \<Rightarrow> string \<Rightarrow> string option" where
  "put i c buf = (if unat i < length buf then Some (buf[unat i := c]) else None)"

fun puts :: "(32 word \<times> char) list \<Rightarrow> string \<Rightarrow> string option" where
  "puts [] buf = Some buf"
| "puts ((i, c) # ws) buf = (case put i c buf of None \<Rightarrow> None | Some buf \<Rightarrow> puts ws buf)"

text \<open>The loop, with \<open>k\<close> groups left and \<open>i\<close> the index of the next one.\<close>

fun b64_groups :: "nat \<Rightarrow> 32 word \<Rightarrow> byte list \<Rightarrow> string \<Rightarrow> string option" where
  "b64_groups 0 i orig buf = Some buf"
| "b64_groups (Suc k) i orig buf =
     (let x = orig ! unat (3 * i); y = orig ! unat (3 * i + 1); z = orig ! unat (3 * i + 2) in
      case puts [(4 * i + 0, b64_0 x), (4 * i + 1, b64_1 x y), (4 * i + 2, b64_2 y z), (4 * i + 3, b64_3 z)] buf of
        None \<Rightarrow> None | Some buf \<Rightarrow> b64_groups k (i + 1) orig buf)"

definition b64_padding :: "bool \<Rightarrow> bool \<Rightarrow> 32 word \<Rightarrow> byte list \<Rightarrow> string \<Rightarrow> string option" where
  "b64_padding havePadding havePadding2 i orig buf =
     (let x = orig ! unat (3 * i); y = orig ! unat (3 * i + 1) in
      if \<not> havePadding then Some buf
      else if havePadding2
      then puts [(4 * i + 0, b64_0 x), (4 * i + 1, b64_1 x y), (4 * i + 2, b64 (push_bit 2 (ucast y))), (4 * i + 3, CHR ''='')] buf
      else puts [(4 * i + 0, b64_0 x), (4 * i + 1, b64 (push_bit 4 (ucast x AND 0x3))), (4 * i + 2, CHR ''=''), (4 * i + 3, CHR ''='')] buf)"

text \<open>
  The input is the pointer with the bytes behind it; for a null pointer the function makes a string of a null pointer, which has no result. The length is that of the bytes.
\<close>

definition base64Encode :: "byte list option \<Rightarrow> 32 word \<Rightarrow> string option" where
  "base64Encode orig origLength = (case orig of None \<Rightarrow> None
     | Some orig \<Rightarrow>
         let numOrig24BitValues = origLength div 3;
             havePadding = (origLength > numOrig24BitValues * 3);
             havePadding2 = (origLength = numOrig24BitValues * 3 + 2);
             numResultBytes = 4 * (numOrig24BitValues + (if havePadding then 1 else 0));
             buf = replicate (unat (numResultBytes + 2)) (CHR 0x00) in
         case b64_groups (unat numOrig24BitValues) 0 orig buf of None \<Rightarrow> None
         | Some buf \<Rightarrow> (case b64_padding havePadding havePadding2 numOrig24BitValues orig buf of None \<Rightarrow> None
             | Some buf \<Rightarrow> puts [(numResultBytes, CHR 0x0D), (numResultBytes + 1, CHR 0x0A)] buf))"

text \<open>
  The loop of \<^verbatim>\<open>SendAttachment\<close>, with the size of its buffer: the file is read in pieces, each is encoded for itself and sent, and the loop ends when a piece was short.
\<close>

definition FILE_BUF_LEN :: nat where
  "FILE_BUF_LEN = 700 * 1000"

function attachment :: "byte list \<Rightarrow> string option" where
  "attachment data =
     (let piece = take FILE_BUF_LEN data in
      case base64Encode (Some piece) (of_nat (length piece)) of None \<Rightarrow> None
      | Some text \<Rightarrow> if length piece < FILE_BUF_LEN then Some text else map_option (\<lambda>rest. text @ rest) (attachment (drop FILE_BUF_LEN data)))"
  by pat_completeness auto
termination attachment
  by (relation "measure length") (auto simp: FILE_BUF_LEN_def)

declare attachment.simps [simp del]

subsection \<open>The text of the result\<close>

fun enc :: "byte list \<Rightarrow> string" where
  "enc [] = []"
| "enc [x] = [b64_0 x, b64_1 x 0, CHR ''='', CHR ''='']"
| "enc [x, y] = [b64_0 x, b64_1 x y, b64_2 y 0, CHR ''='']"
| "enc (x # y # z # bs) = b64_0 x # b64_1 x y # b64_2 y z # b64_3 z # enc bs"

text \<open>A decoder: four characters for three bytes, or for two or one at the end.\<close>

definition decode_char :: "char \<Rightarrow> byte option" where
  "decode_char c = map_option of_nat (strchr base64Char c)"

fun decode :: "string \<Rightarrow> byte list option" where
  "decode [] = Some []"
| "decode (a # b # c # d # cs) = (case (decode_char a, decode_char b) of
     (Some p, Some q) \<Rightarrow>
       let x = push_bit 2 p OR drop_bit 4 q in
       if c = CHR ''='' then if d = CHR ''='' \<and> cs = [] then Some [x] else None
       else (case decode_char c of None \<Rightarrow> None
         | Some r \<Rightarrow>
             let y = push_bit 4 q OR drop_bit 2 r in
             if d = CHR ''='' then if cs = [] then Some [x, y] else None
             else (case decode_char d of None \<Rightarrow> None
               | Some t \<Rightarrow> map_option (\<lambda>bs. x # y # (push_bit 6 r OR t) # bs) (decode cs)))
   | _ \<Rightarrow> None)"
| "decode _ = None"

lemma base64Char_facts: "distinct base64Char" "length base64Char = 64" "CHR ''='' \<notin> set base64Char" "CHR 0x0D \<notin> set base64Char" "CHR 0x0A \<notin> set base64Char"
  by code_simp+

lemma and_63: "v AND 0x3F = take_bit 6 (v :: 32 word)"
  by (simp add: take_bit_eq_mask mask_eq_exp_minus_1)

lemma and_3: "v AND 0x3 = take_bit 2 (v :: 32 word)"
  by (simp add: take_bit_eq_mask mask_eq_exp_minus_1)

lemma b64_index: "unat (v AND 0x3F :: 32 word) < 64"
  unfolding and_63 using take_bit_nat_less_exp [of 6 "unat v"] by (simp add: unsigned_take_bit_eq)

lemma decode_b64: "decode_char (b64 v) = Some (ucast (take_bit 6 v))"
proof -
  have "strchr base64Char (b64 v) = Some (unat (v AND 0x3F))"
    unfolding b64_def using b64_index [of v] by (intro strchr_nth) (simp_all add: base64Char_facts)
  then show ?thesis
    by (simp add: decode_char_def and_63)
qed

lemma b64_in: "b64 v \<in> set base64Char"
  unfolding b64_def using b64_index [of v] by (intro nth_mem) (simp add: base64Char_facts)

lemma b64_not_pad [simp]: "b64 v \<noteq> CHR ''=''"
  using b64_in [of v] base64Char_facts(3) by auto

lemmas b64_defs = b64_0_def b64_1_def b64_2_def b64_3_def

lemma byte_eqI:
  fixes v w :: byte
  assumes "bit v 0 = bit w 0" "bit v 1 = bit w 1" "bit v 2 = bit w 2" "bit v 3 = bit w 3" "bit v 4 = bit w 4" "bit v 5 = bit w 5" "bit v 6 = bit w 6" "bit v 7 = bit w 7"
  shows "v = w"
proof (rule bit_word_eqI)
  fix n
  assume "n < LENGTH(8)"
  then have "n \<in> {0, 1, 2, 3, 4, 5, 6, 7}"
    by auto
  then show "bit v n = bit w n"
    using assms by auto
qed

text \<open>The values of the four characters of a group.\<close>

definition six0 :: "byte \<Rightarrow> byte" where
  "six0 x = ucast (take_bit 6 (drop_bit 2 (ucast x) :: 32 word))"

definition six1 :: "byte \<Rightarrow> byte \<Rightarrow> byte" where
  "six1 x y = ucast (take_bit 6 (push_bit 4 (ucast x AND 0x3) OR drop_bit 4 (ucast y) :: 32 word))"

definition six2 :: "byte \<Rightarrow> byte \<Rightarrow> byte" where
  "six2 y z = ucast (take_bit 6 (push_bit 2 (ucast y) OR drop_bit 6 (ucast z) :: 32 word))"

definition six3 :: "byte \<Rightarrow> byte" where
  "six3 z = ucast (take_bit 6 (ucast z :: 32 word))"

lemma decode_six:
  "decode_char (b64_0 x) = Some (six0 x)" "decode_char (b64_1 x y) = Some (six1 x y)" "decode_char (b64_2 y z) = Some (six2 y z)" "decode_char (b64_3 z) = Some (six3 z)"
  unfolding b64_defs decode_b64 six0_def six1_def six2_def six3_def by (rule refl)+

lemma six_not_pad: "b64_2 y z \<noteq> CHR ''=''" "b64_3 z \<noteq> CHR ''=''"
  unfolding b64_defs by (rule b64_not_pad)+

lemma group_bytes:
  fixes x y z :: byte
  shows "push_bit 2 (six0 x) OR drop_bit 4 (six1 x y) = x" and "push_bit 4 (six1 x y) OR drop_bit 2 (six2 y z) = y" and "push_bit 6 (six2 y z) OR six3 z = z"
  unfolding and_3 six0_def six1_def six2_def six3_def by (rule byte_eqI; auto simp: bit_simps dest: bit_imp_le_length)+

lemmas decode_simps = decode_six six_not_pad group_bytes Let_def

lemma decode_enc: "decode (enc bs) = Some bs"
  by (induction bs rule: enc.induct) (simp_all add: decode_simps)

lemma mod_3: "Suc (Suc (Suc n)) mod 3 = n mod 3"
  by presburger

lemma decode_early_pad: "length xs mod 3 \<noteq> 0 \<Longrightarrow> cs \<noteq> [] \<Longrightarrow> decode (enc xs @ cs) = None"
proof (induction xs rule: enc.induct)
  case (4 x y z bs)
  show ?case
    using 4 mod_3 [of "length bs"] by (simp add: decode_simps)
qed (simp_all add: decode_simps)

lemma enc_append: "length xs mod 3 = 0 \<Longrightarrow> enc (xs @ ys) = enc xs @ enc ys"
proof (induction xs rule: enc.induct)
  case (4 x y z bs)
  show ?case
    using 4 mod_3 [of "length bs"] by simp
qed simp_all

lemma length_enc: "length (enc bs) = 4 * ((length bs + 2) div 3)"
proof (induction bs rule: enc.induct)
  case (4 x y z bs)
  have "(5 + n) div 3 = Suc (Suc (Suc n) div 3)" for n :: nat
    by presburger
  then show ?case
    using 4 by simp
qed simp_all

subsection \<open>The loop computes the text\<close>

lemma unat_lin:
  fixes i :: "32 word"
  assumes "a * unat i + k < 2 ^ 32"
  shows "unat (of_nat a * i + of_nat k) = a * unat i + k"
proof -
  have "of_nat a * i + of_nat k = (of_nat (a * unat i + k) :: 32 word)"
    by simp
  then show ?thesis
    using assms by (simp only: unat_of_nat) (simp add: take_bit_nat_eq_self)
qed

lemma unat_4:
  fixes i :: "32 word"
  assumes "4 * unat i + 3 < 2 ^ 32"
  shows "unat (4 * i) = 4 * unat i" "unat (4 * i + 1) = 4 * unat i + 1" "unat (4 * i + 2) = 4 * unat i + 2" "unat (4 * i + 3) = 4 * unat i + 3"
    "unat (3 * i) = 3 * unat i" "unat (3 * i + 1) = 3 * unat i + 1" "unat (3 * i + 2) = 3 * unat i + 2"
  using assms unat_lin [of 4 i 0] unat_lin [of 4 i 1] unat_lin [of 4 i 2] unat_lin [of 4 i 3] unat_lin [of 3 i 0] unat_lin [of 3 i 1] unat_lin [of 3 i 2]
  by simp_all

lemma puts_group:
  assumes "length pre = 4 * unat i" "4 * unat i + 3 < 2 ^ 32" "4 \<le> m"
  shows "puts [(4 * i + 0, a), (4 * i + 1, b), (4 * i + 2, c), (4 * i + 3, d)] (pre @ replicate m e) = Some ((pre @ [a, b, c, d]) @ replicate (m - 4) e)"
proof -
  define k where "k = m - 4"
  have m: "m = Suc (Suc (Suc (Suc k)))"
    using assms(3) by (simp add: k_def)
  show ?thesis
    using assms(1) unfolding m by (simp add: put_def unat_4 [OF assms(2)] list_update_append)
qed

lemma puts_end:
  assumes "unat w = length t" "unat (w + 1) = length t + 1"
  shows "puts [(w, a), (w + 1, b)] (t @ replicate 2 e) = Some (t @ [a, b])"
  using assms by (simp add: put_def list_update_append numeral_2_eq_2)

lemma take_3: "n + 3 \<le> length bs \<Longrightarrow> take (3 + k) (drop n bs) = bs ! n # bs ! (n + 1) # bs ! (n + 2) # take k (drop (n + 3) bs)"
proof -
  assume n: "n + 3 \<le> length bs"
  have "drop n bs = bs ! n # bs ! (n + 1) # bs ! (n + 2) # drop (n + 3) bs"
    using n Cons_nth_drop_Suc [of n bs] Cons_nth_drop_Suc [of "n + 1" bs] Cons_nth_drop_Suc [of "n + 2" bs] by (simp add: numeral_3_eq_3)
  then show ?thesis
    by (simp add: numeral_3_eq_3)
qed

lemma b64_groups_enc:
  assumes "length pre = 4 * unat i" "4 * (unat i + k) < 2 ^ 32" "3 * (unat i + k) \<le> length orig" "4 * k \<le> m"
  shows "b64_groups k i orig (pre @ replicate m e) = Some (pre @ enc (take (3 * k) (drop (3 * unat i) orig)) @ replicate (m - 4 * k) e)"
  using assms
proof (induction k arbitrary: i pre m)
  case (Suc k)
  let ?n = "3 * unat i"
  let ?x = "orig ! ?n" and ?y = "orig ! (?n + 1)" and ?z = "orig ! (?n + 2)"
  have small: "4 * unat i + 3 < 2 ^ 32"
    using Suc.prems(2) by simp
  have suc: "unat (i + 1) = unat i + 1"
    using unat_lin [of 1 i 1] small by simp
  have "b64_groups (Suc k) i orig (pre @ replicate m e) =
      b64_groups k (i + 1) orig ((pre @ [b64_0 ?x, b64_1 ?x ?y, b64_2 ?y ?z, b64_3 ?z]) @ replicate (m - 4) e)"
    using puts_group [OF Suc.prems(1) small, of m "b64_0 ?x" "b64_1 ?x ?y" "b64_2 ?y ?z" "b64_3 ?z" e] Suc.prems(4)
    by (simp add: unat_4 [OF small] Let_def del: puts.simps)
  also have "\<dots> = Some ((pre @ [b64_0 ?x, b64_1 ?x ?y, b64_2 ?y ?z, b64_3 ?z]) @ enc (take (3 * k) (drop (3 * unat (i + 1)) orig)) @ replicate (m - 4 - 4 * k) e)"
    using Suc.prems by (intro Suc.IH) (simp_all add: suc)
  also have "\<dots> = Some (pre @ enc (take (3 * Suc k) (drop ?n orig)) @ replicate (m - 4 * Suc k) e)"
  proof -
    have "drop (3 * unat (i + 1)) orig = drop (?n + 3) orig"
      by (subst suc) (simp add: add.commute)
    moreover have "take (3 * Suc k) (drop ?n orig) = ?x # ?y # ?z # take (3 * k) (drop (?n + 3) orig)"
      using take_3 [of ?n orig "3 * k"] Suc.prems(3) by simp
    ultimately show ?thesis
      by (simp only: enc.simps append_Cons append_Nil append_assoc) simp
  qed
  finally show ?case .
qed simp

text \<open>The padding: what is left after the groups.\<close>

lemma b64_pad_chars: "b64 (push_bit 2 (ucast y)) = b64_2 y 0" "b64 (push_bit 4 (ucast x AND 0x3)) = b64_1 x 0"
  by (simp_all add: b64_defs)

lemma b64_padding_enc:
  assumes "length pre = 4 * unat i" "4 * unat i + 3 < 2 ^ 32" "length orig = 3 * unat i + r" "r < 3" "if r = 0 then m' = m else 4 \<le> m \<and> m' = m - 4"
  shows "b64_padding (r \<noteq> 0) (r = 2) i orig (pre @ replicate m e) = Some (pre @ enc (drop (3 * unat i) orig) @ replicate m' e)"
proof -
  consider "r = 0" | "r = 1" | "r = 2"
    using assms(4) by linarith
  then show ?thesis
  proof cases
    case 1
    then show ?thesis
      using assms(3,5) by (simp add: b64_padding_def)
  next
    case 2
    then have "drop (3 * unat i) orig = [orig ! (3 * unat i)]"
      using assms(3) Cons_nth_drop_Suc [of "3 * unat i" orig] by simp
    then show ?thesis
      using puts_group [OF assms(1,2), of m "b64_0 (orig ! (3 * unat i))" "b64_1 (orig ! (3 * unat i)) 0" "CHR ''=''" "CHR ''=''" e] assms(5) 2
      unfolding b64_padding_def Let_def b64_pad_chars by (simp add: unat_4 [OF assms(2)] del: puts.simps)
  next
    case 3
    then have "drop (3 * unat i) orig = [orig ! (3 * unat i), orig ! (3 * unat i + 1)]"
      using assms(3) Cons_nth_drop_Suc [of "3 * unat i" orig] Cons_nth_drop_Suc [of "3 * unat i + 1" orig] by simp
    then show ?thesis
      using puts_group [OF assms(1,2), of m "b64_0 (orig ! (3 * unat i))" "b64_1 (orig ! (3 * unat i)) (orig ! (3 * unat i + 1))" "b64_2 (orig ! (3 * unat i + 1)) 0" "CHR ''=''" e]
        assms(5) 3
      unfolding b64_padding_def Let_def b64_pad_chars by (simp add: unat_4 [OF assms(2)] del: puts.simps)
  qed
qed

text \<open>The largest length for which the size of the result does not wrap around.\<close>

definition b64_max :: nat where
  "b64_max = 3 * (2 ^ 30 - 1)"

lemma base64Encode_enc:
  assumes "length bs \<le> b64_max"
  shows "base64Encode (Some bs) (of_nat (length bs)) = Some (enc bs @ [CHR 0x0D, CHR 0x0A])"
proof -
  define L :: "32 word" where "L = of_nat (length bs)"
  define n r where "n = length bs div 3" and "r = length bs mod 3"
  have len: "length bs = 3 * n + r" "r < 3"
    by (simp_all add: n_def r_def)
  have nb: "n < 2 ^ 30" "r \<noteq> 0 \<longrightarrow> n < 2 ^ 30 - 1"
    using assms len by (auto simp: b64_max_def)
  have L: "unat L = length bs"
    using assms by (simp add: L_def unat_of_nat take_bit_nat_eq_self b64_max_def)
  have num: "unat (L div 3) = n"
    by (simp add: unat_div_distrib L n_def)
  have pad: "L > L div 3 * 3 \<longleftrightarrow> r \<noteq> 0" "L = L div 3 * 3 + 2 \<longleftrightarrow> r = 2"
  proof -
    have "unat (L div 3 * 3) = 3 * n" "unat (L div 3 * 3 + 2) = 3 * n + 2"
      using unat_lin [of 3 "L div 3" 0] unat_lin [of 3 "L div 3" 2] nb(1) num by (simp_all add: mult.commute)
    then show "L > L div 3 * 3 \<longleftrightarrow> r \<noteq> 0" "L = L div 3 * 3 + 2 \<longleftrightarrow> r = 2"
      using L len by (simp_all add: word_less_nat_alt word_unat_eq_iff)
  qed
  let ?p = "if r \<noteq> 0 then 1 else 0 :: nat"
  let ?N = "4 * (L div 3 + (if r \<noteq> 0 then 1 else 0))"
  have N: "unat ?N = 4 * (n + ?p)" "unat (?N + 1) = 4 * (n + ?p) + 1" "unat (?N + 2) = 4 * (n + ?p) + 2"
  proof -
    have p: "unat (L div 3 + (if r \<noteq> 0 then 1 else 0)) = n + ?p"
      using unat_lin [of 1 "L div 3" 1] nb num by simp
    have b: "4 * unat (L div 3 + (if r \<noteq> 0 then 1 else 0)) + 3 < 2 ^ 32"
      unfolding p using nb by auto
    show "unat ?N = 4 * (n + ?p)" "unat (?N + 1) = 4 * (n + ?p) + 1" "unat (?N + 2) = 4 * (n + ?p) + 2"
      unfolding unat_4 [OF b] p by (rule refl)+
  qed
  have e1: "b64_groups n 0 bs ([] @ replicate (4 * (n + ?p) + 2) (CHR 0x00)) =
      Some ([] @ enc (take (3 * n) (drop (3 * unat (0 :: 32 word)) bs)) @ replicate (4 * (n + ?p) + 2 - 4 * n) (CHR 0x00))"
    using nb len by (intro b64_groups_enc) auto
  have le: "length (enc (take (3 * n) bs)) = 4 * n"
  proof -
    have "(3 * n + 2) div 3 = n"
      by presburger
    then show ?thesis
      using len by (simp add: length_enc min_def)
  qed
  have e2: "b64_padding (r \<noteq> 0) (r = 2) (L div 3) bs (enc (take (3 * n) bs) @ replicate (4 * ?p + 2) (CHR 0x00)) =
      Some (enc (take (3 * n) bs) @ enc (drop (3 * unat (L div 3)) bs) @ replicate 2 (CHR 0x00))"
    using len nb(1) le by (intro b64_padding_enc) (auto simp: num)
  have all: "enc (take (3 * n) bs) @ enc (drop (3 * n) bs) = enc bs"
    using len enc_append [of "take (3 * n) bs" "drop (3 * n) bs"] by (simp add: min_def)
  have "(3 * n + r + 2) div 3 = n + ?p"
    using len(2) by presburger
  then have "length (enc bs) = 4 * (n + ?p)"
    using len(1) by (simp add: length_enc)
  then have e3: "puts [(?N, CHR 0x0D), (?N + 1, CHR 0x0A)] (enc bs @ replicate 2 (CHR 0x00)) = Some (enc bs @ [CHR 0x0D, CHR 0x0A])"
    using N by (intro puts_end) simp_all
  have "b64_groups (unat (L div 3)) 0 bs (replicate (unat (?N + 2)) (CHR 0x00)) = Some (enc (take (3 * n) bs) @ replicate (4 * ?p + 2) (CHR 0x00))"
    unfolding num N using e1 by simp
  moreover have "b64_padding (r \<noteq> 0) (r = 2) (L div 3) bs (enc (take (3 * n) bs) @ replicate (4 * ?p + 2) (CHR 0x00)) = Some (enc bs @ replicate 2 (CHR 0x00))"
    unfolding e2 num append_assoc [symmetric] all by (rule refl)
  ultimately show ?thesis
    unfolding base64Encode_def L_def [symmetric] Let_def option.case pad by (simp only: option.case e3)
qed

subsection \<open>Round trip\<close>

text \<open>
  C16. For every input up to the length where the size of the result wraps around, the encoder writes only inside its buffer, and its result is a text of four characters for every
  three bytes or part of them, followed by a line end, from which a decoder gets the input back.
\<close>

theorem base64_roundtrip:
  assumes "length bs \<le> b64_max"
  shows "\<exists>text. base64Encode (Some bs) (of_nat (length bs)) = Some (text @ [CHR 0x0D, CHR 0x0A]) \<and>
    length text = 4 * ((length bs + 2) div 3) \<and> decode text = Some bs"
  using base64Encode_enc [OF assms] length_enc [of bs] decode_enc [of bs] by blast

theorem base64_roundtrip_witness:
  "base64Encode (Some [77, 97]) 2 = Some (''TWE='' @ [CHR 0x0D, CHR 0x0A]) \<and> decode ''TWE='' = Some [77, 97]"
proof -
  have e: "base64Encode (Some [77, 97]) 2 = Some (''TWE='' @ [CHR 0x0D, CHR 0x0A])"
    by code_simp
  have "\<exists>text. base64Encode (Some [77, 97]) (of_nat (length [77 :: byte, 97])) = Some (text @ [CHR 0x0D, CHR 0x0A]) \<and>
      length text = 4 * ((length [77 :: byte, 97] + 2) div 3) \<and> decode text = Some [77, 97]"
    by (rule base64_roundtrip) (simp add: b64_max_def)
  then show ?thesis
    using e by auto
qed

text \<open>The attachment: a piece of the size of the buffer is encoded for itself.\<close>

lemma attachment_first:
  assumes "FILE_BUF_LEN \<le> length data"
  shows "attachment data = map_option (\<lambda>rest. enc (take FILE_BUF_LEN data) @ [CHR 0x0D, CHR 0x0A] @ rest) (attachment (drop FILE_BUF_LEN data))"
proof -
  have len: "length (take FILE_BUF_LEN data) = FILE_BUF_LEN"
    using assms by simp
  have "base64Encode (Some (take FILE_BUF_LEN data)) (of_nat FILE_BUF_LEN) = Some (enc (take FILE_BUF_LEN data) @ [CHR 0x0D, CHR 0x0A])"
    using base64Encode_enc [of "take FILE_BUF_LEN data"] unfolding len by (simp add: FILE_BUF_LEN_def b64_max_def)
  then show ?thesis
    unfolding attachment.simps [of data] Let_def len by (cases "attachment (drop FILE_BUF_LEN data)") simp_all
qed

lemma attachment_short:
  assumes "length data < FILE_BUF_LEN"
  shows "attachment data = Some (enc data @ [CHR 0x0D, CHR 0x0A])"
proof -
  have len: "take FILE_BUF_LEN data = data"
    using assms by simp
  show ?thesis
    using base64Encode_enc [of data] assms unfolding attachment.simps [of data] Let_def len by (simp add: FILE_BUF_LEN_def b64_max_def)
qed

definition text_char :: "char \<Rightarrow> bool" where
  "text_char c \<longleftrightarrow> c \<noteq> CHR 0x0D \<and> c \<noteq> CHR 0x0A"

lemma b64_text_char: "text_char (b64 v)"
  using b64_in [of v] base64Char_facts(4,5) by (auto simp: text_char_def)

lemma enc_text_chars [simp]: "filter text_char (enc bs) = enc bs"
  by (induction bs rule: enc.induct) (simp_all add: b64_defs b64_text_char, simp_all add: text_char_def)

lemma enc_Nil [simp]: "enc bs = [] \<longleftrightarrow> bs = []"
  by (cases bs rule: enc.cases) simp_all

lemma attachment_text:
  "\<exists>out rest. attachment data = Some out \<and> filter text_char out = enc (take FILE_BUF_LEN data) @ rest \<and>
    (rest = [] \<longleftrightarrow> length data \<le> FILE_BUF_LEN)"
proof (induction data rule: measure_induct_rule [of length])
  case (less data)
  show ?case
  proof (cases "length data < FILE_BUF_LEN")
    case True
    then show ?thesis
      using attachment_short [OF True] by (auto simp: text_char_def [of "CHR 0x0D"] text_char_def [of "CHR 0x0A"])
  next
    case False
    have "length (drop FILE_BUF_LEN data) < length data"
      using False by (simp add: FILE_BUF_LEN_def)
    from less.IH [OF this] obtain out rest where t: "attachment (drop FILE_BUF_LEN data) = Some out"
      "filter text_char out = enc (take FILE_BUF_LEN (drop FILE_BUF_LEN data)) @ rest" "rest = [] \<longleftrightarrow> length (drop FILE_BUF_LEN data) \<le> FILE_BUF_LEN"
      by blast
    have "enc (take FILE_BUF_LEN (drop FILE_BUF_LEN data)) @ rest = [] \<longleftrightarrow> length data \<le> FILE_BUF_LEN"
      using t(3) by (auto simp: FILE_BUF_LEN_def)
    then show ?thesis
      using attachment_first [of data] False t(1,2) by (auto simp: text_char_def [of "CHR 0x0D"] text_char_def [of "CHR 0x0A"])
  qed
qed

text \<open>
  C39. The text sent for an attachment, without its line ends, decodes to the file exactly when the file fits into the buffer: a piece of 700000 bytes is not a whole number
  of groups, so its text ends with padding, and what follows is not valid any more.
\<close>

theorem attachment_decodes:
  "\<exists>out. attachment data = Some out \<and>
    decode (filter text_char out) = (if length data \<le> FILE_BUF_LEN then Some data else None)"
proof -
  obtain out rest where t: "attachment data = Some out" "filter text_char out = enc (take FILE_BUF_LEN data) @ rest"
    "rest = [] \<longleftrightarrow> length data \<le> FILE_BUF_LEN"
    using attachment_text by blast
  have "decode (enc (take FILE_BUF_LEN data) @ rest) = (if length data \<le> FILE_BUF_LEN then Some data else None)"
  proof (cases "length data \<le> FILE_BUF_LEN")
    case True
    then show ?thesis
      using t(3) by (simp add: decode_enc)
  next
    case False
    then have "length (take FILE_BUF_LEN data) mod 3 \<noteq> 0"
      by (simp add: FILE_BUF_LEN_def)
    then show ?thesis
      using False t(3) by (simp add: decode_early_pad)
  qed
  then show ?thesis
    using t(1,2) by auto
qed

end
