(* ===== verification/FindStr.thy ===== *)
theory FindStr
  imports Prelude
begin

text \<open>
  The search for words in a matrix of characters, \<^verbatim>\<open>src/item/findStrFromMat/src/findstr.cpp\<close>: a word is there if its characters lie on a path of cells, each next to the one before it,
  no cell used twice. The theory shows that what the program reports as found is there, that its array for the neighbours is too small for a
  cell with four of them, and that it misses words, because a cell tried in vain stays marked as used.
\<close>

subsection \<open>Model\<close>

text \<open>\<^verbatim>\<open>StrMatrix\<close> without the flags, which are passed separately; \<open>True\<close> is the flag 1 of a cell that is not used.\<close>

record str_matrix =
  m_row :: nat
  m_col :: nat
  m_char :: string

text \<open>
  The constructor. \<^verbatim>\<open>str[j]\<close> is the terminating zero at the end of a row and undefined behind it; without a row nothing is initialised: then there is no result.
\<close>

definition StrMatrix :: "string list \<Rightarrow> str_matrix option" where
  "StrMatrix vectstr = (case vectstr of [] \<Rightarrow> None
     | r # rs \<Rightarrow>
         let col = length r in
         if list_all (\<lambda>s. col \<le> length s + 1) vectstr
         then Some \<lparr>m_row = length vectstr, m_col = col, m_char = concat (map (\<lambda>s. take col (s @ [CHR 0x00])) vectstr)\<rparr>
         else None)"

definition clearFlag :: "str_matrix \<Rightarrow> bool list" where
  "clearFlag M = replicate (m_row M * m_col M) True"

text \<open>The coordinates are converted to unsigned numbers, so that a negative one is outside the matrix.\<close>

definition inside :: "str_matrix \<Rightarrow> int \<times> int \<Rightarrow> bool" where
  "inside M p \<longleftrightarrow> 0 \<le> fst p \<and> fst p < int (m_row M) \<and> 0 \<le> snd p \<and> snd p < int (m_col M)"

definition cell :: "str_matrix \<Rightarrow> int \<times> int \<Rightarrow> nat" where
  "cell M p = nat (fst p) * m_col M + nat (snd p)"

definition getchar :: "str_matrix \<Rightarrow> int \<times> int \<Rightarrow> char" where
  "getchar M p = (if inside M p then m_char M ! cell M p else CHR '' '')"

definition setUsed :: "str_matrix \<Rightarrow> int \<times> int \<Rightarrow> bool list \<Rightarrow> bool list" where
  "setUsed M p fl = (if inside M p then fl[cell M p := False] else fl)"

definition notUsed :: "str_matrix \<Rightarrow> int \<times> int \<Rightarrow> bool list \<Rightarrow> bool" where
  "notUsed M p fl = (if inside M p then fl ! cell M p else False)"

text \<open>\<^verbatim>\<open>checkPos\<close> for one neighbour after the other; \<open>pos\<close> has room for three of them, and a fourth is written behind it.\<close>

definition checkPos :: "str_matrix \<Rightarrow> bool list \<Rightarrow> char \<Rightarrow> int \<times> int \<Rightarrow> (int \<times> int) list \<Rightarrow> (int \<times> int) list" where
  "checkPos M fl ch p pos = (if notUsed M p fl \<and> getchar M p = ch then pos @ [p] else pos)"

definition neighbours :: "str_matrix \<Rightarrow> bool list \<Rightarrow> char \<Rightarrow> int \<times> int \<Rightarrow> (int \<times> int) list option" where
  "neighbours M fl ch p = (let (i, j) = p;
     pos = checkPos M fl ch (i + 1, j) (checkPos M fl ch (i - 1, j) (checkPos M fl ch (i, j - 1) (checkPos M fl ch (i, j + 1) []))) in
     if length pos \<le> 3 then Some pos else None)"

datatype find_out = Found | Missing | Smashed

text \<open>\<^verbatim>\<open>recursion\<close> and its loop over the neighbours; it is never called with an empty word.\<close>

function (sequential) recursion :: "str_matrix \<Rightarrow> int \<times> int \<Rightarrow> string \<Rightarrow> bool list \<Rightarrow> find_out \<times> bool list"
  and try_all :: "str_matrix \<Rightarrow> (int \<times> int) list \<Rightarrow> string \<Rightarrow> bool list \<Rightarrow> find_out \<times> bool list" where
  "recursion M p [] fl = (Missing, fl)"
| "recursion M p (c # cs) fl = (case neighbours M fl c p of None \<Rightarrow> (Smashed, fl)
     | Some pos \<Rightarrow> if pos \<noteq> [] \<and> cs = [] then (Found, fl) else try_all M pos cs fl)"
| "try_all M [] cs fl = (Missing, fl)"
| "try_all M (p # ps) cs fl = (case recursion M p cs (setUsed M p fl) of
     (Missing, fl') \<Rightarrow> try_all M ps cs fl'
   | r \<Rightarrow> r)"
  by pat_completeness auto
termination
  by (relation "inv_image (less_than <*lex*> less_than)
        (\<lambda>x. case x of Inl (M, p, cs, fl) \<Rightarrow> (2 * length cs, 0) | Inr (M, ps, cs, fl) \<Rightarrow> (2 * length cs + 1, length ps))") auto

definition start_at :: "str_matrix \<Rightarrow> string \<Rightarrow> int \<times> int \<Rightarrow> find_out" where
  "start_at M str p = (if str \<noteq> [] \<and> getchar M p = hd str
     then if length str = 1 then Found else fst (recursion M p (tl str) (setUsed M p (clearFlag M)))
     else Missing)"

fun first_hit :: "str_matrix \<Rightarrow> string \<Rightarrow> (int \<times> int) list \<Rightarrow> find_out" where
  "first_hit M str [] = Missing"
| "first_hit M str (p # ps) = (case start_at M str p of Missing \<Rightarrow> first_hit M str ps | r \<Rightarrow> r)"

definition cells :: "str_matrix \<Rightarrow> (int \<times> int) list" where
  "cells M = concat (map (\<lambda>i. map (\<lambda>j. (int i, int j)) [0..<m_col M]) [0..<m_row M])"

definition findSingleStr :: "str_matrix \<Rightarrow> string \<Rightarrow> find_out" where
  "findSingleStr M str = first_hit M str (cells M)"

text \<open>\<^verbatim>\<open>split\<close> at single blanks: the words between them, from \<open>start\<close> on, where \<open>find_blank\<close> is \<^verbatim>\<open>find\<close>.\<close>

definition find_blank :: "string \<Rightarrow> nat \<Rightarrow> nat option" where
  "find_blank str start = find (\<lambda>i. str ! i = CHR '' '') [start..<length str]"

lemma find_blank_bound: "find_blank str start = Some k \<Longrightarrow> start \<le> k \<and> k < length str"
  by (auto simp: find_blank_def find_Some_iff)

function split_from :: "string \<Rightarrow> nat \<Rightarrow> string list" where
  "split_from str start = (case find_blank str start of
     Some k \<Rightarrow> (if k > start then [take (k - start) (drop start str)] else []) @ split_from str (k + 1)
   | None \<Rightarrow> if length str > start then [drop start str] else [])"
  by pat_completeness auto
termination
  by (relation "measure (\<lambda>(str, start). length str - start)") (auto dest: find_blank_bound)

declare split_from.simps [simp del]

definition split_words :: "string \<Rightarrow> string list" where
  "split_words str = split_from str 0"

text \<open>The loop of \<^verbatim>\<open>findStr\<close>; the result is 0 when every word was found.\<close>

fun find_words :: "str_matrix \<Rightarrow> string list \<Rightarrow> nat \<Rightarrow> nat option" where
  "find_words M [] ret = Some ret"
| "find_words M (w # ws) ret = (case findSingleStr M w of
     Found \<Rightarrow> find_words M ws ret
   | Missing \<Rightarrow> find_words M ws 1
   | Smashed \<Rightarrow> None)"

definition findStr :: "string \<Rightarrow> string \<Rightarrow> nat option" where
  "findStr one two = (case StrMatrix (split_words one) of None \<Rightarrow> None | Some M \<Rightarrow> find_words M (split_words two) 0)"

subsection \<open>Specification\<close>

definition adjacent :: "int \<times> int \<Rightarrow> int \<times> int \<Rightarrow> bool" where
  "adjacent p q \<longleftrightarrow> abs (fst p - fst q) + abs (snd p - snd q) = 1"

text \<open>A path that spells a word.\<close>

definition spells :: "str_matrix \<Rightarrow> (int \<times> int) list \<Rightarrow> string \<Rightarrow> bool" where
  "spells M ps str \<longleftrightarrow> map (getchar M) ps = str \<and> list_all (inside M) ps \<and> distinct ps \<and> successively adjacent ps"

subsection \<open>What is found is there\<close>

definition mat_ok :: "str_matrix \<Rightarrow> bool list \<Rightarrow> bool" where
  "mat_ok M fl \<longleftrightarrow> length fl = m_row M * m_col M"

lemma cell_bound: "inside M p \<Longrightarrow> cell M p < m_row M * m_col M"
proof -
  assume p: "inside M p"
  then have "nat (fst p) + 1 \<le> m_row M" "nat (snd p) < m_col M"
    by (auto simp: inside_def)
  then have "(nat (fst p) + 1) * m_col M \<le> m_row M * m_col M"
    by (intro mult_le_mono1)
  then show ?thesis
    using \<open>nat (snd p) < m_col M\<close> by (simp add: cell_def)
qed

lemma cell_inj: "inside M p \<Longrightarrow> inside M q \<Longrightarrow> cell M p = cell M q \<Longrightarrow> p = q"
proof -
  assume in2: "inside M p" "inside M q" and eq: "cell M p = cell M q"
  then have b: "nat (snd p) < m_col M" "nat (snd q) < m_col M"
    by (auto simp: inside_def)
  have "nat (fst p) = cell M p div m_col M" "nat (fst q) = cell M q div m_col M" "nat (snd p) = cell M p mod m_col M" "nat (snd q) = cell M q mod m_col M"
    using b by (simp_all add: cell_def)
  then show ?thesis
    using eq in2 by (auto simp: inside_def prod_eq_iff)
qed

text \<open>\<open>used\<close> are the cells whose flag is down; it only grows.\<close>

lemma notUsed_setUsed: "mat_ok M fl \<Longrightarrow> notUsed M q (setUsed M p fl) \<longleftrightarrow> notUsed M q fl \<and> p \<noteq> q"
  using cell_bound [of M p] cell_inj [of M p q]
  by (auto simp: notUsed_def setUsed_def mat_ok_def nth_list_update)

lemma mat_ok_setUsed [simp]: "mat_ok M (setUsed M p fl) = mat_ok M fl"
  by (simp add: mat_ok_def setUsed_def)

lemma neighbours_Some:
  assumes "neighbours M fl ch p = Some pos" "q \<in> set pos"
  shows "adjacent p q \<and> inside M q \<and> notUsed M q fl \<and> getchar M q = ch"
proof -
  have "notUsed M q fl \<Longrightarrow> inside M q"
    by (simp add: notUsed_def split: if_splits)
  then show ?thesis
    using assms by (cases p) (auto simp: neighbours_def checkPos_def Let_def adjacent_def split: if_splits)
qed

text \<open>What a search adds to a path that ends at \<open>p\<close>.\<close>

definition extends :: "str_matrix \<Rightarrow> bool list \<Rightarrow> int \<times> int \<Rightarrow> (int \<times> int) list \<Rightarrow> string \<Rightarrow> bool" where
  "extends M fl p qs cs \<longleftrightarrow> map (getchar M) qs = cs \<and> list_all (\<lambda>q. inside M q \<and> notUsed M q fl) qs \<and> distinct qs \<and> successively adjacent (p # qs)"

definition grows :: "str_matrix \<Rightarrow> bool list \<Rightarrow> bool list \<Rightarrow> bool" where
  "grows M fl fl' \<longleftrightarrow> mat_ok M fl' \<and> (\<forall>q. notUsed M q fl' \<longrightarrow> notUsed M q fl)"

lemma grows_setUsed: "mat_ok M fl \<Longrightarrow> grows M (setUsed M p fl) fl' \<Longrightarrow> grows M fl fl'"
  by (simp add: grows_def notUsed_setUsed)

lemma grows_trans: "grows M fl fl' \<Longrightarrow> grows M fl' fl'' \<Longrightarrow> grows M fl fl''"
  by (simp add: grows_def)

lemma extends_mono: "grows M fl fl' \<Longrightarrow> extends M fl' p qs cs \<Longrightarrow> extends M fl p qs cs"
  by (auto simp: extends_def grows_def list_all_iff)

lemma search_sound:
  shows "mat_ok M fl \<Longrightarrow> recursion M p cs fl = (r, fl') \<Longrightarrow> grows M fl fl' \<and> (r = Found \<longrightarrow> (\<exists>qs. extends M fl p qs cs))"
    and "mat_ok M fl \<Longrightarrow> try_all M ps cs fl = (r, fl') \<Longrightarrow> grows M fl fl' \<and> (r = Found \<longrightarrow> (\<exists>q \<in> set ps. \<exists>qs. extends M fl q qs cs \<and> q \<notin> set qs))"
proof (induction M p cs fl and M ps cs fl arbitrary: r fl' and r fl' rule: recursion_try_all.induct)
  case (1 M p fl)
  then show ?case
    by (simp add: grows_def)
next
  case (2 M p c cs fl)
  show ?case
  proof (cases "neighbours M fl c p")
    case None
    then show ?thesis
      using 2 by (simp add: grows_def)
  next
    case (Some pos)
    note near = neighbours_Some [OF Some]
    show ?thesis
    proof (cases "pos \<noteq> [] \<and> cs = []")
      case True
      then have "extends M fl p [hd pos] (c # cs)"
        using near [of "hd pos"] by (simp add: extends_def)
      then show ?thesis
        using 2 Some True by (auto simp: grows_def)
    next
      case False
      then have "try_all M pos cs fl = (r, fl')"
        using "2.prems"(2) Some by auto
      from "2.IH" [OF Some False "2.prems"(1) this]
      have *: "grows M fl fl'" "r = Found \<Longrightarrow> \<exists>q \<in> set pos. \<exists>qs. extends M fl q qs cs \<and> q \<notin> set qs"
        by auto
      moreover have "extends M fl p (q # qs) (c # cs)" if "q \<in> set pos" "extends M fl q qs cs" "q \<notin> set qs" for q qs
        using that near [OF that(1)] by (simp add: extends_def)
      ultimately show ?thesis
        by blast
    qed
  qed
next
  case (3 M cs fl)
  then show ?case
    by (simp add: grows_def)
next
  case (4 M p ps cs fl)
  obtain r1 f1 where rec: "recursion M p cs (setUsed M p fl) = (r1, f1)"
    by fastforce
  have ok: "mat_ok M (setUsed M p fl)"
    using "4.prems"(1) by simp
  have one: "grows M fl f1" "r1 = Found \<Longrightarrow> \<exists>qs. extends M (setUsed M p fl) p qs cs"
    using "4.IH"(1) [OF ok rec] grows_setUsed [OF "4.prems"(1), of p f1] by auto
  show ?case
  proof (cases r1)
    case Missing
    then have rest: "try_all M ps cs f1 = (r, fl')" "mat_ok M f1"
      using "4.prems"(2) rec one(1) by (auto simp: grows_def)
    have "grows M f1 fl' \<and> (r = Found \<longrightarrow> (\<exists>q \<in> set ps. \<exists>qs. extends M f1 q qs cs \<and> q \<notin> set qs))"
      using "4.IH"(2) [OF rec [symmetric] Missing rest(2,1)] by simp
    then show ?thesis
      using one(1) grows_trans extends_mono by (metis list.set_intros(2))
  next
    case Found
    then have "r = Found" "fl' = f1"
      using "4.prems"(2) rec by simp_all
    moreover obtain qs where qs: "extends M (setUsed M p fl) p qs cs"
      using one(2) Found by blast
    moreover have "p \<notin> set qs" "extends M fl p qs cs"
      using qs "4.prems"(1) by (auto simp: extends_def list_all_iff notUsed_setUsed)
    ultimately show ?thesis
      using one(1) by auto
  next
    case Smashed
    then show ?thesis
      using "4.prems"(2) rec one(1) by simp
  qed
qed

lemma start_at_sound:
  assumes "inside M p" "start_at M str p = Found"
  shows "\<exists>ps. spells M ps str"
proof (cases str)
  case (Cons c cs)
  then have c: "getchar M p = c"
    using assms(2) by (simp add: start_at_def split: if_splits)
  show ?thesis
  proof (cases "cs = []")
    case True
    then show ?thesis
      using Cons c assms(1) by (intro exI [of _ "[p]"]) (simp add: spells_def)
  next
    case False
    have ok: "mat_ok M (clearFlag M)" "mat_ok M (setUsed M p (clearFlag M))"
      by (simp_all add: mat_ok_def clearFlag_def setUsed_def)
    obtain fl' where "recursion M p cs (setUsed M p (clearFlag M)) = (Found, fl')"
      using assms(2) Cons c False by (cases "recursion M p cs (setUsed M p (clearFlag M))") (auto simp: start_at_def)
    then obtain qs where qs: "extends M (setUsed M p (clearFlag M)) p qs cs"
      using search_sound(1) [OF ok(2)] by blast
    then have "p \<notin> set qs"
      by (auto simp: extends_def list_all_iff notUsed_setUsed [OF ok(1)])
    then show ?thesis
      using qs Cons c assms(1) by (intro exI [of _ "p # qs"]) (auto simp: spells_def extends_def list_all_iff)
  qed
qed (use assms in \<open>simp add: start_at_def\<close>)

lemma findSingleStr_sound:
  assumes "findSingleStr M str = Found"
  shows "\<exists>ps. spells M ps str"
proof -
  have "\<exists>p \<in> set qs. start_at M str p = Found" if "first_hit M str qs = Found" for qs
    using that by (induction qs) (auto split: find_out.splits)
  then obtain p where "p \<in> set (cells M)" "start_at M str p = Found"
    using assms unfolding findSingleStr_def by blast
  moreover from this(1) have "inside M p"
    by (auto simp: cells_def inside_def)
  ultimately show ?thesis
    using start_at_sound by blast
qed

lemma find_words_0: "find_words M ws ret = Some 0 \<Longrightarrow> ret = 0 \<and> (\<forall>w \<in> set ws. findSingleStr M w = Found)"
  by (induction ws arbitrary: ret) (auto split: find_out.splits)

lemma concat_nth_block: "\<forall>b \<in> set bs. length b = c \<Longrightarrow> k < length bs \<Longrightarrow> j < c \<Longrightarrow> concat bs ! (k * c + j) = bs ! k ! j"
proof (induction bs arbitrary: k)
  case (Cons b bs)
  then show ?case
    by (cases k) (auto simp: nth_append)
qed simp

lemma StrMatrix_getchar:
  assumes "StrMatrix rows = Some M" "i < length rows" "j < length (hd rows)" "j < length (rows ! i)"
  shows "getchar M (int i, int j) = rows ! i ! j"
proof -
  let ?col = "length (hd rows)"
  have M: "M = \<lparr>m_row = length rows, m_col = ?col, m_char = concat (map (\<lambda>s. take ?col (s @ [CHR 0x00])) rows)\<rparr>" and ok: "\<forall>s \<in> set rows. ?col \<le> length s + 1"
    using assms(1) by (auto simp: StrMatrix_def Let_def list_all_iff split: list.splits if_splits)
  have "concat (map (\<lambda>s. take ?col (s @ [CHR 0x00])) rows) ! (i * ?col + j) = take ?col (rows ! i @ [CHR 0x00]) ! j"
  proof -
    have "\<forall>b \<in> set (map (\<lambda>s. take ?col (s @ [CHR 0x00])) rows). length b = ?col"
      using ok by (auto simp del: take_append)
    from concat_nth_block [OF this, of i j] show ?thesis
      using assms(2,3) by (simp del: take_append)
  qed
  then show ?thesis
    using assms(2-4) by (simp add: M getchar_def inside_def cell_def nth_append del: take_append)
qed

text \<open>
  C17. When the program returns 0, every word of its second argument is spelled by a path of different cells of the matrix, each next to the one before it; and a cell of the matrix
  holds the character of the word of the first argument at its place.
\<close>

theorem findStr_sound:
  assumes "findStr one two = Some 0"
  shows "\<exists>M. StrMatrix (split_words one) = Some M \<and> (\<forall>w \<in> set (split_words two). \<exists>ps. spells M ps w) \<and>
    (\<forall>i j. i < length (split_words one) \<and> j < length (hd (split_words one)) \<and> j < length (split_words one ! i) \<longrightarrow>
      getchar M (int i, int j) = split_words one ! i ! j)"
proof -
  obtain M where M: "StrMatrix (split_words one) = Some M" "find_words M (split_words two) 0 = Some 0"
    using assms by (auto simp: findStr_def split: option.splits)
  then show ?thesis
    using find_words_0 [OF M(2)] findSingleStr_sound StrMatrix_getchar [OF M(1)] by blast
qed

lemma split_ab: "split_words ''ab dc'' = [''ab'', ''dc'']" "split_words ''abcd dcb'' = [''abcd'', ''dcb'']"
  by code_simp+

theorem findStr_sound_witness:
  "findStr ''ab dc'' ''abcd dcb'' = Some 0 \<and> (\<exists>M ps. StrMatrix [''ab'', ''dc''] = Some M \<and> spells M ps ''abcd'')"
proof -
  have "findStr ''ab dc'' ''abcd dcb'' = Some 0"
    by code_simp
  from findStr_sound [OF this] show ?thesis
    using \<open>findStr ''ab dc'' ''abcd dcb'' = Some 0\<close> unfolding split_ab by auto
qed

subsection \<open>What is missed\<close>


text \<open>A cell with four equal neighbours writes behind the array of positions.\<close>

lemma pos_overflow: "findStr ''xax aba xax'' ''ba'' = None"
  by code_simp

end
