(* ===== verification/Spec2Isabelle.thy ===== *)
theory Spec2Isabelle
  imports MsgQueueConc MsgQueueOpen SemMmapOpen RWLock SemFifo SemSvsem ProdConsSem ProdConsMutex SockOpen Checksum StrCli Rtt
    QueuePool CircleQ IcmpDaemon PreforkServer ThreadPool WebClient WebThreads SockLoop Base64 FindStr
begin

text \<open>
  Verification of the interprocess communication and network programs of this repository.

  \<^bold>\<open>The program.\<close> The repository collects C programs. Two of its larger parts are libraries with code of their own:
  \<^verbatim>\<open>src/unixipc\<close> implements POSIX message queues, semaphores and read-write locks on top of mapped files,
  FIFOs, System V semaphores, mutexes and condition variables, and has programs that use them;
  \<^verbatim>\<open>src/unixNetV1\<close> implements address conversion (\<^verbatim>\<open>libfree\<close>), name lookup (\<^verbatim>\<open>libgai\<close>) and the functions that network
  programs share (\<^verbatim>\<open>lib\<close>). The development models these parts function by function. The names of the definitions are those of the
  source; a definition for a part of a function has a suffix such as \<^verbatim>\<open>_loop\<close>, \<^verbatim>\<open>_end\<close>, \<^verbatim>\<open>_resume\<close>.

  \<^bold>\<open>Conventions.\<close> A call that sets \<^verbatim>\<open>errno\<close> returns a value of \<open>errno + 'a\<close>. Calls of the system are answered by an
  argument of the model, either an environment that sees the history of all calls (\<open>Posix\<close>, \<open>SockOpen\<close>), or a plan of
  outcomes (\<open>StreamIo\<close>), or functions (the resolver of \<open>AddrInfo\<close>). Properties hold for all answers unless they say
  otherwise. The end of the process in \<^verbatim>\<open>err_sys\<close>, \<^verbatim>\<open>err_quit\<close> or \<^verbatim>\<open>err_dump\<close> is an outcome of its own. Machine
  integers are words where they can wrap (file sizes, checksums, ports, sequence numbers, the fields of addresses); the
  \<^verbatim>\<open>long\<close> attributes of a message queue are integers, and the file size computed from them is a 64-bit word.

  \<^bold>\<open>Message queues\<close> (\<^verbatim>\<open>src/unixipc/my_pxmsg_mmap\<close>). \<open>MsgQueueSpec\<close> is the contract, a locale: a bounded list sorted by
  priority. \<open>MsgQueue\<close> has the mapped file as a record with a header and slots linked by byte offsets, and each call up to its
  first wait and after it; it shows that the linked lists refine the contract, that messages come out by priority
  and first-in first-out, that failing calls change nothing, and where the size of the file wraps. \<open>MsgQueueOpen\<close> has
  \<^verbatim>\<open>mymq_open\<close> and \<^verbatim>\<open>mymq_unlink\<close> as traces of system calls and shows which descriptors, mappings and blocks remain on every path.
  \<open>MsgQueueConc\<close> has the interleavings of senders and receivers, as an instance of \<open>Monitor\<close>, and shows the invariants and
  a lost wake-up.

  \<^bold>\<open>Semaphores.\<close> \<open>SemSpec\<close> is the contract. \<open>SemMmap\<close> and \<open>SemMmapOpen\<close> model \<^verbatim>\<open>my_pxsem_mmap\<close>, \<open>SemFifo\<close>
  \<^verbatim>\<open>my_pxsem_fifo\<close> and \<open>SemSvsem\<close> \<^verbatim>\<open>my_pxsem_svsem\<close>; each interprets the contract. Shown are conservation of tokens over all
  interleavings, the wake-ups of waiting threads, and the resources of the open functions.

  \<^bold>\<open>Read-write locks\<close> (\<^verbatim>\<open>my_rwlock\<close>, \<^verbatim>\<open>my_rwlock_cancel\<close>): \<open>RWLock\<close>, again over \<open>Monitor\<close>. Shown are mutual exclusion, the meaning of
  the counters and freedom from deadlock in both variants.

  \<^bold>\<open>Producers and consumers\<close> (\<^verbatim>\<open>src/unixipc/pxsem\<close>, \<^verbatim>\<open>src/unixipc/mutex\<close>). \<open>Threads\<close> has interleavings of two kinds of threads and
  the locale \<open>draining\<close> of step relations with a measure; \<open>BoundedBuffer\<close> the protocol and the locale of programs that
  follow it; \<open>ProdConsSem\<close> and \<open>ProdConsMutex\<close> the programs and the interpretations. Shown is that every run ends within a
  bound, with no wrong item and with all threads returned.

  \<^bold>\<open>Addresses as text\<close> (\<^verbatim>\<open>src/unixNetV1/libfree\<close>). \<open>Text\<close> has digits, numbers and separators; \<open>InetV4\<close> and \<open>InetV6\<close> the
  conversions in both directions; \<open>Checksum\<close> the Internet checksum. Shown are the round trip for all addresses, the
  exact language of dotted quads, agreement of the older functions with the newer ones, and that a checksummed packet
  verifies.

  \<^bold>\<open>Names and sockets\<close> (\<^verbatim>\<open>src/unixNetV1/libgai\<close>, \<^verbatim>\<open>src/unixNetV1/lib\<close>). \<open>SockAddr\<close> has socket addresses and the functions \<^verbatim>\<open>sock_*\<close>;
  \<open>AddrInfo\<close> has \<^verbatim>\<open>getaddrinfo\<close> and \<^verbatim>\<open>getnameinfo\<close> with every allocation; \<open>SockOpen\<close> has \<^verbatim>\<open>tcp_connect\<close> and its relatives over
  the contract of the locale \<open>socket_try\<close>. Shown are the round trip between the two functions, the memory in use on
  every path, and that exactly one descriptor stays open.

  \<^bold>\<open>Data transfer\<close> (\<^verbatim>\<open>src/unixNetV1/lib\<close>, \<^verbatim>\<open>src/unixNetV1/rtt\<close>). \<open>StreamIo\<close> has \<^verbatim>\<open>readn\<close>, \<^verbatim>\<open>writen\<close> and \<^verbatim>\<open>readline\<close>; \<open>Rtt\<close> the
  retransmission timer and \<^verbatim>\<open>dg_send_recv\<close>. Shown are whole transfers for all short counts, the text of a line, and the bounds on
  requests, alarms and duration of a request. \<open>StrCli\<close> has the client with nonblocking descriptors (\<^verbatim>\<open>src/unixNetV1/nonblock/strclinonb.c\<close>) as a function on its
  buffers per pass of its loop, and shows that every byte is passed on once and in order.

  \<^bold>\<open>Servers\<close> (\<^verbatim>\<open>src/unixNetV1/tcpcliserv\<close>, \<^verbatim>\<open>nonblock\<close>, \<^verbatim>\<open>icmpd\<close>, \<^verbatim>\<open>server\<close>, \<^verbatim>\<open>threads\<close>, \<^verbatim>\<open>sock\<close>). \<open>ReadyLoop\<close> has the search for ready entries with a counter, tables of descriptors, and the locales
  \<open>ready_loop\<close> and \<open>served_table\<close>. \<open>SelectServer\<close> has the echo servers with \<^verbatim>\<open>select\<close> and \<^verbatim>\<open>poll\<close>, \<open>IcmpDaemon\<close> the daemon that passes on ICMP errors, \<open>PreforkServer\<close>
  the server that passes connections to its children, interleaved with them, and \<open>ThreadPool\<close> the server whose main thread hands connections to a pool of threads through a ring. A pass of a loop is a function of what the system reports in it. Shown are
  that every ready descriptor is served once, that tables and descriptor sets stay consistent, that errors reach the registered clients, and
  that every connection is served by one child or one thread. \<open>WebClient\<close> has the client that fetches files over several nonblocking connections: its counters, the
  order of what happens for each file, and a bound on the number of passes. \<open>WebThreads\<close> has the client that fetches each file in a thread (\<^verbatim>\<open>threads/web03.c\<close>), with its
  interleavings: it comes to rest only at its end, or in a deadlock between \<^verbatim>\<open>pthread_join\<close> and the mutex, which is reachable. \<open>SockLoop\<close> has the copy loop of the program
  \<^verbatim>\<open>sock\<close> for TCP with its conversion of line ends and its ways to write: without \<^verbatim>\<open>MSG_PEEK\<close> and errors on standard output every byte is copied once, converted as a
  whole; its \<^verbatim>\<open>writen\<close> does not notice such an error and repeats a byte.

  \<^bold>\<open>Mail\<close> (\<^verbatim>\<open>src/mail/linux_ver\<close>). \<open>Base64\<close> has the encoder, with 32-bit index arithmetic and a buffer written by index, and the loop that sends an attachment in pieces: the encoder
  can be undone, and an attachment decodes only if it fits into one piece.

  \<^bold>\<open>Words in a matrix\<close> (\<^verbatim>\<open>src/item/findStrFromMat\<close>). \<open>FindStr\<close> has the search for words along neighbouring cells: what it reports is there, and it misses words because
  it does not take marks back.

  \<^bold>\<open>Linked queues\<close> (\<^verbatim>\<open>src/dataStructure/tailq\<close>). \<open>Queue\<close> has the macros of \<^verbatim>\<open>queue.h\<close> for lists and queues over a store of pointers,
  \<open>CircleQ\<close> those for circular queues; both interpret the locale \<open>linked_queue\<close>, the contract of a queue as a sequence that leaves other
  queues alone. \<open>QueuePool\<close> has the two programs that use the macros and shows what they print.

  \<^bold>\<open>Bounds and fuel.\<close> The passes of \<^verbatim>\<open>mymq_open\<close> and \<^verbatim>\<open>mysem_open\<close> after \<^verbatim>\<open>goto again\<close> are bounded by fuel; the theorems say
  that a few passes are enough unless another process removes the file at the same time. The search of \<^verbatim>\<open>mymq_send\<close> in a linked
  list is a partial function, and the invariant shows that it returns. All other loops are total functions.

  \<^bold>\<open>Not modelled.\<close> The bodies of wrappers that only call a function and end the process on failure, except where a
  modelled function uses them; programs that are a fixed sequence of system calls and prints; code around packet and
  request layouts of system headers (routing, interfaces, SCTP, doors, RPC); kernel modules; the static buffers that
  functions like \<^verbatim>\<open>sock_ntop\<close> return (a result is a value, so a second call does not overwrite it); delivery of a
  cancellation to a thread that waits for a read-write lock; link-layer socket addresses, which the usual build
  leaves out; signals at instructions other than the waits named in the theories. The manifest lists the
  directories of these parts.
\<close>

end
